(* ===== verification/Lkv_Prelude.thy ===== *)
theory Lkv_Prelude
  imports Main "HOL-Library.Word" "HOL-Library.List_Lexorder"
begin

section \<open>Shared types, byte buffers and automation\<close>

text \<open>
  The types and generic lemmas every component uses. A C++ \<open>char\<close> buffer is a list of
  8-bit words, a pointer into a buffer is an offset (\<open>nat\<close>), \<open>uint32_t\<close> and
  \<open>uint64_t\<close> are words of that width, and \<open>size_t\<close> values that count bytes of
  a buffer in memory are \<open>nat\<close>. The theory \<open>List_Lexorder\<close> makes byte strings a
  linear order: the lexicographic order on unsigned bytes that \<open>memcmp\<close> and
  \<open>std::string\<close> use.

  \<open>holds_at buf p xs\<close> says that the bytes \<open>xs\<close> lie in \<open>buf\<close> at offset
  \<open>p\<close>. Every decoder of the development has a lemma of the form "if the encoding lies
  at the cursor then decoding returns the value and moves the cursor behind it", and the
  laws of \<open>holds_at\<close> compose these lemmas along a buffer.
\<close>

unbundle bit_operations_syntax

type_synonym byte = "8 word"
type_synonym bytes = "byte list"
type_synonym u32 = "32 word"
type_synonym u64 = "64 word"

named_theorems decode_at \<open>what a decoder returns where an encoding lies at its cursor\<close>
named_theorems length_simps \<open>lengths of encodings\<close>

subsection \<open>Integers as byte sequences\<close>

text \<open>
  \<open>memcpy\<close> of an integer to or from a buffer exposes its object representation, which is
  little-endian on the platforms the program targets (x86-64, AArch64).
\<close>

fun le_bytes :: "nat \<Rightarrow> 'a::len word \<Rightarrow> bytes" where
  "le_bytes 0 v = []"
| "le_bytes (Suc n) v = ucast v # le_bytes n (drop_bit 8 v)"

fun le_val :: "bytes \<Rightarrow> 'a::len word" where
  "le_val [] = 0"
| "le_val (b # bs) = ucast b OR push_bit 8 (le_val bs)"

lemma length_le_bytes [simp, length_simps]: "length (le_bytes n v) = n"
  by (induction n arbitrary: v) auto

lemma le_val_le_bytes: "le_val (le_bytes n v) = take_bit (8 * n) v"
proof (induction n arbitrary: v)
  case (Suc n)
  show ?case
    by (rule bit_word_eqI) (auto simp: Suc.IH bit_simps)
qed simp

lemma le_val_le_bytes_full [simp]:
  "le_val (le_bytes 4 (v :: u32)) = v" "le_val (le_bytes 8 (w :: u64)) = w"
  by (simp_all add: le_val_le_bytes take_bit_word_eq_self)

lemma unat_byte_less: "unat (b :: byte) < 256"
  and unat_u32_less: "unat (v :: u32) < 2 ^ 32"
  and unat_u64_less: "unat (w :: u64) < 2 ^ 64"
  using unsigned_less [of b, where ?'a = nat] unsigned_less [of v, where ?'a = nat]
    unsigned_less [of w, where ?'a = nat]
  by simp_all

subsection \<open>Bytes at an offset of a buffer\<close>

definition holds_at :: "'a list \<Rightarrow> nat \<Rightarrow> 'a list \<Rightarrow> bool" where
  "holds_at buf p xs \<longleftrightarrow> take (length xs) (drop p buf) = xs"

lemma holds_at_Nil [simp]: "holds_at buf p []"
  by (simp add: holds_at_def)

lemma holds_at_iff_nth:
  "holds_at buf p xs \<longleftrightarrow> (\<forall>i < length xs. p + i < length buf \<and> buf ! (p + i) = xs ! i)"
proof
  assume h: "holds_at buf p xs"
  show "\<forall>i < length xs. p + i < length buf \<and> buf ! (p + i) = xs ! i"
  proof (intro allI impI)
    fix i assume i: "i < length xs"
    from h have l: "length (take (length xs) (drop p buf)) = length xs"
      by (simp add: holds_at_def)
    with i have pi: "p + i < length buf" by simp
    have "take (length xs) (drop p buf) ! i = xs ! i"
      using h by (simp add: holds_at_def)
    with pi i show "p + i < length buf \<and> buf ! (p + i) = xs ! i" by simp
  qed
next
  assume h: "\<forall>i < length xs. p + i < length buf \<and> buf ! (p + i) = xs ! i"
  have "length xs \<le> length buf - p"
  proof (cases xs)
    case (Cons x ys)
    with h have "p + length ys < length buf" by auto
    with Cons show ?thesis by simp
  qed simp
  with h show "holds_at buf p xs"
    by (auto simp: holds_at_def intro!: nth_equalityI)
qed

lemma holds_at_append:
  "holds_at buf p (xs @ ys) \<longleftrightarrow> holds_at buf p xs \<and> holds_at buf (p + length xs) ys"
proof
  assume h: "holds_at buf p (xs @ ys)"
  have "p + length xs + i < length buf \<and> buf ! (p + length xs + i) = ys ! i" if "i < length ys" for i
    using h that by (auto simp: holds_at_iff_nth nth_append add.assoc dest: spec [of _ "length xs + i"])
  moreover have "holds_at buf p xs"
    using h by (auto simp: holds_at_iff_nth nth_append dest: spec)
  ultimately show "holds_at buf p xs \<and> holds_at buf (p + length xs) ys"
    by (auto simp: holds_at_iff_nth)
next
  assume h: "holds_at buf p xs \<and> holds_at buf (p + length xs) ys"
  show "holds_at buf p (xs @ ys)"
    unfolding holds_at_iff_nth
  proof (intro allI impI)
    fix i assume i: "i < length (xs @ ys)"
    show "p + i < length buf \<and> buf ! (p + i) = (xs @ ys) ! i"
    proof (cases "i < length xs")
      case True
      with h show ?thesis by (auto simp: holds_at_iff_nth nth_append)
    next
      case False
      with i h show ?thesis
        by (auto simp: holds_at_iff_nth nth_append dest: spec [of _ "i - length xs"])
    qed
  qed
qed

lemma holds_at_Cons:
  "holds_at buf p (x # xs) \<longleftrightarrow> p < length buf \<and> buf ! p = x \<and> holds_at buf (Suc p) xs"
  using holds_at_append [of buf p "[x]" xs] by (auto simp: holds_at_iff_nth)

lemma holds_at_length: "holds_at buf p xs \<Longrightarrow> xs \<noteq> [] \<Longrightarrow> p + length xs \<le> length buf"
  by (cases xs rule: rev_cases) (auto simp: holds_at_append holds_at_Cons)

lemma holds_at_self [simp]: "holds_at (pre @ xs @ post) (length pre) xs"
  by (simp add: holds_at_def)

lemma holds_at_whole [simp]: "holds_at xs 0 xs"
  by (simp add: holds_at_def)

lemma holds_at_prefix [simp]: "holds_at (xs @ post) 0 xs"
  by (simp add: holds_at_def)

lemma holds_at_extend: "holds_at buf p xs \<Longrightarrow> xs \<noteq> [] \<Longrightarrow> holds_at (buf @ post) p xs"
  using holds_at_length [of buf p xs] by (auto simp: holds_at_def)

lemma holds_at_shift: "holds_at (pre @ buf) (length pre + p) xs \<longleftrightarrow> holds_at buf p xs"
  by (simp add: holds_at_def)

lemma holds_at_slice: "holds_at buf p xs \<Longrightarrow> take (length xs) (drop p buf) = xs"
  by (simp add: holds_at_def)

subsection \<open>Lists\<close>

lemma filter_takeWhile_dropWhile:
  "filter P (takeWhile P xs @ ys) = takeWhile P xs @ filter P ys"
  by (induction xs) auto

end
