(* ===== verification/Lkv_Cache.thy ===== *)
theory Lkv_Cache
  imports Lkv_Prelude
begin

section \<open>Block cache (include/lightkv/cache.h, src/cache.cpp)\<close>

text \<open>
  \<open>LRUCache\<close> is a hash table of entries and a list of keys, most recently used first; the
  iterator an entry holds into the list is the position of its key. \<open>BlockCache\<close> puts the
  blocks of table files in such a cache and keeps, per file, the offsets it inserted. The
  locale \<open>evicting_cache\<close> is what \<open>BlockCache\<close> needs from the cache below it, which may
  forget any entry at an insertion but never answers with a wrong value; \<open>LRUCache\<close> is
  shown to provide it.
\<close>

record ('k, 'v) LRUCache =
  capacity :: nat
  usage :: nat
  table :: "'k \<rightharpoonup> 'v \<times> nat"
  lru_list :: "'k list"

definition LRUCache_new :: "nat \<Rightarrow> ('k, 'v) LRUCache" where
  "LRUCache_new cap = \<lparr>capacity = cap, usage = 0, table = Map.empty, lru_list = []\<rparr>"

definition LRUCache_EvictOne :: "('k, 'v) LRUCache \<Rightarrow> ('k, 'v) LRUCache" where
  "LRUCache_EvictOne c =
     (if lru_list c = [] then c
      else let key = last (lru_list c);
               c = (case table c key of
                      None \<Rightarrow> c
                    | Some (v, charge) \<Rightarrow> c\<lparr>usage := usage c - charge, table := (table c)(key := None)\<rparr>)
           in c\<lparr>lru_list := butlast (lru_list c)\<rparr>)"

text \<open>The body shared by \<open>Insert\<close> and \<open>Erase\<close>: unlink the entry of a key, if any.\<close>

definition LRUCache_Erase :: "('k, 'v) LRUCache \<Rightarrow> 'k \<Rightarrow> ('k, 'v) LRUCache" where
  "LRUCache_Erase c key =
     (case table c key of
        None \<Rightarrow> c
      | Some (v, charge) \<Rightarrow>
          c\<lparr>usage := usage c - charge, lru_list := remove1 key (lru_list c),
            table := (table c)(key := None)\<rparr>)"

lemma EvictOne_lru_list [simp]: "lru_list (LRUCache_EvictOne c) = butlast (lru_list c)"
  by (simp add: LRUCache_EvictOne_def Let_def split: option.split)

lemma EvictOne_capacity [simp]: "capacity (LRUCache_EvictOne c) = capacity c"
  by (simp add: LRUCache_EvictOne_def Let_def split: option.split)

text \<open>The eviction loop of \<open>Insert\<close> (with the charge to make room for) and of \<open>Prune\<close>
  (with 0).\<close>

function LRUCache_evict_loop :: "nat \<Rightarrow> ('k, 'v) LRUCache \<Rightarrow> ('k, 'v) LRUCache" where
  "LRUCache_evict_loop charge c =
     (if usage c + charge > capacity c \<and> lru_list c \<noteq> []
      then LRUCache_evict_loop charge (LRUCache_EvictOne c) else c)"
  by auto
termination
  by (relation "measure (\<lambda>(charge, c). length (lru_list c))") auto

declare LRUCache_evict_loop.simps [simp del]

definition LRUCache_Insert :: "('k, 'v) LRUCache \<Rightarrow> 'k \<Rightarrow> 'v \<Rightarrow> nat \<Rightarrow> ('k, 'v) LRUCache" where
  "LRUCache_Insert c key v charge =
     (let c = LRUCache_Erase c key;
          c = LRUCache_evict_loop charge c
      in if charge > capacity c then c
         else c\<lparr>lru_list := key # lru_list c, table := (table c)(key \<mapsto> (v, charge)),
                usage := usage c + charge\<rparr>)"

definition LRUCache_Lookup :: "('k, 'v) LRUCache \<Rightarrow> 'k \<Rightarrow> 'v option \<times> ('k, 'v) LRUCache" where
  "LRUCache_Lookup c key =
     (case table c key of
        None \<Rightarrow> (None, c)
      | Some (v, charge) \<Rightarrow> (Some v, c\<lparr>lru_list := key # remove1 key (lru_list c)\<rparr>))"

definition LRUCache_Prune :: "('k, 'v) LRUCache \<Rightarrow> ('k, 'v) LRUCache" where
  "LRUCache_Prune c = LRUCache_evict_loop 0 c"

definition LRUCache_TotalCharge :: "('k, 'v) LRUCache \<Rightarrow> nat" where
  "LRUCache_TotalCharge c = usage c"

subsection \<open>The invariant of \<open>LRUCache\<close>\<close>

definition charge_of :: "('k \<rightharpoonup> 'v \<times> nat) \<Rightarrow> 'k \<Rightarrow> nat" where
  "charge_of t k = (case t k of None \<Rightarrow> 0 | Some (v, charge) \<Rightarrow> charge)"

text \<open>List and table hold the same keys, once each, and \<open>usage\<close> is the sum of the charges.\<close>

definition lru_linked :: "('k, 'v) LRUCache \<Rightarrow> bool" where
  "lru_linked c \<longleftrightarrow> distinct (lru_list c) \<and> dom (table c) = set (lru_list c)
     \<and> usage c = sum_list (map (charge_of (table c)) (lru_list c))"

definition lru_invar :: "('k, 'v) LRUCache \<Rightarrow> bool" where
  "lru_invar c \<longleftrightarrow> lru_linked c \<and> usage c \<le> capacity c"

lemma charge_of_upd_other [simp]: "k \<noteq> k' \<Longrightarrow> charge_of (t(k := x)) k' = charge_of t k'"
  by (simp add: charge_of_def)

lemma map_charge_of_upd [simp]:
  "k \<notin> set ks \<Longrightarrow> map (charge_of (t(k := x))) ks = map (charge_of t) ks"
  by (auto simp: charge_of_def)

lemma lru_linked_new: "lru_linked (LRUCache_new cap)"
  by (simp add: lru_linked_def LRUCache_new_def)

lemma lru_linked_lookup_iff: "lru_linked c \<Longrightarrow> table c k \<noteq> None \<longleftrightarrow> k \<in> set (lru_list c)"
  by (auto simp: lru_linked_def dom_def)

lemma lru_table_restrict:
  assumes "lru_linked c"
  shows "table c |` set (lru_list c) = table c"
proof (rule ext)
  fix k
  show "(table c |` set (lru_list c)) k = table c k"
    using lru_linked_lookup_iff [OF assms, of k] by (cases "table c k") (simp_all add: restrict_map_def)
qed

lemma sum_remove1:
  "k \<in> set ks \<Longrightarrow> sum_list (map f (remove1 k ks)) = sum_list (map f ks) - (f k :: nat)"
  by (induction ks) (auto simp: member_le_sum_list)

lemma Erase_unlinks:
  assumes "lru_linked c"
  shows "lru_linked (LRUCache_Erase c k) \<and> capacity (LRUCache_Erase c k) = capacity c
    \<and> usage (LRUCache_Erase c k) \<le> usage c
    \<and> table (LRUCache_Erase c k) = (table c)(k := None)
    \<and> lru_list (LRUCache_Erase c k) = remove1 k (lru_list c)"
proof (cases "table c k")
  case None
  then have "k \<notin> set (lru_list c)"
    using lru_linked_lookup_iff [OF assms, of k] by simp
  with None assms show ?thesis
    by (auto simp: LRUCache_Erase_def remove1_idem fun_upd_idem)
next
  case (Some e)
  then have k: "k \<in> set (lru_list c)"
    using lru_linked_lookup_iff [OF assms, of k] by simp
  with Some assms show ?thesis
    by (cases e) (auto simp: LRUCache_Erase_def lru_linked_def sum_remove1 charge_of_def
        simp del: sum_list_map_remove1)
qed

lemma EvictOne_linked:
  assumes "lru_linked c" and "lru_list c \<noteq> []"
  shows "lru_linked (LRUCache_EvictOne c) \<and> table (LRUCache_EvictOne c) = (table c)(last (lru_list c) := None)"
proof -
  obtain ks k where ks: "lru_list c = ks @ [k]" using assms(2) by (metis rev_exhaust)
  then obtain e where "table c k = Some e"
    using lru_linked_lookup_iff [OF assms(1), of k] by auto
  with assms(1) ks show ?thesis
    by (cases e) (auto simp: LRUCache_EvictOne_def lru_linked_def Let_def charge_of_def)
qed

text \<open>What the eviction loop leaves: a prefix of the recency list, as long as possible.\<close>

lemma evict_loop_linked:
  assumes "lru_linked c"
  shows "\<exists>n \<le> length (lru_list c). let c' = LRUCache_evict_loop charge c in
     lru_linked c' \<and> capacity c' = capacity c \<and> lru_list c' = take n (lru_list c)
     \<and> table c' = table c |` set (take n (lru_list c))
     \<and> (n = 0 \<or> usage c' + charge \<le> capacity c)
     \<and> (n < length (lru_list c) \<longrightarrow>
          sum_list (map (charge_of (table c)) (take (Suc n) (lru_list c))) + charge > capacity c)"
  using assms
proof (induction charge c rule: LRUCache_evict_loop.induct)
  case (1 charge c)
  show ?case
  proof (cases "usage c + charge > capacity c \<and> lru_list c \<noteq> []")
    case False
    have "table c |` set (lru_list c) = table c"
      using lru_table_restrict [OF "1.prems"] .
    then show ?thesis
      using False "1.prems"
      by (intro exI [of _ "length (lru_list c)"]) (auto simp: LRUCache_evict_loop.simps Let_def)
  next
    case True
    let ?c = "LRUCache_EvictOne c"
    from True obtain ks k where ks: "lru_list c = ks @ [k]" by (metis rev_exhaust)
    have c: "lru_linked ?c" "table ?c = (table c)(k := None)"
      using EvictOne_linked [of c] True "1.prems" ks by auto
    have k: "k \<notin> set (take n ks)" for n
      using "1.prems" ks by (auto simp: lru_linked_def dest: in_set_takeD)
    from "1.IH" [OF True c(1)] obtain n where n: "n \<le> length ks"
      "let c' = LRUCache_evict_loop charge ?c in lru_linked c' \<and> capacity c' = capacity c
        \<and> lru_list c' = take n ks \<and> table c' = table ?c |` set (take n ks)
        \<and> (n = 0 \<or> usage c' + charge \<le> capacity c)
        \<and> (n < length ks \<longrightarrow>
            sum_list (map (charge_of (table ?c)) (take (Suc n) ks)) + charge > capacity c)"
      using ks by auto
    have "usage c = sum_list (map (charge_of (table c)) (lru_list c))"
      using "1.prems" by (simp add: lru_linked_def)
    with True n ks c(2) k [of n] k [of "Suc n"] show ?thesis
      by (intro exI [of _ n])
        (auto simp: Let_def LRUCache_evict_loop.simps [of charge c] restrict_map_def fun_eq_iff
          not_less_eq_eq)
  qed
qed

lemma evict_loop_usage:
  assumes "lru_linked c" and "charge \<le> capacity c"
  shows "usage (LRUCache_evict_loop charge c) + charge \<le> capacity c"
proof -
  let ?c = "LRUCache_evict_loop charge c"
  obtain n where n: "n \<le> length (lru_list c)" "lru_linked ?c" "lru_list ?c = take n (lru_list c)"
      "n = 0 \<or> usage ?c + charge \<le> capacity c"
    using evict_loop_linked [OF assms(1), of charge] by (auto simp: Let_def)
  then show ?thesis
    using assms(2) by (auto simp: lru_linked_def)
qed

lemma Insert_linked:
  assumes "lru_linked c"
  shows "\<exists>n. let c' = LRUCache_Insert c k v charge; ks = remove1 k (lru_list c) in
     lru_linked c' \<and> capacity c' = capacity c
     \<and> lru_list c' = (if charge \<le> capacity c then [k] else []) @ take n ks
     \<and> table c' = (if charge \<le> capacity c then (table c |` set (take n ks))(k \<mapsto> (v, charge))
                  else table c |` set (take n ks))
     \<and> (charge \<le> capacity c \<longrightarrow> usage c' \<le> capacity c)
     \<and> (n < length ks \<longrightarrow> sum_list (map (charge_of (table c)) (take (Suc n) ks)) + charge > capacity c)"
proof -
  let ?e = "LRUCache_Erase c k" and ?ks = "remove1 k (lru_list c)"
  let ?l = "LRUCache_evict_loop charge ?e"
  have e: "lru_linked ?e" "capacity ?e = capacity c" "table ?e = (table c)(k := None)" "lru_list ?e = ?ks"
    using Erase_unlinks [OF assms] by blast+
  have k: "k \<notin> set ?ks" "k \<notin> set (take m ?ks)" for m
    using assms by (auto simp: lru_linked_def dest: in_set_takeD)
  obtain n where n: "lru_linked ?l" "capacity ?l = capacity c" "lru_list ?l = take n ?ks"
      "table ?l = table ?e |` set (take n ?ks)"
      "n < length ?ks \<longrightarrow> sum_list (map (charge_of (table ?e)) (take (Suc n) ?ks)) + charge > capacity c"
    using evict_loop_linked [OF e(1), of charge] e by (auto simp: Let_def)
  have t: "table ?l = table c |` set (take n ?ks)"
    using n(4) e(3) k by (auto simp: restrict_map_def fun_eq_iff)
  have m: "map (charge_of (table ?e)) (take (Suc n) ?ks) = map (charge_of (table c)) (take (Suc n) ?ks)"
    using e(3) k(2) [of "Suc n"] by simp
  have u: "charge \<le> capacity c \<Longrightarrow> usage ?l + charge \<le> capacity c"
    using evict_loop_usage [OF e(1), of charge] e(2) by simp
  have "k \<notin> set (lru_list ?l)" using n(3) k(2) by simp
  then have "lru_linked (?l\<lparr>lru_list := k # lru_list ?l, table := (table ?l)(k \<mapsto> (v, charge)),
      usage := usage ?l + charge\<rparr>)"
    using n(1) by (auto simp: lru_linked_def charge_of_def)
  then show ?thesis
    using n t u m by (intro exI [of _ n]) (auto simp: LRUCache_Insert_def Let_def)
qed

lemma Lookup_linked:
  assumes "lru_linked c"
  shows "lru_linked (snd (LRUCache_Lookup c k)) \<and> capacity (snd (LRUCache_Lookup c k)) = capacity c
    \<and> usage (snd (LRUCache_Lookup c k)) = usage c \<and> table (snd (LRUCache_Lookup c k)) = table c
    \<and> fst (LRUCache_Lookup c k) = map_option fst (table c k)"
proof (cases "table c k")
  case None
  then show ?thesis using assms by (simp add: LRUCache_Lookup_def)
next
  case (Some e)
  then have k: "k \<in> set (lru_list c)"
    using lru_linked_lookup_iff [OF assms, of k] by simp
  with assms Some show ?thesis
    by (cases e)
      (auto simp: LRUCache_Lookup_def lru_linked_def sum_list_map_remove1 [OF k])
qed

lemma lru_invar_new: "lru_invar (LRUCache_new cap)"
  by (simp add: lru_invar_def lru_linked_new) (simp add: LRUCache_new_def)

lemma lru_invar_Erase: "lru_invar c \<Longrightarrow> lru_invar (LRUCache_Erase c k)"
  using Erase_unlinks [of c k] by (simp add: lru_invar_def)

lemma lru_invar_Lookup: "lru_invar c \<Longrightarrow> lru_invar (snd (LRUCache_Lookup c k))"
  using Lookup_linked [of c k] by (simp add: lru_invar_def)

lemma lru_invar_Insert:
  assumes "lru_invar c"
  shows "lru_invar (LRUCache_Insert c k v charge)"
proof (cases "charge \<le> capacity c")
  case True
  then show ?thesis
    using Insert_linked [of c k v charge] assms by (auto simp: lru_invar_def Let_def)
next
  case False
  let ?e = "LRUCache_Erase c k"
  have e: "lru_linked ?e" "capacity ?e = capacity c" "usage ?e \<le> capacity c"
    using Erase_unlinks [of c k] assms by (auto simp: lru_invar_def)
  then obtain n where n: "lru_linked (LRUCache_evict_loop charge ?e)"
      "capacity (LRUCache_evict_loop charge ?e) = capacity c"
      "n = 0 \<or> usage (LRUCache_evict_loop charge ?e) + charge \<le> capacity c"
      "lru_list (LRUCache_evict_loop charge ?e) = take n (lru_list ?e)"
    using evict_loop_linked [OF e(1), of charge] by (auto simp: Let_def)
  with False show ?thesis
    by (auto simp: LRUCache_Insert_def Let_def lru_invar_def lru_linked_def)
qed

subsection \<open>What a client may rely on\<close>

datatype ('k, 'v) cache_op = Op_Insert 'k 'v nat | Op_Lookup 'k | Op_Erase 'k

locale evicting_cache =
  fixes invar :: "'c \<Rightarrow> bool"
    and new :: "'c"
    and ins :: "'c \<Rightarrow> 'k \<Rightarrow> 'v \<Rightarrow> nat \<Rightarrow> 'c"
    and look :: "'c \<Rightarrow> 'k \<Rightarrow> 'v option \<times> 'c"
    and era :: "'c \<Rightarrow> 'k \<Rightarrow> 'c"
  assumes invar_new: "invar new"
    and invar_ins: "invar c \<Longrightarrow> invar (ins c k v n)"
    and invar_look: "invar c \<Longrightarrow> invar (snd (look c k))"
    and invar_era: "invar c \<Longrightarrow> invar (era c k)"
    and look_new: "fst (look new k) = None"
    and look_ins: "invar c \<Longrightarrow> fst (look (ins c k v n) k') \<in> {None, if k' = k then Some v else fst (look c k')}"
    and look_look: "invar c \<Longrightarrow> fst (look (snd (look c k)) k') = fst (look c k')"
    and look_era: "invar c \<Longrightarrow> fst (look (era c k) k') = (if k' = k then None else fst (look c k'))"
begin

text \<open>Every answer of the cache agrees with the store \<open>s\<close> it stands in front of.\<close>

definition coherent :: "'c \<Rightarrow> ('k \<rightharpoonup> 'v) \<Rightarrow> bool" where
  "coherent c s \<longleftrightarrow> invar c \<and> (\<forall>k v. fst (look c k) = Some v \<longrightarrow> s k = Some v)"

lemma coherent_new: "coherent new Map.empty"
  by (simp add: coherent_def invar_new look_new)

lemma coherent_ins: "coherent c s \<Longrightarrow> coherent (ins c k v n) (s(k \<mapsto> v))"
  using look_ins [of c k v n] by (fastforce simp: coherent_def invar_ins split: if_splits)

lemma coherent_look: "coherent c s \<Longrightarrow> coherent (snd (look c k)) s"
  by (simp add: coherent_def invar_look look_look)

lemma coherent_era: "coherent c s \<Longrightarrow> coherent (era c k) (s(k := None))"
  by (simp add: coherent_def invar_era look_era)

lemma invar_era_all: "invar c \<Longrightarrow> invar (fold (\<lambda>k c. era c k) ks c)"
  by (induction ks arbitrary: c) (simp_all add: invar_era)

lemma look_era_all:
  "invar c \<Longrightarrow> fst (look (fold (\<lambda>k c. era c k) ks c) k') = (if k' \<in> set ks then None else fst (look c k'))"
  by (induction ks arbitrary: c) (simp_all add: invar_era look_era)

lemma coherent_era_all:
  "coherent c s \<Longrightarrow> (\<And>k. k \<notin> set ks \<Longrightarrow> fst (look c k) \<noteq> None \<Longrightarrow> s' k = s k) \<Longrightarrow>
   coherent (fold (\<lambda>k c. era c k) ks c) s'"
  by (auto simp: coherent_def invar_era_all look_era_all split: if_splits)

end

lemma Lookup_Insert:
  assumes "lru_invar c"
  shows "fst (LRUCache_Lookup (LRUCache_Insert c k v n) k')
    \<in> {None, if k' = k then Some v else fst (LRUCache_Lookup c k')}"
proof -
  let ?c = "LRUCache_Insert c k v n"
  have c: "lru_linked c" using assms by (simp add: lru_invar_def)
  obtain m where m: "lru_linked ?c"
      "table ?c = (if n \<le> capacity c then (table c |` set (take m (remove1 k (lru_list c))))(k \<mapsto> (v, n))
                   else table c |` set (take m (remove1 k (lru_list c))))"
    using Insert_linked [OF c, of k v n] by (auto simp: Let_def)
  moreover have "k \<notin> set (take m (remove1 k (lru_list c)))"
    using c by (auto simp: lru_linked_def dest: in_set_takeD)
  ultimately show ?thesis
    by (auto simp: Lookup_linked [OF c] Lookup_linked [OF m(1)] restrict_map_def)
qed

lemma Lookup_Lookup:
  assumes "lru_invar c"
  shows "fst (LRUCache_Lookup (snd (LRUCache_Lookup c k)) k') = fst (LRUCache_Lookup c k')"
proof -
  have c: "lru_linked c" using assms by (simp add: lru_invar_def)
  then show ?thesis
    using Lookup_linked [OF c, of k] Lookup_linked [OF c, of k']
      Lookup_linked [of "snd (LRUCache_Lookup c k)" k'] by simp
qed

lemma Lookup_Erase:
  assumes "lru_invar c"
  shows "fst (LRUCache_Lookup (LRUCache_Erase c k) k') = (if k' = k then None else fst (LRUCache_Lookup c k'))"
proof -
  have c: "lru_linked c" using assms by (simp add: lru_invar_def)
  then show ?thesis
    using Erase_unlinks [OF c, of k] Lookup_linked [OF c, of k']
      Lookup_linked [of "LRUCache_Erase c k" k'] by simp
qed

lemma Lookup_new: "fst (LRUCache_Lookup (LRUCache_new cap) k) = None"
  by (simp add: LRUCache_Lookup_def LRUCache_new_def)

interpretation lru: evicting_cache lru_invar "LRUCache_new cap" LRUCache_Insert LRUCache_Lookup LRUCache_Erase
  for cap
  by unfold_locales
    (fact lru_invar_new lru_invar_Insert lru_invar_Lookup lru_invar_Erase Lookup_new Lookup_Insert
      Lookup_Lookup Lookup_Erase)+



subsection \<open>\<open>BlockCache\<close>\<close>

record CacheKey =
  file_id :: u64
  block_offset :: u64

record BlockCache =
  cache :: "(CacheKey, bytes) LRUCache"
  file_index :: "u64 \<rightharpoonup> u64 list"

definition BlockCache_new :: "nat \<Rightarrow> BlockCache" where
  "BlockCache_new cap = \<lparr>cache = LRUCache_new cap, file_index = Map.empty\<rparr>"

definition BlockCache_Insert :: "BlockCache \<Rightarrow> u64 \<Rightarrow> u64 \<Rightarrow> bytes \<Rightarrow> BlockCache" where
  "BlockCache_Insert bc f off contents =
     (let offsets = (case file_index bc f of None \<Rightarrow> [] | Some offs \<Rightarrow> offs)
      in bc\<lparr>cache := LRUCache_Insert (cache bc) \<lparr>file_id = f, block_offset = off\<rparr> contents (length contents),
            file_index := (file_index bc)(f \<mapsto> offsets @ [off])\<rparr>)"

definition BlockCache_Lookup :: "BlockCache \<Rightarrow> u64 \<Rightarrow> u64 \<Rightarrow> bytes option \<times> BlockCache" where
  "BlockCache_Lookup bc f off =
     (let (v, c) = LRUCache_Lookup (cache bc) \<lparr>file_id = f, block_offset = off\<rparr>
      in (v, bc\<lparr>cache := c\<rparr>))"

definition BlockCache_Erase :: "BlockCache \<Rightarrow> u64 \<Rightarrow> BlockCache" where
  "BlockCache_Erase bc f =
     (case file_index bc f of
        None \<Rightarrow> bc
      | Some offsets \<Rightarrow>
          bc\<lparr>file_index := (file_index bc)(f := None),
             cache := fold (\<lambda>key c. LRUCache_Erase c key)
               (map (\<lambda>off. \<lparr>file_id = f, block_offset = off\<rparr>) offsets) (cache bc)\<rparr>)"

datatype block_cache_op =
  BC_Insert u64 u64 bytes
| BC_Lookup u64 u64
| BC_Erase u64

fun block_cache_step :: "BlockCache \<Rightarrow> block_cache_op \<Rightarrow> BlockCache" where
  "block_cache_step bc (BC_Insert f off contents) = BlockCache_Insert bc f off contents"
| "block_cache_step bc (BC_Lookup f off) = snd (BlockCache_Lookup bc f off)"
| "block_cache_step bc (BC_Erase f) = BlockCache_Erase bc f"

text \<open>The specification: the contents last inserted at a position since the file was last erased.\<close>

fun inserted_step :: "(CacheKey \<rightharpoonup> bytes) \<Rightarrow> block_cache_op \<Rightarrow> (CacheKey \<rightharpoonup> bytes)" where
  "inserted_step s (BC_Insert f off contents) = s(\<lparr>file_id = f, block_offset = off\<rparr> \<mapsto> contents)"
| "inserted_step s (BC_Lookup f off) = s"
| "inserted_step s (BC_Erase f) = (\<lambda>key. if file_id key = f then None else s key)"

text \<open>The file index lists every cached block, which is what makes \<open>Erase\<close> complete.\<close>

definition block_cache_invar :: "BlockCache \<Rightarrow> bool" where
  "block_cache_invar bc \<longleftrightarrow> lru_invar (cache bc)
     \<and> (\<forall>key v. fst (LRUCache_Lookup (cache bc) key) = Some v \<longrightarrow>
          (\<exists>offs. file_index bc (file_id key) = Some offs \<and> block_offset key \<in> set offs))"

lemma block_cache_Insert:
  assumes "block_cache_invar bc" and "lru.coherent (cache bc) s"
  shows "block_cache_invar (BlockCache_Insert bc f off contents) \<and>
    lru.coherent (cache (BlockCache_Insert bc f off contents)) (inserted_step s (BC_Insert f off contents))"
proof -
  let ?key = "\<lparr>file_id = f, block_offset = off\<rparr>"
  let ?bc = "BlockCache_Insert bc f off contents"
  have inv: "lru_invar (cache bc)" using assms(1) by (simp add: block_cache_invar_def)
  have c: "cache ?bc = LRUCache_Insert (cache bc) ?key contents (length contents)"
    by (simp add: BlockCache_Insert_def Let_def)
  have "\<exists>offs. file_index ?bc (file_id key) = Some offs \<and> block_offset key \<in> set offs"
    if "fst (LRUCache_Lookup (cache ?bc) key) = Some v" for key v
  proof (cases "key = ?key")
    case True
    then show ?thesis by (simp add: BlockCache_Insert_def Let_def)
  next
    case False
    then have "fst (LRUCache_Lookup (cache bc) key) = Some v"
      using that lru.look_ins [OF inv, of ?key contents "length contents" key] by (simp add: c)
    then obtain offs where "file_index bc (file_id key) = Some offs" "block_offset key \<in> set offs"
      using assms(1) by (auto simp: block_cache_invar_def)
    then show ?thesis by (cases "file_id key = f") (simp_all add: BlockCache_Insert_def Let_def)
  qed
  then show ?thesis
    using lru.coherent_ins [OF assms(2)] lru_invar_Insert [OF inv] by (simp add: block_cache_invar_def c)
qed

lemma block_cache_Lookup:
  assumes "block_cache_invar bc" and "lru.coherent (cache bc) s"
  shows "block_cache_invar (snd (BlockCache_Lookup bc f off)) \<and>
    lru.coherent (cache (snd (BlockCache_Lookup bc f off))) s"
  using assms lru.coherent_look [OF assms(2)]
  by (simp add: block_cache_invar_def BlockCache_Lookup_def split_beta lru.invar_look lru.look_look)

lemma block_cache_Erase_Some:
  assumes "block_cache_invar bc" and "lru.coherent (cache bc) s" and offs: "file_index bc f = Some offs"
  shows "block_cache_invar (BlockCache_Erase bc f) \<and>
    lru.coherent (cache (BlockCache_Erase bc f)) (inserted_step s (BC_Erase f))"
proof -
  let ?keys = "map (\<lambda>off. \<lparr>file_id = f, block_offset = off\<rparr>) offs"
  let ?c = "fold (\<lambda>key c. LRUCache_Erase c key) ?keys (cache bc)"
  have inv: "lru_invar (cache bc)" using assms(1) by (simp add: block_cache_invar_def)
  have idx: "\<exists>offs. file_index bc (file_id key) = Some offs \<and> block_offset key \<in> set offs"
    if "fst (LRUCache_Lookup (cache bc) key) = Some v" for key v
    using that assms(1) by (simp add: block_cache_invar_def)
  have gone: "key \<in> set ?keys" if "fst (LRUCache_Lookup (cache bc) key) = Some v" "file_id key = f" for key v
    using idx [OF that(1)] that(2) offs by (cases key) auto
  have "lru.coherent ?c (inserted_step s (BC_Erase f))"
    using gone by (intro lru.coherent_era_all [OF assms(2)]) auto
  moreover have "\<exists>offs. ((file_index bc)(f := None)) (file_id key) = Some offs \<and> block_offset key \<in> set offs"
    if "fst (LRUCache_Lookup ?c key) = Some v" for key v
    using that gone [of key v] idx [of key v] lru.look_era_all [OF inv, of ?keys key]
    by (auto split: if_splits)
  ultimately show ?thesis
    using offs lru.invar_era_all [OF inv, of ?keys] by (simp add: block_cache_invar_def BlockCache_Erase_def)
qed

lemma block_cache_Erase_None:
  assumes "block_cache_invar bc" and "lru.coherent (cache bc) s" and "file_index bc f = None"
  shows "block_cache_invar (BlockCache_Erase bc f) \<and>
    lru.coherent (cache (BlockCache_Erase bc f)) (inserted_step s (BC_Erase f))"
proof -
  have "file_id key \<noteq> f" if "fst (LRUCache_Lookup (cache bc) key) = Some v" for key v
    using that assms(1,3) by (auto simp: block_cache_invar_def)
  then show ?thesis
    using assms by (simp add: BlockCache_Erase_def lru.coherent_def)
qed

lemma block_cache_step_correct:
  assumes "block_cache_invar bc" and "lru.coherent (cache bc) s"
  shows "block_cache_invar (block_cache_step bc op) \<and>
   lru.coherent (cache (block_cache_step bc op)) (inserted_step s op)"
proof (cases op)
  case (BC_Insert f off contents)
  then show ?thesis using block_cache_Insert [OF assms] by simp
next
  case (BC_Lookup f off)
  then show ?thesis using block_cache_Lookup [OF assms] by simp
next
  case (BC_Erase f)
  then show ?thesis
    using block_cache_Erase_None [OF assms] block_cache_Erase_Some [OF assms]
    by (cases "file_index bc f") (simp_all only: block_cache_step.simps)
qed

lemma block_cache_run_correct:
  "block_cache_invar bc \<Longrightarrow> lru.coherent (cache bc) s \<Longrightarrow>
   block_cache_invar (foldl block_cache_step bc ops) \<and>
   lru.coherent (cache (foldl block_cache_step bc ops)) (foldl inserted_step s ops)"
proof (induction ops arbitrary: bc s)
  case (Cons op ops)
  have "block_cache_invar (block_cache_step bc op)"
    and "lru.coherent (cache (block_cache_step bc op)) (inserted_step s op)"
    using block_cache_step_correct [OF Cons.prems, of op] by simp_all
  from Cons.IH [OF this] show ?case by simp
qed simp

text \<open>C31: After any sequence of insertions, lookups and file erasures on a fresh \<open>BlockCache\<close>, a
  lookup that hits returns exactly the contents last inserted at that file and offset, no
  block of an erased file is ever served, and the charge never exceeds the capacity.\<close>

theorem BlockCache_coherent:
  "let bc = foldl block_cache_step (BlockCache_new cap) ops in
     LRUCache_TotalCharge (cache bc) \<le> capacity (cache bc)
     \<and> fst (BlockCache_Lookup bc f off)
         \<in> {None, foldl inserted_step Map.empty ops \<lparr>file_id = f, block_offset = off\<rparr>}"
proof -
  let ?bc = "foldl block_cache_step (BlockCache_new cap) ops"
  have "block_cache_invar (BlockCache_new cap)"
    by (simp add: block_cache_invar_def BlockCache_new_def lru_invar_new Lookup_new)
  moreover have "lru.coherent (cache (BlockCache_new cap)) Map.empty"
    using lru.coherent_new by (simp add: BlockCache_new_def)
  ultimately have "block_cache_invar ?bc" and "lru.coherent (cache ?bc) (foldl inserted_step Map.empty ops)"
    using block_cache_run_correct by blast+
  then show ?thesis
    by (cases "fst (BlockCache_Lookup ?bc f off)")
      (auto simp: Let_def block_cache_invar_def lru_invar_def lru.coherent_def BlockCache_Lookup_def
        split_beta LRUCache_TotalCharge_def)
qed

end
