(* ===== verification/Lkv_Slice.thy ===== *)
theory Lkv_Slice
  imports Lkv_Prelude
begin

section \<open>Slices and statuses (include/lightkv/slice.h, include/lightkv/status.h, src/status.cpp)\<close>

text \<open>
  A \<open>Slice\<close> is the byte string it views. \<open>Slice_compare\<close> and \<open>Slice_Hash\<close>
  translate the two operations with content; \<open>Slice_compare_eq\<close> ties the comparison to
  the linear order on byte strings, so that the components may use \<open><\<close>. A \<open>Status\<close>
  is a code and a message.
\<close>

subsection \<open>Slice\<close>

text \<open>Only the sign of \<open>memcmp\<close>'s result is specified; the model returns -1, 0 or 1.\<close>

fun memcmp :: "bytes \<Rightarrow> bytes \<Rightarrow> nat \<Rightarrow> int" where
  "memcmp (x # xs) (y # ys) (Suc n) =
     (if x < y then -1 else if y < x then 1 else memcmp xs ys n)"
| "memcmp _ _ _ = 0"

definition Slice_eq :: "bytes \<Rightarrow> bytes \<Rightarrow> bool" where
  "Slice_eq a b = (if length a \<noteq> length b then False else memcmp a b (length a) = 0)"

definition Slice_compare :: "bytes \<Rightarrow> bytes \<Rightarrow> int" where
  "Slice_compare a b =
     (let min_len = min (length a) (length b);
          cmp = memcmp a b min_len
      in if cmp \<noteq> 0 then cmp
         else if length a < length b then -1
         else if length a > length b then 1
         else 0)"

definition Slice_less :: "bytes \<Rightarrow> bytes \<Rightarrow> bool" where
  "Slice_less a b = (Slice_compare a b < 0)"

definition Slice_Hash :: "bytes \<Rightarrow> u32" where
  "Slice_Hash data = fold (\<lambda>c h. (h XOR ucast c) * 0x01000193) data 0x811C9DC5"

lemma memcmp_refl [simp]: "memcmp xs xs n = 0"
proof (induction xs arbitrary: n)
  case (Cons x xs)
  then show ?case by (cases n) auto
qed simp

lemma memcmp_zero: "memcmp a b 0 = 0"
  by (cases a; cases b) auto

lemma memcmp_eq_0_iff:
  "n \<le> length a \<Longrightarrow> n \<le> length b \<Longrightarrow> memcmp a b n = 0 \<longleftrightarrow> take n a = take n b"
  by (induction a b n rule: memcmp.induct) (auto simp: take_Cons split: nat.splits)

lemma memcmp_take: "memcmp (take n a) (take n b) n = memcmp a b n"
  by (induction a b n rule: memcmp.induct) (auto simp: take_Cons split: nat.splits)

lemma memcmp_take_le:
  "n \<le> m \<Longrightarrow> n \<le> m' \<Longrightarrow> memcmp (take m a) (take m' b) n = memcmp a b n"
proof (induction a b n arbitrary: m m' rule: memcmp.induct)
  case (1 x xs y ys n)
  then show ?case by (cases m; cases m') auto
qed (auto simp: take_Cons split: nat.splits)

lemma Nil_less_iff [simp]: "[] < (k :: bytes) \<longleftrightarrow> k \<noteq> []"
  by (cases k) auto

lemma memcmp_cases: "memcmp a b n = -1 \<or> memcmp a b n = 0 \<or> memcmp a b n = 1"
  by (induction a b n rule: memcmp.induct) auto

lemma Slice_eq_iff [simp]: "Slice_eq a b \<longleftrightarrow> a = b"
  by (auto simp: Slice_eq_def memcmp_eq_0_iff)

lemma Slice_compare_Cons:
  "Slice_compare (x # xs) (y # ys) =
     (if x < y then -1 else if y < x then 1 else Slice_compare xs ys)"
  by (auto simp: Slice_compare_def Let_def)

lemma Slice_compare_Nil:
  "Slice_compare [] ys = (if ys = [] then 0 else -1)" "Slice_compare (x # xs) [] = 1"
  by (auto simp: Slice_compare_def Let_def)

lemma Slice_compare_eq: "Slice_compare a b = (if a < b then -1 else if b < a then 1 else 0)"
  by (induction a b rule: list_induct2') (auto simp: Slice_compare_Cons Slice_compare_Nil)

lemma Slice_less_iff [simp]: "Slice_less a b \<longleftrightarrow> a < b"
  by (auto simp: Slice_less_def Slice_compare_eq)

text \<open>\<open>Slice::compare\<close> is the three-way comparison of the lexicographic order on
  unsigned bytes: it is negative exactly when the first slice sorts before the second, zero
  exactly when the two are equal, and exchanging the arguments flips the sign, so that
  \<open>operator<\<close> is a strict linear order on keys.\<close>

theorem Slice_compare_total_order:
  "(Slice_compare a b < 0 \<longleftrightarrow> a < b) \<and> (Slice_compare a b = 0 \<longleftrightarrow> a = b)
   \<and> Slice_compare b a = - Slice_compare a b"
  by (auto simp: Slice_compare_eq)

subsection \<open>Status\<close>

datatype Code = kOk | kNotFound | kCorruption | kNotSupported | kInvalidArgument | kIOError

record Status =
  st_code :: Code
  st_msg :: string

definition Status_OK :: Status where
  "Status_OK = \<lparr>st_code = kOk, st_msg = ''''\<rparr>"

definition Status_NotFound :: "string \<Rightarrow> Status" where
  "Status_NotFound msg = \<lparr>st_code = kNotFound, st_msg = msg\<rparr>"

definition Status_Corruption :: "string \<Rightarrow> Status" where
  "Status_Corruption msg = \<lparr>st_code = kCorruption, st_msg = msg\<rparr>"

definition Status_InvalidArgument :: "string \<Rightarrow> Status" where
  "Status_InvalidArgument msg = \<lparr>st_code = kInvalidArgument, st_msg = msg\<rparr>"

definition Status_IOError :: "string \<Rightarrow> Status" where
  "Status_IOError msg = \<lparr>st_code = kIOError, st_msg = msg\<rparr>"

definition ok :: "Status \<Rightarrow> bool" where
  "ok s \<longleftrightarrow> st_code s = kOk"

definition IsNotFound :: "Status \<Rightarrow> bool" where
  "IsNotFound s \<longleftrightarrow> st_code s = kNotFound"

fun Status_type_name :: "Code \<Rightarrow> string" where
  "Status_type_name kNotFound = ''NotFound''"
| "Status_type_name kCorruption = ''Corruption''"
| "Status_type_name kNotSupported = ''NotSupported''"
| "Status_type_name kInvalidArgument = ''InvalidArgument''"
| "Status_type_name kIOError = ''IOError''"
| "Status_type_name kOk = ''Unknown''"

definition Status_ToString :: "Status \<Rightarrow> string" where
  "Status_ToString s =
     (if st_code s = kOk then ''OK''
      else let type = Status_type_name (st_code s)
           in if st_msg s = '''' then type else type @ '': '' @ st_msg s)"

lemmas status_simps = Status_OK_def Status_NotFound_def Status_Corruption_def
  Status_InvalidArgument_def Status_IOError_def ok_def IsNotFound_def

lemma ok_Status_OK [simp]: "ok Status_OK"
  by (simp add: ok_def Status_OK_def)

end
