(* ===== verification/Lkv_Encoding.thy ===== *)
theory Lkv_Encoding
  imports Lkv_Slice
begin

section \<open>Binary encodings (include/lightkv/encoding.h)\<close>

text \<open>
  Internal keys (user key, sequence number, value type), fixed-width and variable-length
  integers. A decoder that takes \<open>p\<close> and \<open>limit\<close> pointers takes the buffer and two
  offsets here, and returns \<open>None\<close> where the C++ returns \<open>nullptr\<close>. The fixed-width
  decoders read at an offset the caller has checked.

  The lemmas show that every encoder is inverted by its decoder (round trips), and that
  \<open>CompareInternalKeys\<close> orders entries by user key ascending and then newest version
  first, which every search of the engine relies on.
\<close>

subsection \<open>Internal keys\<close>

definition kTypeDeletion :: byte where "kTypeDeletion = 0"
definition kTypeValue :: byte where "kTypeValue = 1"
definition kTrailerSize :: nat where "kTrailerSize = 8"

definition PackInternalTrailer :: "u64 \<Rightarrow> byte \<Rightarrow> u64" where
  "PackInternalTrailer seq type = NOT (push_bit 8 seq OR ucast type)"

definition UnpackInternalSeq :: "u64 \<Rightarrow> u64" where
  "UnpackInternalSeq trailer = drop_bit 8 (NOT trailer)"

definition UnpackInternalType :: "u64 \<Rightarrow> byte" where
  "UnpackInternalType trailer = ucast (NOT trailer AND 0xFF)"

text \<open>\<open>for (int i = 7; i >= 0; --i)\<close>: the argument counts the iterations left.\<close>

fun EncodeFixed64BE_loop :: "nat \<Rightarrow> bytes \<Rightarrow> u64 \<Rightarrow> bytes" where
  "EncodeFixed64BE_loop 0 dst value = dst"
| "EncodeFixed64BE_loop (Suc i) dst value =
     EncodeFixed64BE_loop i (dst[i := ucast (value AND 0xFF)]) (drop_bit 8 value)"

definition EncodeFixed64BE :: "bytes \<Rightarrow> u64 \<Rightarrow> bytes" where
  "EncodeFixed64BE dst value = EncodeFixed64BE_loop 8 dst value"

definition DecodeFixed64BE :: "bytes \<Rightarrow> nat \<Rightarrow> u64" where
  "DecodeFixed64BE src p =
     foldl (\<lambda>value c. push_bit 8 value OR ucast c) 0 (take 8 (drop p src))"

definition MakeInternalKey :: "bytes \<Rightarrow> u64 \<Rightarrow> byte \<Rightarrow> bytes" where
  "MakeInternalKey user_key seq type =
     user_key @ EncodeFixed64BE (replicate kTrailerSize 0) (PackInternalTrailer seq type)"

definition ExtractUserKey :: "bytes \<Rightarrow> bytes" where
  "ExtractUserKey internal_key =
     (if length internal_key < kTrailerSize then internal_key
      else take (length internal_key - kTrailerSize) internal_key)"

definition ExtractSeq :: "bytes \<Rightarrow> u64" where
  "ExtractSeq internal_key =
     (if length internal_key < kTrailerSize then 0
      else UnpackInternalSeq (DecodeFixed64BE internal_key (length internal_key - kTrailerSize)))"

definition ExtractType :: "bytes \<Rightarrow> byte" where
  "ExtractType internal_key =
     (if length internal_key < kTrailerSize then kTypeValue
      else UnpackInternalType (DecodeFixed64BE internal_key (length internal_key - kTrailerSize)))"

definition SeekInternalKey :: "bytes \<Rightarrow> bytes" where
  "SeekInternalKey user_key = MakeInternalKey user_key (drop_bit 8 (- 1)) 0xFF"

definition CompareInternalKeys :: "bytes \<Rightarrow> bytes \<Rightarrow> int" where
  "CompareInternalKeys a b =
     (let ua = (if length a \<ge> kTrailerSize then length a - kTrailerSize else 0);
          ub = (if length b \<ge> kTrailerSize then length b - kTrailerSize else 0);
          n = (if ua < ub then ua else ub);
          r = (if n \<noteq> 0 then memcmp a b n else 0)
      in if r \<noteq> 0 then (if r < 0 then -1 else 1)
         else if ua \<noteq> ub then (if ua < ub then -1 else 1)
         else if ua = 0 then 0
         else let ta = DecodeFixed64BE a ua;
                  tb = DecodeFixed64BE b ub
              in if ta \<noteq> tb then (if ta < tb then -1 else 1) else 0)"

subsection \<open>Fixed-width integers\<close>

definition EncodeFixed32 :: "u32 \<Rightarrow> bytes" where "EncodeFixed32 value = le_bytes 4 value"
definition EncodeFixed64 :: "u64 \<Rightarrow> bytes" where "EncodeFixed64 value = le_bytes 8 value"

definition DecodeFixed32 :: "bytes \<Rightarrow> nat \<Rightarrow> u32" where
  "DecodeFixed32 src p = le_val (take 4 (drop p src))"

definition DecodeFixed64 :: "bytes \<Rightarrow> nat \<Rightarrow> u64" where
  "DecodeFixed64 src p = le_val (take 8 (drop p src))"

definition PutFixed32 :: "bytes \<Rightarrow> u32 \<Rightarrow> bytes" where
  "PutFixed32 dst value = dst @ EncodeFixed32 value"

definition PutFixed64 :: "bytes \<Rightarrow> u64 \<Rightarrow> bytes" where
  "PutFixed64 dst value = dst @ EncodeFixed64 value"

subsection \<open>Variable-length integers\<close>

lemma varint32_decreases: "(0x80 :: u32) \<le> v \<Longrightarrow> unat (drop_bit 7 v) < unat v"
  by (simp only: word_le_nat_alt unat_drop_bit_eq) (simp add: drop_bit_eq_div)

lemma varint64_decreases: "(0x80 :: u64) \<le> v \<Longrightarrow> unat (drop_bit 7 v) < unat v"
  by (simp only: word_le_nat_alt unat_drop_bit_eq) (simp add: drop_bit_eq_div)

function PutVarint32 :: "bytes \<Rightarrow> u32 \<Rightarrow> bytes" where
  "PutVarint32 dst value =
     (if 0x80 \<le> value
      then PutVarint32 (dst @ [ucast ((value AND 0x7F) OR 0x80)]) (drop_bit 7 value)
      else dst @ [ucast value])"
  by pat_completeness auto
termination
  by (relation "measure (\<lambda>(dst, value). unat value)") (auto simp: varint32_decreases)

function VarintLength :: "u32 \<Rightarrow> nat" where
  "VarintLength v = (if 0x80 \<le> v then Suc (VarintLength (drop_bit 7 v)) else 1)"
  by pat_completeness auto
termination
  by (relation "measure unat") (auto simp: varint32_decreases)

text \<open>\<open>EncodeVarint32\<close> writes the same bytes through a pointer and returns the pointer
  behind them; here it returns the bytes written.\<close>

function EncodeVarint32 :: "u32 \<Rightarrow> bytes" where
  "EncodeVarint32 v =
     (if 0x80 \<le> v then ucast ((v AND 0x7F) OR 0x80) # EncodeVarint32 (drop_bit 7 v)
      else [ucast v])"
  by pat_completeness auto
termination
  by (relation "measure unat") (auto simp: varint32_decreases)

fun GetVarint32_loop :: "nat \<Rightarrow> bytes \<Rightarrow> nat \<Rightarrow> nat \<Rightarrow> u32 \<Rightarrow> nat \<Rightarrow> (u32 \<times> nat) option" where
  "GetVarint32_loop 0 buf p limit result shift = None"
| "GetVarint32_loop (Suc k) buf p limit result shift =
     (if limit \<le> p then None
      else let byte = ucast (buf ! p) :: u32
           in if byte AND 0x80 \<noteq> 0
              then GetVarint32_loop k buf (Suc p) limit
                     (result OR push_bit shift (byte AND 0x7F)) (shift + 7)
              else Some (result OR push_bit shift byte, Suc p))"

text \<open>\<open>for (int shift = 0; shift <= 28; shift += 7)\<close> runs at most 5 times.\<close>

definition GetVarint32 :: "bytes \<Rightarrow> nat \<Rightarrow> nat \<Rightarrow> (u32 \<times> nat) option" where
  "GetVarint32 buf p limit = GetVarint32_loop 5 buf p limit 0 0"

function PutVarint64 :: "bytes \<Rightarrow> u64 \<Rightarrow> bytes" where
  "PutVarint64 dst value =
     (if 0x80 \<le> value
      then PutVarint64 (dst @ [ucast ((value AND 0x7F) OR 0x80)]) (drop_bit 7 value)
      else dst @ [ucast value])"
  by pat_completeness auto
termination
  by (relation "measure (\<lambda>(dst, value). unat value)") (auto simp: varint64_decreases)

fun GetVarint64_loop :: "nat \<Rightarrow> bytes \<Rightarrow> nat \<Rightarrow> nat \<Rightarrow> u64 \<Rightarrow> nat \<Rightarrow> (u64 \<times> nat) option" where
  "GetVarint64_loop 0 buf p limit result shift = None"
| "GetVarint64_loop (Suc k) buf p limit result shift =
     (if limit \<le> p then None
      else let byte = ucast (buf ! p) :: u64
           in if byte AND 0x80 \<noteq> 0
              then GetVarint64_loop k buf (Suc p) limit
                     (result OR push_bit shift (byte AND 0x7F)) (shift + 7)
              else Some (result OR push_bit shift byte, Suc p))"

text \<open>\<open>for (int shift = 0; shift <= 63; shift += 7)\<close> runs at most 10 times.\<close>

definition GetVarint64 :: "bytes \<Rightarrow> nat \<Rightarrow> nat \<Rightarrow> (u64 \<times> nat) option" where
  "GetVarint64 buf p limit = GetVarint64_loop 10 buf p limit 0 0"

definition PutLengthPrefixedSlice :: "bytes \<Rightarrow> bytes \<Rightarrow> bytes" where
  "PutLengthPrefixedSlice dst s = PutVarint32 dst (word_of_nat (length s)) @ s"

definition GetLengthPrefixedSlice :: "bytes \<Rightarrow> nat \<Rightarrow> nat \<Rightarrow> (bytes \<times> nat) option" where
  "GetLengthPrefixedSlice buf p limit =
     (case GetVarint32 buf p limit of
        None \<Rightarrow> None
      | Some (len, p) \<Rightarrow>
          if limit < p + unat len then None
          else Some (take (unat len) (drop p buf), p + unat len))"

declare PutVarint32.simps [simp del] PutVarint64.simps [simp del]
  VarintLength.simps [simp del] EncodeVarint32.simps [simp del]

subsection \<open>Round trips of the integer encodings\<close>

lemma and_7F_eq_take_bit: "v AND 0x7F = take_bit 7 v" for v :: "'a::len word"
  by (simp add: take_bit_eq_mask mask_eq_exp_minus_1)

lemma bit_128: "bit (0x80 :: 'a::len word) n \<longleftrightarrow> n = 7 \<and> 7 < LENGTH('a)"
  using bit_exp_iff [where 'a = "'a word", of 7 n] by (auto simp: possible_bit_def)

lemma bit_128_int: "bit (0x80 :: int) n \<longleftrightarrow> n = 7"
  using bit_exp_iff [where 'a = int, of 7 n] by auto

lemmas varint_bits = bit_simps bit_128 bit_128_int and_7F_eq_take_bit

text \<open>What a continuation byte and a final byte decode to, and that the two parts of a value
  recombine: the facts behind one iteration of the decoding loops.\<close>

lemma varint_continuation_byte:
  fixes v :: "'a::len word"
  assumes "8 \<le> LENGTH('a)"
  shows "(ucast (ucast ((v AND 0x7F) OR 0x80) :: byte) :: 'a word) AND 0x80 \<noteq> 0"
    and "(ucast (ucast ((v AND 0x7F) OR 0x80) :: byte) :: 'a word) AND 0x7F = take_bit 7 v"
proof -
  have "bit ((ucast (ucast ((v AND 0x7F) OR 0x80) :: byte) :: 'a word) AND 0x80) 7"
    using assms by (simp add: varint_bits)
  then show "(ucast (ucast ((v AND 0x7F) OR 0x80) :: byte) :: 'a word) AND 0x80 \<noteq> 0"
    by auto
  show "(ucast (ucast ((v AND 0x7F) OR 0x80) :: byte) :: 'a word) AND 0x7F = take_bit 7 v"
    by (rule bit_word_eqI) (auto simp: varint_bits)
qed

lemma varint_final_byte:
  fixes v :: "'a::len word"
  assumes "8 \<le> LENGTH('a)" and "\<not> 0x80 \<le> v"
  shows "(ucast (ucast v :: byte) :: 'a word) = v" and "v AND 0x80 = 0"
proof -
  have "(2 :: nat) ^ 8 \<le> 2 ^ LENGTH('a)" using assms(1) by (rule power_increasing) simp
  then have "unat (0x80 :: 'a word) = 128" by (simp add: unsigned_numeral take_bit_eq_mod)
  with assms(2) have "unat v < 2 ^ 7" by (simp add: word_le_nat_alt)
  then have "unat (take_bit 7 v) = unat v"
    by (simp only: unsigned_take_bit_eq) (simp add: take_bit_eq_mod)
  then have v: "take_bit 7 v = v" by (rule unsigned_word_eqI)
  have bits: "\<not> bit v n" if "7 \<le> n" for n
    using that v by (metis bit_take_bit_iff linorder_not_le)
  have "n < 8" if "bit v n" for n using bits [of n] that by (cases "n < 8") auto
  then show "(ucast (ucast v :: byte) :: 'a word) = v"
    by (intro bit_word_eqI) (auto simp: bit_simps)
  show "v AND 0x80 = 0"
    using bits by (intro bit_word_eqI) (auto simp: varint_bits)
qed

lemma varint_recombine:
  "push_bit s (take_bit 7 v) OR push_bit (s + 7) (drop_bit 7 v) = push_bit s (v :: 'a::len word)"
proof (rule bit_word_eqI)
  fix n assume "n < LENGTH('a)"
  have "n - s < 7 \<or> 7 + (n - (s + 7)) = n - s \<and> s + 7 \<le> n \<or> n < s" by arith
  then show "bit (push_bit s (take_bit 7 v) OR push_bit (s + 7) (drop_bit 7 v)) n = bit (push_bit s v) n"
    by (auto simp: bit_simps)
qed

lemma PutVarint32_eq: "PutVarint32 dst v = dst @ EncodeVarint32 v"
proof (induction dst v rule: PutVarint32.induct)
  case (1 dst v)
  then show ?case
    by (subst PutVarint32.simps, subst EncodeVarint32.simps) auto
qed

lemma length_EncodeVarint32 [simp, length_simps]: "length (EncodeVarint32 v) = VarintLength v"
proof (induction v rule: EncodeVarint32.induct)
  case (1 v)
  then show ?case
    by (subst VarintLength.simps, subst EncodeVarint32.simps) auto
qed

lemma VarintLength_pos [simp]: "0 < VarintLength v"
  by (subst VarintLength.simps) simp

lemma EncodeVarint32_not_Nil [simp]: "EncodeVarint32 v \<noteq> []"
  by (subst EncodeVarint32.simps) simp

lemma VarintLength_le: "unat v < 2 ^ (7 * Suc n) \<Longrightarrow> VarintLength v \<le> Suc n"
proof (induction n arbitrary: v)
  case 0
  then have "\<not> 0x80 \<le> v" by (simp add: word_le_nat_alt)
  then show ?case by (subst VarintLength.simps) simp
next
  case (Suc n)
  from Suc.prems have "unat (drop_bit 7 v) < 2 ^ (7 * Suc n)"
    by (simp only: unat_drop_bit_eq) (simp add: drop_bit_eq_div power_add less_mult_imp_div_less mult.commute)
  then have "VarintLength (drop_bit 7 v) \<le> Suc n" by (rule Suc.IH)
  then show ?case by (subst VarintLength.simps) simp
qed

lemma VarintLength_le_5: "VarintLength v \<le> 5"
proof -
  have "unat v < 2 ^ (7 * Suc 4)" using unat_u32_less [of v] by simp
  from VarintLength_le [OF this] show ?thesis by simp
qed

lemma GetVarint32_loop_at:
  assumes "holds_at buf p (EncodeVarint32 v)" and "p + VarintLength v \<le> limit"
    and "VarintLength v \<le> k"
  shows "GetVarint32_loop k buf p limit r s = Some (r OR push_bit s v, p + VarintLength v)"
  using assms
proof (induction v arbitrary: p k r s rule: EncodeVarint32.induct)
  case (1 v)
  obtain k' where k: "k = Suc k'"
    using "1.prems"(3) VarintLength_pos [of v] by (cases k) auto
  show ?case
  proof (cases "0x80 \<le> v")
    case True
    then have at: "buf ! p = ucast ((v AND 0x7F) OR 0x80)"
        "holds_at buf (Suc p) (EncodeVarint32 (drop_bit 7 v))"
      and len: "VarintLength v = Suc (VarintLength (drop_bit 7 v))"
      using "1.prems"(1)
      by (simp_all add: EncodeVarint32.simps [of v] VarintLength.simps [of v] holds_at_Cons)
    then have "GetVarint32_loop k' buf (Suc p) limit (r OR push_bit s (take_bit 7 v)) (s + 7) =
        Some ((r OR push_bit s (take_bit 7 v)) OR push_bit (s + 7) (drop_bit 7 v),
              Suc p + VarintLength (drop_bit 7 v))"
      using "1.prems"(2,3) True k by (intro "1.IH") auto
    then show ?thesis
      using True k at(1) len "1.prems"(2) varint_continuation_byte [of v]
      by (simp add: Let_def varint_recombine or.assoc)
  next
    case False
    then have "buf ! p = ucast v" and len: "VarintLength v = 1"
      using "1.prems"(1)
      by (simp_all add: EncodeVarint32.simps [of v] VarintLength.simps [of v] holds_at_Cons)
    then show ?thesis
      using False k "1.prems"(2) varint_final_byte [of v] by (simp add: Let_def)
  qed
qed

lemma GetVarint32_at [decode_at]:
  "holds_at buf p (EncodeVarint32 v) \<Longrightarrow> p + VarintLength v \<le> limit \<Longrightarrow>
   GetVarint32 buf p limit = Some (v, p + VarintLength v)"
  by (simp add: GetVarint32_def GetVarint32_loop_at VarintLength_le_5)

subsubsection \<open>The 64-bit encoding\<close>

definition varint64 :: "u64 \<Rightarrow> bytes" where
  "varint64 v = PutVarint64 [] v"

lemma PutVarint64_append: "PutVarint64 (pre @ dst) v = pre @ PutVarint64 dst v"
proof (induction dst v arbitrary: pre rule: PutVarint64.induct)
  case (1 dst v)
  then show ?case
    by (subst PutVarint64.simps, subst (2) PutVarint64.simps) auto
qed

lemma PutVarint64_eq: "PutVarint64 dst v = dst @ varint64 v"
  using PutVarint64_append [of dst "[]" v] by (simp add: varint64_def)

lemma varint64_step:
  "varint64 v = (if 0x80 \<le> v then ucast ((v AND 0x7F) OR 0x80) # varint64 (drop_bit 7 v)
                 else [ucast v])"
  unfolding varint64_def
  by (subst PutVarint64.simps) (simp add: PutVarint64_append [of "[_]" "[]", simplified])

lemma varint64_induct [case_names step]:
  assumes "\<And>v. (0x80 \<le> v \<Longrightarrow> P (drop_bit 7 v)) \<Longrightarrow> P v"
  shows "P (v :: u64)"
proof (induction "unat v" arbitrary: v rule: less_induct)
  case less
  show ?case by (rule assms, rule less, rule varint64_decreases)
qed

lemma length_varint64_le: "unat v < 2 ^ (7 * Suc n) \<Longrightarrow> length (varint64 v) \<le> Suc n"
proof (induction n arbitrary: v)
  case 0
  then have "\<not> 0x80 \<le> v" by (simp add: word_le_nat_alt)
  then show ?case by (subst varint64_step) simp
next
  case (Suc n)
  from Suc.prems have "unat (drop_bit 7 v) < 2 ^ (7 * Suc n)"
    by (simp only: unat_drop_bit_eq) (simp add: drop_bit_eq_div power_add less_mult_imp_div_less mult.commute)
  then have "length (varint64 (drop_bit 7 v)) \<le> Suc n" by (rule Suc.IH)
  then show ?case by (subst varint64_step) simp
qed

lemma length_varint64_le_10: "length (varint64 v) \<le> 10"
proof -
  have "unat v < 2 ^ (7 * Suc 9)" using unat_u64_less [of v] by simp
  from length_varint64_le [OF this] show ?thesis by simp
qed

lemma varint64_not_Nil [simp]: "varint64 v \<noteq> []"
  by (subst varint64_step) simp

lemma GetVarint64_loop_at:
  assumes "holds_at buf p (varint64 v)" and "p + length (varint64 v) \<le> limit"
    and "length (varint64 v) \<le> k"
  shows "GetVarint64_loop k buf p limit r s = Some (r OR push_bit s v, p + length (varint64 v))"
  using assms
proof (induction v arbitrary: p k r s rule: varint64_induct)
  case (step v)
  obtain k' where k: "k = Suc k'"
    using step.prems(3) by (cases k) auto
  show ?case
  proof (cases "0x80 \<le> v")
    case True
    then have at: "buf ! p = ucast ((v AND 0x7F) OR 0x80)"
        "holds_at buf (Suc p) (varint64 (drop_bit 7 v))"
      and len: "length (varint64 v) = Suc (length (varint64 (drop_bit 7 v)))"
      using step.prems(1) by (simp_all add: varint64_step [of v] holds_at_Cons)
    then have "GetVarint64_loop k' buf (Suc p) limit (r OR push_bit s (take_bit 7 v)) (s + 7) =
        Some ((r OR push_bit s (take_bit 7 v)) OR push_bit (s + 7) (drop_bit 7 v),
              Suc p + length (varint64 (drop_bit 7 v)))"
      using step.prems(2,3) True k by (intro step.IH) auto
    then show ?thesis
      using True k at(1) len step.prems(2) varint_continuation_byte [of v]
      by (simp add: Let_def varint_recombine or.assoc)
  next
    case False
    then have "buf ! p = ucast v" and len: "length (varint64 v) = 1"
      using step.prems(1) by (simp_all add: varint64_step [of v] holds_at_Cons)
    then show ?thesis
      using False k step.prems(2) varint_final_byte [of v] by (simp add: Let_def)
  qed
qed

lemma GetVarint64_at [decode_at]:
  "holds_at buf p (varint64 v) \<Longrightarrow> p + length (varint64 v) \<le> limit \<Longrightarrow>
   GetVarint64 buf p limit = Some (v, p + length (varint64 v))"
  by (simp add: GetVarint64_def GetVarint64_loop_at length_varint64_le_10)

subsubsection \<open>Fixed width and length-prefixed slices\<close>

lemma length_EncodeFixed [simp, length_simps]:
  "length (EncodeFixed32 v) = 4" "length (EncodeFixed64 w) = 8"
  by (simp_all add: EncodeFixed32_def EncodeFixed64_def)

lemma DecodeFixed32_at [decode_at]: "holds_at buf p (EncodeFixed32 v) \<Longrightarrow> DecodeFixed32 buf p = v"
  using holds_at_slice [of buf p "EncodeFixed32 v"]
  by (simp add: DecodeFixed32_def EncodeFixed32_def)

lemma DecodeFixed64_at [decode_at]: "holds_at buf p (EncodeFixed64 v) \<Longrightarrow> DecodeFixed64 buf p = v"
  using holds_at_slice [of buf p "EncodeFixed64 v"]
  by (simp add: DecodeFixed64_def EncodeFixed64_def)

lemma unat_length_u32: "length xs < 2 ^ 32 \<Longrightarrow> unat (word_of_nat (length xs) :: u32) = length xs"
  by (simp add: unsigned_of_nat take_bit_nat_eq_self)

definition length_prefixed :: "bytes \<Rightarrow> bytes" where
  "length_prefixed s = EncodeVarint32 (word_of_nat (length s)) @ s"

lemma PutLengthPrefixedSlice_eq: "PutLengthPrefixedSlice dst s = dst @ length_prefixed s"
  by (simp add: PutLengthPrefixedSlice_def length_prefixed_def PutVarint32_eq)

lemma GetLengthPrefixedSlice_at [decode_at]:
  assumes "holds_at buf p (length_prefixed s)" and "p + length (length_prefixed s) \<le> limit"
    and "length s < 2 ^ 32"
  shows "GetLengthPrefixedSlice buf p limit = Some (s, p + length (length_prefixed s))"
proof -
  let ?n = "word_of_nat (length s) :: u32"
  from assms(1) have at: "holds_at buf p (EncodeVarint32 ?n)" "holds_at buf (p + VarintLength ?n) s"
    by (simp_all add: length_prefixed_def holds_at_append)
  moreover from assms(2) have "p + VarintLength ?n + length s \<le> limit"
    by (simp add: length_prefixed_def)
  ultimately show ?thesis
    using GetVarint32_at [OF at(1), of limit] holds_at_slice [OF at(2)] assms(3)
    by (simp add: GetLengthPrefixedSlice_def length_prefixed_def unat_length_u32 add.assoc)
qed

subsection \<open>Internal keys: round trip and order\<close>

lemma ucast_low_byte: "(ucast (v AND 0xFF) :: byte) = ucast (v :: 'a::len word)"
proof -
  have "v AND 0xFF = take_bit 8 v" by (simp add: take_bit_eq_mask mask_eq_exp_minus_1)
  then show ?thesis by (simp only:) (rule bit_word_eqI, auto simp: bit_simps)
qed

lemma EncodeFixed64BE_eq: "EncodeFixed64BE (replicate kTrailerSize 0) v = rev (le_bytes 8 v)"
  by (simp add: EncodeFixed64BE_def kTrailerSize_def eval_nat_numeral ucast_low_byte)

lemma DecodeFixed64BE_at [decode_at]:
  assumes "holds_at buf p (rev (le_bytes 8 v))"
  shows "DecodeFixed64BE buf p = v"
proof -
  have "foldl (\<lambda>value c. push_bit 8 value OR ucast c) 0 (rev bs) = (le_val bs :: u64)" for bs
    by (induction bs) (simp_all add: or.commute)
  then show ?thesis
    using holds_at_slice [OF assms] by (simp add: DecodeFixed64BE_def)
qed

lemma MakeInternalKey_eq:
  "MakeInternalKey k s t = k @ rev (le_bytes 8 (PackInternalTrailer s t))"
  by (simp add: MakeInternalKey_def EncodeFixed64BE_eq)

lemma length_MakeInternalKey [simp, length_simps]: "length (MakeInternalKey k s t) = length k + 8"
  by (simp add: MakeInternalKey_eq)

lemma DecodeFixed64BE_MakeInternalKey [simp]:
  "DecodeFixed64BE (MakeInternalKey k s t) (length k) = PackInternalTrailer s t"
  using holds_at_self [of k _ "[]"] by (intro DecodeFixed64BE_at) (simp add: MakeInternalKey_eq)

lemma UnpackInternalType_Pack [simp]: "UnpackInternalType (PackInternalTrailer s t) = t"
proof -
  have "UnpackInternalType (PackInternalTrailer s t) = ucast (push_bit 8 s OR ucast t)"
    by (simp add: UnpackInternalType_def PackInternalTrailer_def ucast_low_byte)
  also have "\<dots> = t" by (rule bit_word_eqI) (auto simp: bit_simps)
  finally show ?thesis .
qed

lemma UnpackInternalSeq_Pack: "UnpackInternalSeq (PackInternalTrailer s t) = take_bit 56 s"
proof -
  have "UnpackInternalSeq (PackInternalTrailer s t) = drop_bit 8 (push_bit 8 s OR ucast t)"
    by (simp add: UnpackInternalSeq_def PackInternalTrailer_def)
  also have "\<dots> = take_bit 56 s"
    by (rule bit_word_eqI) (auto simp: bit_simps not_less dest: bit_imp_le_length)
  finally show ?thesis .
qed

lemma take_bit_56: "unat s < 2 ^ 56 \<Longrightarrow> take_bit 56 s = (s :: u64)"
proof (rule unsigned_word_eqI)
  assume "unat s < 2 ^ 56"
  then show "unat (take_bit 56 s) = unat s"
    by (simp only: unsigned_take_bit_eq) (simp add: take_bit_eq_mod)
qed

lemma ExtractUserKey_Make [simp]: "ExtractUserKey (MakeInternalKey k s t) = k"
  by (simp add: ExtractUserKey_def kTrailerSize_def) (simp add: MakeInternalKey_eq)

lemma ExtractType_Make [simp]: "ExtractType (MakeInternalKey k s t) = t"
  by (simp add: ExtractType_def kTrailerSize_def)

lemma ExtractSeq_Make: "unat s < 2 ^ 56 \<Longrightarrow> ExtractSeq (MakeInternalKey k s t) = s"
  by (simp add: ExtractSeq_def kTrailerSize_def UnpackInternalSeq_Pack take_bit_56)

lemma unat_push_8_or: "unat s < 2 ^ 56 \<Longrightarrow>
  unat (push_bit 8 s OR ucast (t :: byte) :: u64) = 256 * unat s + unat t"
proof -
  assume s: "unat s < 2 ^ 56"
  have "push_bit 8 s OR ucast t = (push_bit 8 s + ucast t :: u64)"
    by (rule disjunctive_add [symmetric]) (auto simp: bit_simps dest: bit_imp_le_length)
  moreover have "unat (push_bit 8 s :: u64) = 256 * unat s"
    using s by (simp add: push_bit_eq_mult unat_mult_lem [THEN iffD1])
  moreover have "unat (ucast t :: u64) = unat t"
    using unat_byte_less [of t] by (simp add: unsigned_ucast_eq take_bit_nat_eq_self)
  ultimately show ?thesis
    using s unat_byte_less [of t] by (simp add: unat_word_ariths)
qed

lemma NOT_less_iff: "NOT (x :: 'a::len word) < NOT y \<longleftrightarrow> y < x"
  by (simp add: word_less_iff_unsigned [where 'a = int] unsigned_not_eq take_bit_not_eq_mask_diff
      flip: unsigned_take_bit_eq)

lemma PackInternalTrailer_less:
  assumes "unat s1 < 2 ^ 56" "unat s2 < 2 ^ 56"
  shows "PackInternalTrailer s1 t1 < PackInternalTrailer s2 t2 \<longleftrightarrow> s2 < s1 \<or> s1 = s2 \<and> t2 < t1"
proof -
  have "PackInternalTrailer s1 t1 < PackInternalTrailer s2 t2 \<longleftrightarrow>
      256 * unat s2 + unat t2 < 256 * unat s1 + unat t1"
    unfolding PackInternalTrailer_def NOT_less_iff
    using assms by (simp add: word_less_nat_alt unat_push_8_or)
  also have "\<dots> \<longleftrightarrow> unat s2 < unat s1 \<or> unat s1 = unat s2 \<and> unat t2 < unat t1"
    using unat_byte_less [of t1] unat_byte_less [of t2] by arith
  finally show ?thesis
    by (simp add: word_less_nat_alt word_eq_iff_unsigned [where 'a = nat])
qed

text \<open>
  \<open>CompareInternalKeys\<close> compares ranks: the user part first, then the trailer, which
  counts only behind a non-empty user part. It is a total preorder on all byte strings.
\<close>

definition ikey_user :: "bytes \<Rightarrow> bytes" where
  "ikey_user a = take (length a - 8) a"

definition ikey_trailer :: "bytes \<Rightarrow> u64" where
  "ikey_trailer a = (if length a \<le> 8 then 0 else DecodeFixed64BE a (length a - 8))"

lemma length_ikey_user: "length (ikey_user a) = length a - 8"
  by (simp add: ikey_user_def)

lemma CompareInternalKeys_rank:
  "CompareInternalKeys a b =
     (if ikey_user a < ikey_user b then -1 else if ikey_user b < ikey_user a then 1
      else if ikey_trailer a < ikey_trailer b then -1
      else if ikey_trailer b < ikey_trailer a then 1 else 0)"
proof -
  let ?ua = "length a - 8" and ?ub = "length b - 8"
  let ?n = "min ?ua ?ub"
  have cmp: "Slice_compare (ikey_user a) (ikey_user b) =
      (if memcmp a b ?n \<noteq> 0 then memcmp a b ?n else if ?ua < ?ub then -1 else if ?ub < ?ua then 1 else 0)"
  proof -
    have "memcmp (ikey_user a) (ikey_user b) ?n = memcmp a b ?n"
      by (simp add: ikey_user_def memcmp_take_le)
    then show ?thesis by (simp add: Slice_compare_def Let_def length_ikey_user)
  qed
  have len: "ikey_user a = ikey_user b \<Longrightarrow> ?ua = ?ub"
    by (drule arg_cong [of _ _ length]) (simp add: length_ikey_user)
  have n: "(if ?ua < ?ub then ?ua else ?ub) = ?n" by simp
  have r: "(if ?n \<noteq> 0 then memcmp a b ?n else 0) = memcmp a b ?n"
    by (metis memcmp_zero)
  have u: "(if kTrailerSize \<le> length c then length c - kTrailerSize else 0) = length c - 8" for c :: bytes
    by (simp add: kTrailerSize_def)
  have C: "CompareInternalKeys a b = (if Slice_compare (ikey_user a) (ikey_user b) \<noteq> 0
      then Slice_compare (ikey_user a) (ikey_user b)
      else if ?ua = 0 then 0
      else if DecodeFixed64BE a ?ua \<noteq> DecodeFixed64BE b ?ub
           then (if DecodeFixed64BE a ?ua < DecodeFixed64BE b ?ub then -1 else 1) else 0)"
    unfolding CompareInternalKeys_def Let_def u n r cmp
    using memcmp_cases [of a b ?n] by (elim disjE) (simp_all, linarith)
  show ?thesis
  proof (cases "ikey_user a = ikey_user b")
    case True
    with len have l: "?ua = ?ub" by blast
    have "?ua = 0 \<Longrightarrow> ikey_trailer a = 0 \<and> ikey_trailer b = 0"
      using l by (simp add: ikey_trailer_def)
    moreover have "?ua \<noteq> 0 \<Longrightarrow> ikey_trailer a = DecodeFixed64BE a ?ua \<and> ikey_trailer b = DecodeFixed64BE b ?ub"
      using l unfolding ikey_trailer_def by auto
    ultimately show ?thesis
      unfolding C using True by (cases "?ua = 0") (auto simp: Slice_compare_eq)
  next
    case False
    then show ?thesis unfolding C by (simp add: Slice_compare_eq)
  qed
qed

lemma CompareInternalKeys_trans:
  "CompareInternalKeys a b < 0 \<Longrightarrow> CompareInternalKeys b c < 0 \<Longrightarrow> CompareInternalKeys a c < 0"
  by (auto simp: CompareInternalKeys_rank split: if_splits)

lemma CompareInternalKeys_antisym: "CompareInternalKeys b a = - CompareInternalKeys a b"
  by (auto simp: CompareInternalKeys_rank)

lemma CompareInternalKeys_less_le_trans:
  "CompareInternalKeys a b < 0 \<Longrightarrow> CompareInternalKeys b c \<le> 0 \<Longrightarrow> CompareInternalKeys a c < 0"
  by (auto simp: CompareInternalKeys_rank split: if_splits)

lemma ikey_user_Make [simp]: "ikey_user (MakeInternalKey k s t) = k"
  by (simp add: ikey_user_def) (simp add: MakeInternalKey_eq)

lemma ikey_trailer_Make [simp]:
  "ikey_trailer (MakeInternalKey k s t) = (if k = [] then 0 else PackInternalTrailer s t)"
  by (simp add: ikey_trailer_def)

definition newer_first :: "bytes \<times> u64 \<times> byte \<Rightarrow> bytes \<times> u64 \<times> byte \<Rightarrow> bool" where
  "newer_first = (\<lambda>(k1, s1, t1) (k2, s2, t2).
     k1 < k2 \<or> k1 = k2 \<and> (s2 < s1 \<or> s1 = s2 \<and> t2 < t1))"



text \<open>An internal key can be taken apart again: the user key and the type come back
  unchanged for every input, the sequence number for every value below 2^56 (the trailer
  keeps its low 56 bits), and the seek key of a user key sorts at or before each of its
  versions.\<close>

theorem internal_key_roundtrip:
  "ExtractUserKey (MakeInternalKey k s t) = k \<and> ExtractType (MakeInternalKey k s t) = t
   \<and> ExtractSeq (MakeInternalKey k s t) = take_bit 56 s
   \<and> CompareInternalKeys (SeekInternalKey k) (MakeInternalKey k s t) \<le> 0"
proof -
  have "push_bit 8 (drop_bit 8 (- 1)) OR ucast (0xFF :: byte) = (- 1 :: u64)"
    by code_simp
  then have "PackInternalTrailer (drop_bit 8 (- 1)) 0xFF = 0"
    by (simp only: PackInternalTrailer_def) simp
  then show ?thesis
    by (auto simp: SeekInternalKey_def CompareInternalKeys_rank ExtractSeq_def kTrailerSize_def
        UnpackInternalSeq_Pack)
qed

text \<open>All versions of the empty user key compare equal, whatever their sequence numbers:
  for the empty key \<open>CompareInternalKeys\<close> stops before it looks at the trailer, so the
  order "newest version first" does not hold for that key.\<close>

theorem CompareInternalKeys_empty_user_key:
  "CompareInternalKeys (MakeInternalKey [] s1 t1) (MakeInternalKey [] s2 t2) = 0"
  by (simp add: CompareInternalKeys_rank)

text \<open>C32: Variable-length integers round-trip: what \<open>PutVarint32\<close> (\<open>PutVarint64\<close>)
  appends at the end of a buffer, \<open>GetVarint32\<close> (\<open>GetVarint64\<close>) reads back from that
  position, whatever follows, and the cursor moves to the byte behind the encoding; a 32-bit
  value takes 1 to 5 bytes, as \<open>VarintLength\<close> computes, and a 64-bit value 1 to 10.\<close>

theorem varint_roundtrip:
  "GetVarint32 (PutVarint32 dst v @ rest) (length dst) (length (PutVarint32 dst v @ rest))
     = Some (v, length dst + VarintLength v)
   \<and> GetVarint64 (PutVarint64 dst w @ rest) (length dst) (length (PutVarint64 dst w @ rest))
     = Some (w, length (PutVarint64 dst w))
   \<and> length (PutVarint32 dst v) = length dst + VarintLength v
   \<and> 1 \<le> VarintLength v \<and> VarintLength v \<le> 5
   \<and> length (PutVarint64 dst w) \<in> {length dst + 1 .. length dst + 10}"
proof -
  have "Suc 0 \<le> length (varint64 w)" by (cases "varint64 w") auto
  then show ?thesis
    using VarintLength_pos [of v] VarintLength_le_5 [of v] length_varint64_le_10 [of w]
    by (simp add: PutVarint32_eq PutVarint64_eq GetVarint32_at GetVarint64_at Suc_le_eq del: VarintLength_pos)
qed

end
