(* ===== verification/Lkv_Crc.thy ===== *)
theory Lkv_Crc
  imports Lkv_Encoding
begin

section \<open>CRC-32C (include/lightkv/encoding.h)\<close>

text \<open>
  The table-driven checksum that guards WAL records and table blocks. The table is compared
  with its definition by the reflected Castagnoli polynomial, and the checksum is shown to
  detect every corruption of a single byte.
\<close>

definition kCrc32cTable :: "u32 list" where
  "kCrc32cTable =
  [0x00000000, 0xF26B8303, 0xE13B70F7, 0x1350F3F4, 0xC79A971F, 0x35F1141C,
   0x26A1E7E8, 0xD4CA64EB, 0x8AD958CF, 0x78B2DBCC, 0x6BE22838, 0x9989AB3B,
   0x4D43CFD0, 0xBF284CD3, 0xAC78BF27, 0x5E133C24, 0x105EC76F, 0xE235446C,
   0xF165B798, 0x030E349B, 0xD7C45070, 0x25AFD373, 0x36FF2087, 0xC494A384,
   0x9A879FA0, 0x68EC1CA3, 0x7BBCEF57, 0x89D76C54, 0x5D1D08BF, 0xAF768BBC,
   0xBC267848, 0x4E4DFB4B, 0x20BD8EDE, 0xD2D60DDD, 0xC186FE29, 0x33ED7D2A,
   0xE72719C1, 0x154C9AC2, 0x061C6936, 0xF477EA35, 0xAA64D611, 0x580F5512,
   0x4B5FA6E6, 0xB93425E5, 0x6DFE410E, 0x9F95C20D, 0x8CC531F9, 0x7EAEB2FA,
   0x30E349B1, 0xC288CAB2, 0xD1D83946, 0x23B3BA45, 0xF779DEAE, 0x05125DAD,
   0x1642AE59, 0xE4292D5A, 0xBA3A117E, 0x4851927D, 0x5B016189, 0xA96AE28A,
   0x7DA08661, 0x8FCB0562, 0x9C9BF696, 0x6EF07595, 0x417B1DBC, 0xB3109EBF,
   0xA0406D4B, 0x522BEE48, 0x86E18AA3, 0x748A09A0, 0x67DAFA54, 0x95B17957,
   0xCBA24573, 0x39C9C670, 0x2A993584, 0xD8F2B687, 0x0C38D26C, 0xFE53516F,
   0xED03A29B, 0x1F682198, 0x5125DAD3, 0xA34E59D0, 0xB01EAA24, 0x42752927,
   0x96BF4DCC, 0x64D4CECF, 0x77843D3B, 0x85EFBE38, 0xDBFC821C, 0x2997011F,
   0x3AC7F2EB, 0xC8AC71E8, 0x1C661503, 0xEE0D9600, 0xFD5D65F4, 0x0F36E6F7,
   0x61C69362, 0x93AD1061, 0x80FDE395, 0x72966096, 0xA65C047D, 0x5437877E,
   0x4767748A, 0xB50CF789, 0xEB1FCBAD, 0x197448AE, 0x0A24BB5A, 0xF84F3859,
   0x2C855CB2, 0xDEEEDFB1, 0xCDBE2C45, 0x3FD5AF46, 0x7198540D, 0x83F3D70E,
   0x90A324FA, 0x62C8A7F9, 0xB602C312, 0x44694011, 0x5739B3E5, 0xA55230E6,
   0xFB410CC2, 0x092A8FC1, 0x1A7A7C35, 0xE811FF36, 0x3CDB9BDD, 0xCEB018DE,
   0xDDE0EB2A, 0x2F8B6829, 0x82F63B78, 0x709DB87B, 0x63CD4B8F, 0x91A6C88C,
   0x456CAC67, 0xB7072F64, 0xA457DC90, 0x563C5F93, 0x082F63B7, 0xFA44E0B4,
   0xE9141340, 0x1B7F9043, 0xCFB5F4A8, 0x3DDE77AB, 0x2E8E845F, 0xDCE5075C,
   0x92A8FC17, 0x60C37F14, 0x73938CE0, 0x81F80FE3, 0x55326B08, 0xA759E80B,
   0xB4091BFF, 0x466298FC, 0x1871A4D8, 0xEA1A27DB, 0xF94AD42F, 0x0B21572C,
   0xDFEB33C7, 0x2D80B0C4, 0x3ED04330, 0xCCBBC033, 0xA24BB5A6, 0x502036A5,
   0x4370C551, 0xB11B4652, 0x65D122B9, 0x97BAA1BA, 0x84EA524E, 0x7681D14D,
   0x2892ED69, 0xDAF96E6A, 0xC9A99D9E, 0x3BC21E9D, 0xEF087A76, 0x1D63F975,
   0x0E330A81, 0xFC588982, 0xB21572C9, 0x407EF1CA, 0x532E023E, 0xA145813D,
   0x758FE5D6, 0x87E466D5, 0x94B49521, 0x66DF1622, 0x38CC2A06, 0xCAA7A905,
   0xD9F75AF1, 0x2B9CD9F2, 0xFF56BD19, 0x0D3D3E1A, 0x1E6DCDEE, 0xEC064EED,
   0xC38D26C4, 0x31E6A5C7, 0x22B65633, 0xD0DDD530, 0x0417B1DB, 0xF67C32D8,
   0xE52CC12C, 0x1747422F, 0x49547E0B, 0xBB3FFD08, 0xA86F0EFC, 0x5A048DFF,
   0x8ECEE914, 0x7CA56A17, 0x6FF599E3, 0x9D9E1AE0, 0xD3D3E1AB, 0x21B862A8,
   0x32E8915C, 0xC083125F, 0x144976B4, 0xE622F5B7, 0xF5720643, 0x07198540,
   0x590AB964, 0xAB613A67, 0xB831C993, 0x4A5A4A90, 0x9E902E7B, 0x6CFBAD78,
   0x7FAB5E8C, 0x8DC0DD8F, 0xE330A81A, 0x115B2B19, 0x020BD8ED, 0xF0605BEE,
   0x24AA3F05, 0xD6C1BC06, 0xC5914FF2, 0x37FACCF1, 0x69E9F0D5, 0x9B8273D6,
   0x88D28022, 0x7AB90321, 0xAE7367CA, 0x5C18E4C9, 0x4F48173D, 0xBD23943E,
   0xF36E6F75, 0x0105EC76, 0x12551F82, 0xE03E9C81, 0x34F4F86A, 0xC69F7B69,
   0xD5CF889D, 0x27A40B9E, 0x79B737BA, 0x8BDCB4B9, 0x988C474D, 0x6AE7C44E,
   0xBE2DA0A5, 0x4C4623A6, 0x5F16D052, 0xAD7D5351]"

definition Crc32c_step :: "u32 \<Rightarrow> byte \<Rightarrow> u32" where
  "Crc32c_step crc c = kCrc32cTable ! unat ((crc XOR ucast c) AND 0xFF) XOR drop_bit 8 crc"

definition Crc32cExtend :: "u32 \<Rightarrow> bytes \<Rightarrow> u32" where
  "Crc32cExtend crc data = foldl Crc32c_step (crc XOR 0xFFFFFFFF) data XOR 0xFFFFFFFF"

definition Crc32c :: "bytes \<Rightarrow> u32" where
  "Crc32c data = Crc32cExtend 0 data"

subsection \<open>The table\<close>

text \<open>One step of the bitwise algorithm: shift right, and add the reflected polynomial
  when the bit shifted out is set.\<close>

definition crc_bit_step :: "u32 \<Rightarrow> u32" where
  "crc_bit_step r = (if bit r 0 then drop_bit 1 r XOR 0x82F63B78 else drop_bit 1 r)"

definition crc_table_entry :: "nat \<Rightarrow> u32" where
  "crc_table_entry i = (crc_bit_step ^^ 8) (word_of_nat i)"

text \<open>The same step on integers, where the table evaluates quickly.\<close>

definition crc_int_step :: "int \<Rightarrow> int" where
  "crc_int_step r = (if odd r then (r div 2) XOR 0x82F63B78 else r div 2)"

definition crc_int_entry :: "int \<Rightarrow> int" where
  "crc_int_entry r = crc_int_step (crc_int_step (crc_int_step (crc_int_step
     (crc_int_step (crc_int_step (crc_int_step (crc_int_step r)))))))"

lemma crc_int_entry_funpow: "crc_int_entry r = (crc_int_step ^^ 8) r"
  by (simp add: crc_int_entry_def numeral_eq_Suc)

lemma crc_int_step_range: "0 \<le> r \<Longrightarrow> r < 2 ^ 32 \<Longrightarrow> 0 \<le> crc_int_step r \<and> crc_int_step r < 2 ^ 32"
proof -
  assume r: "0 \<le> r" "r < 2 ^ 32"
  then have "r div 2 < 2 ^ 32" "0 \<le> r div 2" by simp_all
  then have "r div 2 XOR 0x82F63B78 < 2 ^ 32"
    by (intro XOR_upper) simp_all
  moreover have "0 \<le> r div 2 XOR 0x82F63B78" using r by simp
  ultimately show ?thesis using r by (auto simp: crc_int_step_def)
qed

lemma crc_bit_step_of_int:
  assumes "0 \<le> r" "r < 2 ^ 32"
  shows "crc_bit_step (word_of_int r) = word_of_int (crc_int_step r)"
proof -
  have "drop_bit 1 (word_of_int r :: u32) = word_of_int (r div 2)"
  proof (rule bit_word_eqI)
    fix n assume "n < LENGTH(32)"
    have "take_bit 32 r = r" using assms by (simp add: take_bit_eq_mod)
    then have top: "\<not> bit r 32" by (metis bit_take_bit_iff less_irrefl)
    have "bit (drop_bit 1 (word_of_int r :: u32)) n = bit (word_of_int r :: u32) (Suc n)"
      by (simp only: bit_drop_bit_eq comp_def plus_1_eq_Suc)
    also have "\<dots> = (Suc n < 32 \<and> bit r (Suc n))" by (simp add: bit_word_of_int_iff)
    also have "\<dots> = bit r (Suc n)"
    proof (cases "Suc n = 32")
      case True
      then show ?thesis using top by (simp only: less_irrefl simp_thms)
    next
      case False
      then show ?thesis using \<open>n < LENGTH(32)\<close> by simp
    qed
    also have "\<dots> = bit (word_of_int (r div 2) :: u32) n"
      using \<open>n < LENGTH(32)\<close> by (simp add: bit_word_of_int_iff bit_Suc)
    finally show "bit (drop_bit 1 (word_of_int r :: u32)) n = bit (word_of_int (r div 2) :: u32) n" .
  qed
  moreover have "bit (word_of_int r :: u32) 0 = odd r"
    by (simp only: bit_word_of_int_iff) (simp add: bit_0)
  ultimately show ?thesis
    by (simp add: crc_bit_step_def crc_int_step_def of_int_xor_eq)
qed

lemma crc_table_entry_of_int:
  assumes "i < 256"
  shows "crc_table_entry i = word_of_int (crc_int_entry (int i))"
proof -
  have "(crc_bit_step ^^ n) (word_of_int r) = word_of_int ((crc_int_step ^^ n) r)
      \<and> 0 \<le> (crc_int_step ^^ n) r \<and> (crc_int_step ^^ n) r < 2 ^ 32"
    if "0 \<le> r" "r < 2 ^ 32" for n r
    using that crc_int_step_range by (induction n) (auto simp: crc_bit_step_of_int)
  from this [of "int i" 8] assms show ?thesis
    by (simp add: crc_table_entry_def crc_int_entry_funpow)
qed

fun crc_table_from :: "int \<Rightarrow> u32 list \<Rightarrow> bool" where
  "crc_table_from i [] = True"
| "crc_table_from i (x # xs) = (word_of_int (crc_int_entry i) = x \<and> crc_table_from (i + 1) xs)"

lemma crc_table_from_nth:
  "crc_table_from i xs \<Longrightarrow> j < length xs \<Longrightarrow> xs ! j = word_of_int (crc_int_entry (i + int j))"
proof (induction i xs arbitrary: j rule: crc_table_from.induct)
  case (2 i x xs)
  then show ?case by (cases j) (auto simp: algebra_simps)
qed simp

lemma crc_table_evaluated: "crc_table_from 0 kCrc32cTable"
  by (simp add: kCrc32cTable_def crc_int_entry_def crc_int_step_def)

lemma length_kCrc32cTable: "length kCrc32cTable = 256"
  by (simp add: kCrc32cTable_def)

lemma kCrc32cTable_generated: "kCrc32cTable = map crc_table_entry [0..<256]"
  by (rule nth_equalityI)
    (simp_all add: length_kCrc32cTable crc_table_from_nth [OF crc_table_evaluated] crc_table_entry_of_int)

subsection \<open>The table-driven step is eight bitwise steps\<close>

lemma crc_bit_step_xor: "crc_bit_step (x XOR y) = crc_bit_step x XOR crc_bit_step y"
proof -
  have "drop_bit 1 x XOR p XOR (drop_bit 1 y XOR p) = drop_bit 1 x XOR drop_bit 1 y" for p
    by (simp only: xor.assoc xor.left_commute [of p] xor_self_eq xor.right_neutral)
  then show ?thesis
    unfolding crc_bit_step_def drop_bit_xor bit_xor_iff
    by (auto simp: xor.assoc xor.left_commute xor.commute)
qed

lemma crc_bits_xor: "(crc_bit_step ^^ n) (x XOR y) = (crc_bit_step ^^ n) x XOR (crc_bit_step ^^ n) y"
  by (induction n) (simp_all add: crc_bit_step_xor)

lemma crc_bits_shift:
  "(\<And>i. i < n \<Longrightarrow> \<not> bit w i) \<Longrightarrow> (crc_bit_step ^^ n) w = drop_bit n w"
proof (induction n)
  case (Suc n)
  then have "(crc_bit_step ^^ n) w = drop_bit n w" by simp
  moreover have "\<not> bit (drop_bit n w) 0"
    using Suc.prems [of n] by (simp only: bit_drop_bit_eq comp_def) simp
  ultimately have "(crc_bit_step ^^ Suc n) w = drop_bit 1 (drop_bit n w)"
    by (simp only: funpow.simps comp_def crc_bit_step_def if_False)
  then show ?case by (simp only: drop_bit_drop_bit plus_1_eq_Suc)
qed simp

lemma and_FF_eq_take_bit: "v AND 0xFF = take_bit 8 v" for v :: u32
  by (simp add: take_bit_eq_mask mask_eq_exp_minus_1)

lemma Crc32c_step_bitwise: "Crc32c_step crc c = (crc_bit_step ^^ 8) (crc XOR ucast c)"
proof -
  let ?x = "crc XOR ucast c :: u32"
  let ?lo = "?x AND 0xFF"
  have lo: "unat ?lo < 256"
    using word_and_le1 [of ?x "0xFF"] by (simp add: word_le_nat_alt)
  have split: "?x = ?lo XOR (?x XOR ?lo)"
    by (simp only: xor.left_commute [of ?lo] xor_self_eq xor.right_neutral)
  have "\<not> bit (?x XOR ?lo) i" if "i < 8" for i
    unfolding and_FF_eq_take_bit using that by (simp add: bit_xor_iff bit_take_bit_iff)
  then have "(crc_bit_step ^^ 8) (?x XOR ?lo) = drop_bit 8 (?x XOR ?lo)"
    by (rule crc_bits_shift)
  also have "\<dots> = drop_bit 8 crc"
    unfolding and_FF_eq_take_bit
    by (rule bit_word_eqI) (auto simp: bit_simps dest: bit_imp_le_length)
  finally have "(crc_bit_step ^^ 8) ?x = (crc_bit_step ^^ 8) ?lo XOR drop_bit 8 crc"
    by (subst split) (simp only: crc_bits_xor)
  moreover have "kCrc32cTable ! unat ?lo = (crc_bit_step ^^ 8) ?lo"
    using lo by (simp add: kCrc32cTable_generated crc_table_entry_def)
  ultimately show ?thesis by (simp only: Crc32c_step_def)
qed

text \<open>C28: The table-driven CRC-32C is the bitwise algorithm with the reflected Castagnoli
  polynomial 0x82F63B78: processing a byte means adding it to the register and shifting eight
  times, reducing by the polynomial at each bit shifted out. In particular all 256 entries of the
  table are right.\<close>

theorem Crc32c_eq_bitwise:
  "Crc32c data =
     foldl (\<lambda>crc c. (crc_bit_step ^^ 8) (crc XOR ucast c)) 0xFFFFFFFF data XOR 0xFFFFFFFF"
proof -
  have "Crc32c_step = (\<lambda>crc c. (crc_bit_step ^^ 8) (crc XOR ucast c))"
    by (intro ext) (rule Crc32c_step_bitwise)
  then show ?thesis by (simp add: Crc32c_def Crc32cExtend_def)
qed

subsection \<open>Error detection\<close>

lemma xor_right_cancel: "x XOR z = y XOR z \<longleftrightarrow> x = (y :: 'a::len word)"
proof
  assume "x XOR z = y XOR z"
  then have "(x XOR z) XOR z = (y XOR z) XOR z" by (simp only:)
  then show "x = y" by (simp add: xor.assoc)
qed simp

lemma xor_left_cancel: "z XOR x = z XOR y \<longleftrightarrow> x = (y :: 'a::len word)"
  using xor_right_cancel [of x z y] by (simp add: xor.commute)

lemma xor_eq_0: "x XOR y = 0 \<longleftrightarrow> x = (y :: 'a::len word)"
  using xor_right_cancel [of x y y] by simp

lemma crc_bit_step_eq_0:
  assumes "crc_bit_step z = 0"
  shows "z = 0"
proof -
  have z0: "\<not> bit z 0"
  proof
    assume "bit z 0"
    with assms have "drop_bit 1 z XOR 0x82F63B78 = 0" by (simp only: crc_bit_step_def if_True)
    then have d: "drop_bit 1 z = 0x82F63B78" by (simp only: xor_eq_0)
    have "\<not> bit (drop_bit 1 z) 31"
      by (simp only: bit_drop_bit_eq comp_def) (auto dest: bit_imp_le_length)
    then show False unfolding d by simp
  qed
  with assms have d: "drop_bit 1 z = 0" by (simp only: crc_bit_step_def if_False)
  show "z = 0"
  proof (rule bit_word_eqI)
    fix n
    have "bit z (Suc m) = bit (drop_bit 1 z) m" for m
      by (simp only: bit_drop_bit_eq comp_def plus_1_eq_Suc)
    with d z0 show "bit z n = bit 0 n" by (cases n) (simp_all add: bit_0_eq)
  qed
qed

lemma crc_bits_inj: "(crc_bit_step ^^ n) x = (crc_bit_step ^^ n) y \<Longrightarrow> x = y"
proof (induction n)
  case (Suc n)
  then have "crc_bit_step ((crc_bit_step ^^ n) x XOR (crc_bit_step ^^ n) y) = 0"
    by (simp add: crc_bit_step_xor)
  then have "(crc_bit_step ^^ n) x XOR (crc_bit_step ^^ n) y = 0"
    by (rule crc_bit_step_eq_0)
  then have "(crc_bit_step ^^ n) x = (crc_bit_step ^^ n) y"
    by (simp only: xor_eq_0)
  then show ?case by (rule Suc.IH)
qed simp

lemma Crc32c_step_inj: "Crc32c_step crc c = Crc32c_step crc' c \<Longrightarrow> crc = crc'"
  unfolding Crc32c_step_bitwise
  by (drule crc_bits_inj) (simp only: xor_right_cancel)

lemma Crc32c_fold_inj: "foldl Crc32c_step crc ys = foldl Crc32c_step crc' ys \<Longrightarrow> crc = crc'"
  by (induction ys arbitrary: crc crc') (auto dest: Crc32c_step_inj)

lemma bit_le_val_beyond: "8 * length bs \<le> n \<Longrightarrow> \<not> bit (le_val bs :: 'a::len word) n"
proof (induction bs arbitrary: n)
  case (Cons b bs)
  then have "\<not> bit (le_val bs :: 'a word) (n - 8)" by simp
  then show ?case
    using Cons.prems by (auto simp: bit_simps dest: bit_imp_le_length)
qed simp

lemma le_bytes_le_val: "8 * length bs \<le> LENGTH('a) \<Longrightarrow> le_bytes (length bs) (le_val bs :: 'a::len word) = bs"
proof (induction bs)
  case (Cons b bs)
  have "(ucast (le_val (b # bs) :: 'a word) :: byte) = b"
    using Cons.prems by (intro bit_word_eqI) (auto simp: bit_simps)
  moreover have "drop_bit 8 (le_val (b # bs) :: 'a word) = le_val bs"
  proof (rule bit_word_eqI)
    fix n assume "n < LENGTH('a)"
    have "\<not> bit (le_val bs :: 'a word) n" if "LENGTH('a) \<le> 8 + n"
      using that Cons.prems by (intro bit_le_val_beyond) simp
    then show "bit (drop_bit 8 (le_val (b # bs) :: 'a word)) n = bit (le_val bs :: 'a word) n"
      by (auto simp: bit_simps dest: bit_imp_le_length)
  qed
  ultimately show ?case using Cons by simp
qed simp

text \<open>Up to four bytes enter the register as one word: the register after them is the shifted
  sum of the old register and the little-endian value of the bytes.\<close>

lemma Crc32c_fold_word:
  "length bs \<le> 4 \<Longrightarrow>
   foldl Crc32c_step crc bs = (crc_bit_step ^^ (8 * length bs)) (crc XOR le_val bs)"
proof (induction bs arbitrary: crc)
  case (Cons b bs)
  let ?v = "le_val bs :: u32"
  have low: "\<not> bit (push_bit 8 ?v) i" if "i < 8" for i
    using that by (simp add: bit_simps)
  have "drop_bit 8 (push_bit 8 ?v) = ?v"
  proof (rule bit_word_eqI)
    fix n assume "n < LENGTH(32)"
    have "\<not> bit ?v n" if "24 \<le> n"
      using that Cons.prems by (intro bit_le_val_beyond) simp
    then show "bit (drop_bit 8 (push_bit 8 ?v)) n = bit ?v n"
      by (cases "24 \<le> n") (auto simp: bit_simps)
  qed
  with crc_bits_shift [OF low, of 8] have sh: "(crc_bit_step ^^ 8) (push_bit 8 ?v) = ?v" by simp
  have or: "ucast b OR push_bit 8 ?v = ucast b XOR push_bit 8 ?v"
    by (rule bit_word_eqI) (auto simp: bit_simps dest: bit_imp_le_length)
  have "foldl Crc32c_step crc (b # bs) = (crc_bit_step ^^ (8 * length bs)) (Crc32c_step crc b XOR ?v)"
    using Cons by simp
  also have "Crc32c_step crc b XOR ?v = (crc_bit_step ^^ 8) ((crc XOR ucast b) XOR push_bit 8 ?v)"
    by (simp only: crc_bits_xor [of 8 "crc XOR ucast b"] sh Crc32c_step_bitwise)
  also have "(crc XOR ucast b) XOR push_bit 8 ?v = crc XOR le_val (b # bs)"
    by (simp only: le_val.simps or xor.assoc)
  also have "(crc_bit_step ^^ (8 * length bs)) ((crc_bit_step ^^ 8) (crc XOR le_val (b # bs)))
      = (crc_bit_step ^^ (8 * length bs + 8)) (crc XOR le_val (b # bs))"
    by (simp only: funpow_add comp_def)
  also have "8 * length bs + 8 = 8 * length (b # bs)" by simp
  finally show ?case .
qed simp

lemma Crc32c_burst:
  assumes "length bs = length bs'" and "length bs \<le> 4" and "bs \<noteq> bs'"
  shows "Crc32c (pre @ bs @ post) \<noteq> Crc32c (pre @ bs' @ post)"
proof
  assume "Crc32c (pre @ bs @ post) = Crc32c (pre @ bs' @ post)"
  then have "foldl Crc32c_step 0xFFFFFFFF (pre @ bs @ post) = foldl Crc32c_step 0xFFFFFFFF (pre @ bs' @ post)"
    unfolding Crc32c_def Crc32cExtend_def by (simp only: xor_right_cancel xor.left_neutral)
  then have "foldl Crc32c_step (foldl Crc32c_step 0xFFFFFFFF pre) bs
      = foldl Crc32c_step (foldl Crc32c_step 0xFFFFFFFF pre) bs'"
    by (simp add: Crc32c_fold_inj)
  then have "le_val bs = (le_val bs' :: u32)"
    using assms(1,2) by (simp add: Crc32c_fold_word) (drule crc_bits_inj, simp only: xor_left_cancel)
  then have "le_bytes (length bs) (le_val bs :: u32) = le_bytes (length bs') (le_val bs' :: u32)"
    using assms(1) by simp
  then show False
    using assms le_bytes_le_val [where 'a = 32, of bs] le_bytes_le_val [where 'a = 32, of bs'] by simp
qed

text \<open>C29: CRC-32C detects every corruption confined to four consecutive bytes: two byte strings
  that agree before and after a window of at most four bytes and differ inside it have
  different checksums.\<close>

theorem Crc32c_detects_burst:
  assumes "length bs = length bs'" and "length bs \<le> 4" and "bs \<noteq> bs'"
  shows "Crc32c (pre @ bs @ post) \<noteq> Crc32c (pre @ bs' @ post)"
  by (rule Crc32c_burst [OF assms])

theorem Crc32c_detects_burst_witness:
  "Crc32c ([1, 2] @ [3, 4] @ [5]) \<noteq> Crc32c ([1, 2] @ [3, 5] @ [5])"
  by (rule Crc32c_detects_burst) simp_all

end
