(* ===== verification/Lkv_Block.thy ===== *)
theory Lkv_Block
  imports Lkv_Crc "HOL-Library.Monad_Syntax"
begin

section \<open>Blocks (src/block_builder.cpp, src/block.cpp, src/block_handle.cpp)\<close>

text \<open>
  A block is a run of prefix-compressed entries followed by an array of restart offsets, their
  number and a checksum. \<open>BlockBuilder\<close> writes one, \<open>Block::Iterator\<close> walks and searches
  it. A pointer into the block is an offset from \<open>data_\<close>. The C++ code does not check every
  length it reads from the bytes; where it would read outside the block (or copy more of
  \<open>key_buffer_\<close> than there is) the model returns \<open>None\<close>, so that a theorem that an
  operation returns \<open>Some\<close> also says that it stays inside the block.

  The locale \<open>cursor\<close> is the contract of a forward iterator over a list of entries; the block
  iterator is shown to meet it, positioned by \<open>SeekToFirst\<close>, \<open>Seek\<close> and
  \<open>SeekToLast\<close>.
\<close>

subsection \<open>\<open>BlockHandle\<close>\<close>

record BlockHandle =
  bh_offset :: u64
  bh_size :: u64
  is_compressed :: bool

definition BlockHandle_EncodeTo :: "BlockHandle \<Rightarrow> bytes \<Rightarrow> bytes" where
  "BlockHandle_EncodeTo h dst =
     PutVarint64 (PutVarint64 dst (bh_offset h)) (bh_size h) @ [if is_compressed h then 1 else 0]"

definition BlockHandle_DecodeFrom :: "bytes \<Rightarrow> BlockHandle option" where
  "BlockHandle_DecodeFrom input =
     do { (off, p) \<leftarrow> GetVarint64 input 0 (length input);
          (sz, p) \<leftarrow> GetVarint64 input p (length input);
          Some \<lparr>bh_offset = off, bh_size = sz,
            is_compressed = (if p < length input then input ! p \<noteq> 0 else False)\<rparr> }"

lemma BlockHandle_EncodeTo_eq:
  "BlockHandle_EncodeTo h dst =
     dst @ varint64 (bh_offset h) @ varint64 (bh_size h) @ [if is_compressed h then 1 else 0]"
  unfolding BlockHandle_EncodeTo_def by (simp only: PutVarint64_eq append_assoc)

lemma BlockHandle_DecodeFrom_Encode [simp]:
  "BlockHandle_DecodeFrom (BlockHandle_EncodeTo h []) = Some h"
proof -
  let ?a = "varint64 (bh_offset h)" and ?b = "varint64 (bh_size h)"
  let ?c = "if is_compressed h then 1 else 0 :: byte"
  let ?buf = "?a @ ?b @ [?c]"
  have a: "GetVarint64 ?buf 0 (length ?buf) = Some (bh_offset h, length ?a)"
    using GetVarint64_at [of ?buf 0 "bh_offset h" "length ?buf"] by (simp del: append_assoc)
  have b: "GetVarint64 ?buf (length ?a) (length ?buf) = Some (bh_size h, length ?a + length ?b)"
    using GetVarint64_at [of ?buf "length ?a" "bh_size h" "length ?buf"] by simp
  have c: "?buf ! (length ?a + length ?b) = ?c"
    by (simp add: nth_append)
  show ?thesis
    unfolding BlockHandle_DecodeFrom_def BlockHandle_EncodeTo_eq append_Nil
    by (simp only: a b c bind.simps prod.case) simp
qed

subsection \<open>\<open>BlockBuilder\<close>\<close>

record BlockBuilder =
  bb_buffer :: bytes
  bb_restarts :: "u32 list"
  bb_restart_interval :: nat
  bb_last_key :: bytes
  bb_counter :: nat
  bb_finished :: bool

definition BlockBuilder_new :: "nat \<Rightarrow> BlockBuilder" where
  "BlockBuilder_new restart_interval =
     \<lparr>bb_buffer = [], bb_restarts = [0], bb_restart_interval = restart_interval,
      bb_last_key = [], bb_counter = 0, bb_finished = False\<rparr>"

fun shared_prefix :: "bytes \<Rightarrow> bytes \<Rightarrow> nat" where
  "shared_prefix (x # xs) (y # ys) = (if x = y then Suc (shared_prefix xs ys) else 0)"
| "shared_prefix _ _ = 0"

definition BlockBuilder_Add :: "BlockBuilder \<Rightarrow> bytes \<Rightarrow> bytes \<Rightarrow> BlockBuilder" where
  "BlockBuilder_Add b key v =
     (let (shared, b) =
            (if bb_counter b < bb_restart_interval b then (shared_prefix (bb_last_key b) key, b)
             else (0, b\<lparr>bb_restarts := bb_restarts b @ [word_of_nat (length (bb_buffer b))],
                        bb_counter := 0\<rparr>));
          non_shared = word_of_nat (length key - shared) :: u32;
          value_len = word_of_nat (length v) :: u32;
          buffer = PutVarint32 (bb_buffer b) (word_of_nat shared);
          buffer = PutVarint32 buffer non_shared;
          buffer = PutVarint32 buffer value_len;
          buffer = buffer @ take (unat non_shared) (drop shared key);
          buffer = buffer @ v
      in b\<lparr>bb_buffer := buffer, bb_last_key := key, bb_counter := bb_counter b + 1\<rparr>)"

fun BlockBuilder_Finish_loop :: "bytes \<Rightarrow> u32 list \<Rightarrow> bytes" where
  "BlockBuilder_Finish_loop buffer [] = buffer"
| "BlockBuilder_Finish_loop buffer (restart # restarts) =
     BlockBuilder_Finish_loop (PutFixed32 buffer restart) restarts"

definition BlockBuilder_Finish :: "BlockBuilder \<Rightarrow> BlockBuilder" where
  "BlockBuilder_Finish b =
     (if bb_finished b then b
      else let buffer = BlockBuilder_Finish_loop (bb_buffer b) (bb_restarts b);
               buffer = PutFixed32 buffer (word_of_nat (length (bb_restarts b)));
               crc = Crc32c buffer
           in b\<lparr>bb_buffer := PutFixed32 buffer crc, bb_finished := True\<rparr>)"

definition BlockBuilder_CurrentSizeEstimate :: "BlockBuilder \<Rightarrow> nat" where
  "BlockBuilder_CurrentSizeEstimate b = length (bb_buffer b) + length (bb_restarts b) * 4 + 4"

definition BlockBuilder_empty :: "BlockBuilder \<Rightarrow> bool" where
  "BlockBuilder_empty b \<longleftrightarrow> bb_buffer b = []"

definition BlockBuilder_Reset :: "BlockBuilder \<Rightarrow> BlockBuilder" where
  "BlockBuilder_Reset b =
     b\<lparr>bb_buffer := [], bb_restarts := [0], bb_last_key := [], bb_counter := 0, bb_finished := False\<rparr>"

subsection \<open>\<open>Block\<close> and its iterator\<close>

record Block =
  block_data :: bytes
  verify_checksum :: bool
  checksum_ok :: bool

definition Block_new :: "bytes \<Rightarrow> bool \<Rightarrow> Block" where
  "Block_new data verify =
     \<lparr>block_data = data, verify_checksum = verify,
      checksum_ok =
        (if verify \<and> 4 \<le> length data
         then DecodeFixed32 data (length data - 4) = Crc32c (take (length data - 4) data)
         else True)\<rparr>"

text \<open>The inner option is the null pointer the code returns for a malformed entry, the outer
  one an access outside the block.\<close>

definition DecodeEntry :: "bytes \<Rightarrow> nat \<Rightarrow> nat \<Rightarrow> (u32 \<times> u32 \<times> u32 \<times> nat) option option" where
  "DecodeEntry buf p limit =
     (if limit \<le> p then Some None
      else if length buf < limit then None
      else Some (do { (shared, p) \<leftarrow> GetVarint32 buf p limit;
                      (non_shared, p) \<leftarrow> GetVarint32 buf p limit;
                      (value_len, p) \<leftarrow> GetVarint32 buf p limit;
                      Some (shared, non_shared, value_len, p) }))"

definition read_bytes :: "bytes \<Rightarrow> nat \<Rightarrow> nat \<Rightarrow> bytes option" where
  "read_bytes buf p n = (if p + n \<le> length buf then Some (take n (drop p buf)) else None)"

text \<open>\<open>restart_index_\<close> is set to 0 by the constructor and never used; it is left out. The
  restart count and the offset keep their 32-bit arithmetic.\<close>

record BlockIter =
  iter_block :: Block
  iter_data :: nat
  iter_limit :: nat
  restart_offset :: nat
  num_restarts :: nat
  key_buffer :: bytes

definition Block_NewIterator :: "Block \<Rightarrow> BlockIter" where
  "Block_NewIterator blk =
     (let buf = block_data blk; sz = length buf;
          restart_count = (if 8 \<le> sz then DecodeFixed32 buf (sz - 8) else 0);
          off = (if restart_count > 0 then unat (word_of_nat sz - (2 + restart_count) * 4 :: u32) else 0)
      in \<lparr>iter_block = blk, iter_data = 0, iter_limit = off, restart_offset = off,
          num_restarts = unat restart_count, key_buffer = []\<rparr>)"

definition BlockIter_Valid :: "BlockIter \<Rightarrow> bool" where
  "BlockIter_Valid it \<longleftrightarrow> iter_data it < iter_limit it"

definition GetRestartPoint :: "BlockIter \<Rightarrow> nat \<Rightarrow> nat option" where
  "GetRestartPoint it index =
     (let buf = block_data (iter_block it); p = restart_offset it + index * 4
      in if p + 4 \<le> length buf then Some (unat (DecodeFixed32 buf p)) else None)"

definition ParseEntry :: "BlockIter \<Rightarrow> nat \<Rightarrow> BlockIter option" where
  "ParseEntry it entry =
     do { e \<leftarrow> DecodeEntry (block_data (iter_block it)) entry (iter_limit it);
          case e of
            None \<Rightarrow> Some (it\<lparr>iter_data := iter_limit it\<rparr>)
          | Some (shared, non_shared, value_len, p) \<Rightarrow>
              if unat shared > length (key_buffer it) then Some (it\<lparr>iter_data := iter_limit it\<rparr>)
              else do { s \<leftarrow> read_bytes (block_data (iter_block it)) p (unat non_shared);
                        Some (it\<lparr>key_buffer := take (unat shared) (key_buffer it) @ s\<rparr>) } }"

definition BlockIter_SeekToFirst :: "BlockIter \<Rightarrow> BlockIter option" where
  "BlockIter_SeekToFirst it =
     (if num_restarts it = 0 then Some (it\<lparr>iter_data := iter_limit it\<rparr>)
      else do { offset \<leftarrow> GetRestartPoint it 0;
                ParseEntry (it\<lparr>iter_data := offset, key_buffer := []\<rparr>) offset })"

lemma GetVarint32_loop_advances:
  "GetVarint32_loop k buf p limit r s = Some (v, q) \<Longrightarrow> p < q"
  by (induction k buf p limit r s arbitrary: v q rule: GetVarint32_loop.induct)
    (auto simp: Let_def split: if_splits, fastforce)

lemma GetVarint32_advances: "GetVarint32 buf p limit = Some (v, q) \<Longrightarrow> p < q"
  by (auto simp: GetVarint32_def dest: GetVarint32_loop_advances)

lemma DecodeEntry_advances:
  "DecodeEntry buf p limit = Some (Some (sh, ns, vl, q)) \<Longrightarrow> p < q \<and> p < limit"
  by (auto simp: DecodeEntry_def split: if_splits bind_splits dest!: GetVarint32_advances)

lemma ParseEntry_frame:
  "ParseEntry it p = Some it' \<Longrightarrow>
   iter_block it' = iter_block it \<and> iter_limit it' = iter_limit it
   \<and> restart_offset it' = restart_offset it \<and> num_restarts it' = num_restarts it"
  by (auto simp: ParseEntry_def split: if_splits bind_splits option.splits)

function BlockIter_SeekToLast_loop :: "BlockIter \<Rightarrow> nat \<Rightarrow> BlockIter option" where
  "BlockIter_SeekToLast_loop it p =
     (if p < iter_limit it
      then case ParseEntry (it\<lparr>iter_data := p\<rparr>) p of
             None \<Rightarrow> None
           | Some it' \<Rightarrow>
               if \<not> BlockIter_Valid it' then Some it'
               else case DecodeEntry (block_data (iter_block it)) p (iter_limit it) of
                      None \<Rightarrow> None
                    | Some None \<Rightarrow> Some it'
                    | Some (Some (shared, non_shared, value_len, q)) \<Rightarrow>
                        BlockIter_SeekToLast_loop it' (q + unat non_shared + unat value_len)
      else Some it)"
  by pat_completeness auto
termination
  by (relation "measure (\<lambda>(it, p). iter_limit it - p)") (auto dest!: DecodeEntry_advances ParseEntry_frame)

declare BlockIter_SeekToLast_loop.simps [simp del]

definition BlockIter_SeekToLast :: "BlockIter \<Rightarrow> BlockIter option" where
  "BlockIter_SeekToLast it =
     (if num_restarts it = 0 then Some (it\<lparr>iter_data := iter_limit it\<rparr>)
      else do { p \<leftarrow> GetRestartPoint it (num_restarts it - 1);
                let it = it\<lparr>key_buffer := []\<rparr> in
                if iter_limit it \<le> p then Some (it\<lparr>iter_data := iter_limit it\<rparr>)
                else BlockIter_SeekToLast_loop it p })"

text \<open>The binary search over the restart points. The indices are below
  \<open>num_restarts_\<close>, and a block of less than 4 GiB has fewer than $2^{30}$ of them, so
  \<open>left + right + 1\<close> does not wrap.\<close>

function BlockIter_Seek_search :: "BlockIter \<Rightarrow> bytes \<Rightarrow> nat \<Rightarrow> nat \<Rightarrow> nat option" where
  "BlockIter_Seek_search it target left right =
     (if left < right
      then let mid = (left + right + 1) div 2 in
           case GetRestartPoint it mid of
             None \<Rightarrow> None
           | Some entry \<Rightarrow>
               (case DecodeEntry (block_data (iter_block it)) entry (iter_limit it) of
                  None \<Rightarrow> None
                | Some None \<Rightarrow> Some left
                | Some (Some (shared, non_shared, value_len, p)) \<Rightarrow>
                    if p + unat non_shared + unat value_len > iter_limit it then Some left
                    else if CompareInternalKeys (take (unat non_shared) (drop p (block_data (iter_block it))))
                              target < 0
                    then BlockIter_Seek_search it target mid right
                    else BlockIter_Seek_search it target left (mid - 1))
      else Some left)"
  by pat_completeness auto
termination
  by (relation "measure (\<lambda>(it, target, left, right). right - left)") (auto simp: Let_def)

declare BlockIter_Seek_search.simps [simp del]

function BlockIter_Seek_scan :: "BlockIter \<Rightarrow> bytes \<Rightarrow> nat \<Rightarrow> BlockIter option" where
  "BlockIter_Seek_scan it target p =
     (case DecodeEntry (block_data (iter_block it)) p (iter_limit it) of
        None \<Rightarrow> None
      | Some None \<Rightarrow> Some (it\<lparr>iter_data := iter_limit it\<rparr>)
      | Some (Some (shared, non_shared, value_len, q)) \<Rightarrow>
          if q + unat non_shared + unat value_len > iter_limit it
          then Some (it\<lparr>iter_data := iter_limit it\<rparr>)
          else if unat shared > length (key_buffer it) then None
          else let full_key = take (unat shared) (key_buffer it)
                     @ take (unat non_shared) (drop q (block_data (iter_block it)))
               in if CompareInternalKeys full_key target \<ge> 0
                  then ParseEntry (it\<lparr>iter_data := p\<rparr>) p
                  else let nxt = q + unat non_shared + unat value_len
                       in if nxt \<ge> iter_limit it then Some (it\<lparr>iter_data := iter_limit it\<rparr>)
                          else BlockIter_Seek_scan (it\<lparr>key_buffer := full_key\<rparr>) target nxt)"
  by pat_completeness auto
termination
  by (relation "measure (\<lambda>(it, target, p). iter_limit it - p)") (auto dest: DecodeEntry_advances)

declare BlockIter_Seek_scan.simps [simp del]

definition BlockIter_Seek :: "BlockIter \<Rightarrow> bytes \<Rightarrow> BlockIter option" where
  "BlockIter_Seek it target =
     (if num_restarts it = 0 then Some (it\<lparr>iter_data := iter_limit it\<rparr>)
      else do { left \<leftarrow> BlockIter_Seek_search it target 0 (num_restarts it - 1);
                p \<leftarrow> GetRestartPoint it left;
                BlockIter_Seek_scan (it\<lparr>key_buffer := []\<rparr>) target p })"

definition BlockIter_Next :: "BlockIter \<Rightarrow> BlockIter option" where
  "BlockIter_Next it =
     (if \<not> BlockIter_Valid it then Some it
      else do { e \<leftarrow> DecodeEntry (block_data (iter_block it)) (iter_data it) (iter_limit it);
                case e of
                  None \<Rightarrow> Some (it\<lparr>iter_data := iter_limit it\<rparr>)
                | Some (shared, non_shared, value_len, p) \<Rightarrow>
                    let nxt = p + unat non_shared + unat value_len
                    in if nxt \<ge> iter_limit it then Some (it\<lparr>iter_data := iter_limit it\<rparr>)
                       else ParseEntry (it\<lparr>iter_data := nxt\<rparr>) nxt })"

lemma BlockIter_Next_frame:
  assumes "BlockIter_Next it = Some it'"
  shows "iter_block it' = iter_block it \<and> iter_limit it' = iter_limit it
   \<and> restart_offset it' = restart_offset it \<and> num_restarts it' = num_restarts it"
  using assms
  by (auto simp: BlockIter_Next_def Let_def split: if_splits bind_splits option.splits
      dest!: ParseEntry_frame)

lemma ParseEntry_data: "ParseEntry it p = Some it' \<Longrightarrow> iter_data it' \<in> {iter_data it, iter_limit it}"
  by (auto simp: ParseEntry_def split: if_splits bind_splits option.splits)

lemma BlockIter_Next_advances:
  assumes "BlockIter_Next it = Some it'" and "BlockIter_Valid it"
  shows "iter_data it < iter_data it'"
  using assms
  by (auto simp: BlockIter_Next_def BlockIter_Valid_def Let_def
      split: if_splits bind_splits option.splits dest!: DecodeEntry_advances ParseEntry_data)

text \<open>The loop of \<open>Prev\<close>: \<open>prev\<close> trails the iterator until it reaches
  \<open>orig\<close>.\<close>

function BlockIter_Prev_loop :: "BlockIter \<Rightarrow> nat \<Rightarrow> nat \<Rightarrow> (BlockIter \<times> nat) option" where
  "BlockIter_Prev_loop it orig prev =
     (if \<not> BlockIter_Valid it then Some (it, prev)
      else let cur = iter_data it
           in if orig \<le> cur then Some (it, prev)
              else case BlockIter_Next it of
                     None \<Rightarrow> None
                   | Some it' \<Rightarrow> BlockIter_Prev_loop it' orig cur)"
  by pat_completeness auto
termination
proof (relation "measure (\<lambda>(it, orig, prev). iter_limit it - iter_data it)", goal_cases)
  case (2 it orig prev cur it')
  then have "iter_data it < iter_data it'" "iter_limit it' = iter_limit it" "iter_data it < iter_limit it"
    using BlockIter_Next_advances [OF 2(4)] BlockIter_Next_frame [OF 2(4)] by (simp_all add: BlockIter_Valid_def)
  then show ?case by simp
qed simp

declare BlockIter_Prev_loop.simps [simp del]

definition BlockIter_Prev :: "BlockIter \<Rightarrow> BlockIter option" where
  "BlockIter_Prev it =
     (let orig = iter_data it in
      do { it \<leftarrow> BlockIter_SeekToFirst it;
           if orig \<le> iter_data it then Some (it\<lparr>iter_data := iter_limit it\<rparr>)
           else do { (it, prev) \<leftarrow> BlockIter_Prev_loop it orig (iter_data it);
                     ParseEntry (it\<lparr>iter_data := prev\<rparr>) prev } })"

definition BlockIter_key :: "BlockIter \<Rightarrow> bytes" where
  "BlockIter_key it = key_buffer it"

definition BlockIter_value :: "BlockIter \<Rightarrow> bytes option" where
  "BlockIter_value it =
     do { e \<leftarrow> DecodeEntry (block_data (iter_block it)) (iter_data it) (iter_limit it);
          case e of
            None \<Rightarrow> Some []
          | Some (shared, non_shared, value_len, p) \<Rightarrow>
              read_bytes (block_data (iter_block it)) (p + unat non_shared) (unat value_len) }"

subsection \<open>The entries of a well-formed block\<close>

definition entry_bytes :: "nat \<Rightarrow> bytes \<Rightarrow> bytes \<Rightarrow> bytes" where
  "entry_bytes shared k v = EncodeVarint32 (word_of_nat shared)
     @ EncodeVarint32 (word_of_nat (length k - shared)) @ EncodeVarint32 (word_of_nat (length v))
     @ drop shared k @ v"

text \<open>From offset \<open>p\<close> on, with \<open>prev\<close> as the key the prefixes refer to, the
  bytes below \<open>limit\<close> are the entries \<open>kvs\<close>.\<close>

fun entries_at :: "bytes \<Rightarrow> nat \<Rightarrow> nat \<Rightarrow> bytes \<Rightarrow> (bytes \<times> bytes) list \<Rightarrow> bool" where
  "entries_at buf limit p prev [] \<longleftrightarrow> p = limit"
| "entries_at buf limit p prev ((k, v) # kvs) \<longleftrightarrow>
     (\<exists>shared. shared \<le> length prev \<and> shared \<le> length k \<and> take shared prev = take shared k
        \<and> length k < 2 ^ 32 \<and> length v < 2 ^ 32
        \<and> holds_at buf p (entry_bytes shared k v)
        \<and> p + length (entry_bytes shared k v) \<le> limit
        \<and> entries_at buf limit (p + length (entry_bytes shared k v)) k kvs)"

lemma entry_bytes_pos [simp]: "0 < length (entry_bytes shared k v)"
  by (simp add: entry_bytes_def)

lemma length_entry_bytes_le: "length (entry_bytes shared k v) \<le> length k + length v + 15"
  using VarintLength_le_5 [of "word_of_nat shared"] VarintLength_le_5 [of "word_of_nat (length k - shared)"]
    VarintLength_le_5 [of "word_of_nat (length v)"]
  by (simp add: entry_bytes_def)

lemma unat_u32_of_nat: "n < 2 ^ 32 \<Longrightarrow> unat (word_of_nat n :: u32) = n"
  by (simp add: unsigned_of_nat take_bit_nat_eq_self)

lemma entries_at_less:
  assumes "entries_at buf limit p prev (e # kvs)"
  shows "p < limit"
proof -
  obtain k v where e: "e = (k, v)" by force
  then obtain shared where "p + length (entry_bytes shared k v) \<le> limit" using assms by auto
  with entry_bytes_pos [of shared k v] show ?thesis by linarith
qed

lemma entries_at_end: "entries_at buf limit p prev kvs \<Longrightarrow> \<not> p < limit \<Longrightarrow> kvs = []"
  using entries_at_less by (cases kvs) blast+

text \<open>What \<open>DecodeEntry\<close> finds at an entry.\<close>

lemma DecodeEntry_at:
  assumes "holds_at buf p (entry_bytes shared k v)" and "p + length (entry_bytes shared k v) \<le> limit"
    and "limit \<le> length buf" and "shared \<le> length k" and "length k < 2 ^ 32" and "length v < 2 ^ 32"
  shows "\<exists>ns vl q. DecodeEntry buf p limit = Some (Some (word_of_nat shared, ns, vl, q))
    \<and> unat (word_of_nat shared :: u32) = shared \<and> unat ns = length k - shared \<and> unat vl = length v
    \<and> q + (length k - shared) + length v = p + length (entry_bytes shared k v)
    \<and> take (length k - shared) (drop q buf) = drop shared k
    \<and> take (length v) (drop (q + (length k - shared)) buf) = v"
proof -
  define s n vl :: u32 where "s = word_of_nat shared" and "n = word_of_nat (length k - shared)"
    and "vl = word_of_nat (length v)"
  note snv = this
  have u: "unat s = shared" "unat n = length k - shared" "unat vl = length v"
    unfolding snv by (rule unat_u32_of_nat, use assms(4-6) in linarith)+
  have e: "entry_bytes shared k v
      = EncodeVarint32 s @ EncodeVarint32 n @ EncodeVarint32 vl @ drop shared k @ v"
    by (simp only: entry_bytes_def snv)
  let ?q = "p + VarintLength s + VarintLength n + VarintLength vl"
  have h: "holds_at buf p (EncodeVarint32 s)" "holds_at buf (p + VarintLength s) (EncodeVarint32 n)"
      "holds_at buf (p + VarintLength s + VarintLength n) (EncodeVarint32 vl)"
      "holds_at buf ?q (drop shared k)" "holds_at buf (?q + length (drop shared k)) v"
    using assms(1) unfolding e holds_at_append length_EncodeVarint32 by simp_all
  have l: "?q + (length k - shared) + length v \<le> limit"
    using assms(2) by (simp add: e)
  have "\<not> limit \<le> p" using l VarintLength_pos [of s] by linarith
  then have "DecodeEntry buf p limit = Some (Some (s, n, vl, ?q))"
    using assms(3) l by (simp add: DecodeEntry_def GetVarint32_at [OF h(1)] GetVarint32_at [OF h(2)]
        GetVarint32_at [OF h(3)])
  then show ?thesis
    using u holds_at_slice [OF h(4)] holds_at_slice [OF h(5)]
    by (intro exI [of _ n] exI [of _ vl] exI [of _ ?q]) (simp add: e snv(1))
qed

lemma ParseEntry_at:
  assumes "entries_at (block_data (iter_block it)) (iter_limit it) p prev ((k, v) # kvs)"
    and "key_buffer it = prev" and "iter_limit it \<le> length (block_data (iter_block it))"
  shows "ParseEntry it p = Some (it\<lparr>key_buffer := k\<rparr>)"
proof -
  let ?buf = "block_data (iter_block it)"
  obtain shared where s: "shared \<le> length prev" "shared \<le> length k" "take shared prev = take shared k"
      "length k < 2 ^ 32" "length v < 2 ^ 32" "holds_at ?buf p (entry_bytes shared k v)"
      "p + length (entry_bytes shared k v) \<le> iter_limit it"
    using assms(1) by auto
  obtain ns vl q where d: "DecodeEntry ?buf p (iter_limit it) = Some (Some (word_of_nat shared, ns, vl, q))"
      "unat (word_of_nat shared :: u32) = shared" "unat ns = length k - shared"
      "q + (length k - shared) + length v = p + length (entry_bytes shared k v)"
      "take (length k - shared) (drop q ?buf) = drop shared k"
    using DecodeEntry_at [OF s(6,7) assms(3) s(2,4,5)] by blast
  have "q + (length k - shared) \<le> length ?buf" using d(4) s(7) assms(3) by linarith
  then show ?thesis
    using d s assms(2) by (simp add: ParseEntry_def read_bytes_def)
qed

subsection \<open>A forward cursor\<close>

text \<open>A client's loop \<open>for (; it.Valid(); it.Next())\<close>, reading key and value at each step;
  \<open>fuel\<close> bounds the number of steps.\<close>

fun drain :: "('it \<Rightarrow> bool) \<Rightarrow> ('it \<Rightarrow> 'it option) \<Rightarrow> ('it \<Rightarrow> bytes) \<Rightarrow> ('it \<Rightarrow> bytes option) \<Rightarrow>
    nat \<Rightarrow> 'it \<Rightarrow> (bytes \<times> bytes) list option" where
  "drain valid nxt key val 0 it = None"
| "drain valid nxt key val (Suc fuel) it =
     (if \<not> valid it then Some []
      else do { v \<leftarrow> val it; it' \<leftarrow> nxt it; rest \<leftarrow> drain valid nxt key val fuel it';
                Some ((key it, v) # rest) })"

text \<open>\<open>on it kvs\<close>: the entries from the cursor to the end are \<open>kvs\<close>.\<close>

locale cursor =
  fixes on :: "'it \<Rightarrow> (bytes \<times> bytes) list \<Rightarrow> bool"
    and valid :: "'it \<Rightarrow> bool"
    and nxt :: "'it \<Rightarrow> 'it option"
    and key :: "'it \<Rightarrow> bytes"
    and val :: "'it \<Rightarrow> bytes option"
  assumes on_valid: "on it kvs \<Longrightarrow> valid it \<longleftrightarrow> kvs \<noteq> []"
    and on_key: "on it ((k, v) # kvs) \<Longrightarrow> key it = k"
    and on_val: "on it ((k, v) # kvs) \<Longrightarrow> val it = Some v"
    and on_next: "on it (e # kvs) \<Longrightarrow> \<exists>it'. nxt it = Some it' \<and> on it' kvs"
begin

lemma drain_on: "on it kvs \<Longrightarrow> length kvs < fuel \<Longrightarrow> drain valid nxt key val fuel it = Some kvs"
proof (induction kvs arbitrary: it fuel)
  case Nil
  then show ?case using on_valid by (cases fuel) auto
next
  case (Cons e kvs)
  obtain k v where e: "e = (k, v)" by force
  obtain n where n: "fuel = Suc n" "length kvs < n" using Cons.prems(2) by (cases fuel) auto
  obtain it' where it': "nxt it = Some it'" "on it' kvs" using on_next Cons.prems(1) by blast
  show ?case
    using Cons.IH [OF it'(2) n(2)] it'(1) n(1) Cons.prems(1) e on_valid [of it] on_key [of it] on_val [of it]
    by simp
qed

end

subsection \<open>The block iterator as a cursor\<close>

definition restarts_ok :: "bytes \<Rightarrow> nat \<Rightarrow> u32 list \<Rightarrow> (bytes \<times> bytes) list \<Rightarrow> bool" where
  "restarts_ok buf limit rs kvs \<longleftrightarrow> rs \<noteq> [] \<and> hd rs = 0 \<and>
     (\<forall>r \<in> set rs. \<exists>n. entries_at buf limit (unat r) [] (drop n kvs) \<and> (n < length kvs \<or> kvs = []))"

text \<open>The iterator reads a well-formed block that holds the entries \<open>kvs\<close>.\<close>

definition iterates :: "BlockIter \<Rightarrow> (bytes \<times> bytes) list \<Rightarrow> bool" where
  "iterates it kvs \<longleftrightarrow>
     (let buf = block_data (iter_block it); lim = iter_limit it in
      lim \<le> length buf \<and> restart_offset it = lim \<and> entries_at buf lim 0 [] kvs
      \<and> (\<exists>rs. num_restarts it = length rs \<and> restarts_ok buf lim rs kvs
            \<and> holds_at buf lim (concat (map EncodeFixed32 rs))))"

definition block_on :: "(bytes \<times> bytes) list \<Rightarrow> BlockIter \<Rightarrow> (bytes \<times> bytes) list \<Rightarrow> bool" where
  "block_on kvs it rest \<longleftrightarrow> iterates it kvs \<and>
     (case rest of
        [] \<Rightarrow> iter_data it = iter_limit it
      | (k, v) # _ \<Rightarrow> key_buffer it = k
          \<and> (\<exists>prev. entries_at (block_data (iter_block it)) (iter_limit it) (iter_data it) prev rest))"

lemma iterates_frame [simp]:
  "iterates (it\<lparr>iter_data := x\<rparr>) kvs = iterates it kvs"
  "iterates (it\<lparr>key_buffer := ks\<rparr>) kvs = iterates it kvs"
  by (simp_all add: iterates_def)

lemma iterates_limit: "iterates it kvs \<Longrightarrow> iter_limit it \<le> length (block_data (iter_block it))"
  by (simp add: iterates_def Let_def)

lemma block_on_iterates: "block_on kvs it rest \<Longrightarrow> iterates it kvs"
  by (simp add: block_on_def)

text \<open>What one decoding step at the cursor gives.\<close>

lemma entries_at_decode:
  assumes "entries_at buf limit p prev ((k, v) # kvs)" and "limit \<le> length buf"
  shows "\<exists>sh ns vl q. DecodeEntry buf p limit = Some (Some (sh, ns, vl, q))
    \<and> unat sh \<le> length prev \<and> take (unat sh) prev @ take (unat ns) (drop q buf) = k
    \<and> unat vl = length v \<and> take (length v) (drop (q + unat ns) buf) = v
    \<and> q + unat ns + length v \<le> limit \<and> entries_at buf limit (q + unat ns + length v) k kvs"
proof -
  obtain shared where s: "shared \<le> length prev" "shared \<le> length k" "take shared prev = take shared k"
      "length k < 2 ^ 32" "length v < 2 ^ 32" "holds_at buf p (entry_bytes shared k v)"
      "p + length (entry_bytes shared k v) \<le> limit"
      "entries_at buf limit (p + length (entry_bytes shared k v)) k kvs"
    using assms(1) by auto
  from DecodeEntry_at [OF s(6,7) assms(2) s(2,4,5)] s show ?thesis by auto
qed

lemma block_on_Nil: "iterates it kvs \<Longrightarrow> block_on kvs (it\<lparr>iter_data := iter_limit it\<rparr>) []"
  by (simp add: block_on_def)

lemma ParseEntry_on:
  assumes "iterates it kvs" and "p < iter_limit it" and "iter_data it = p"
    and "entries_at (block_data (iter_block it)) (iter_limit it) p (key_buffer it) rest"
  shows "\<exists>it'. ParseEntry it p = Some it' \<and> block_on kvs it' rest"
proof (cases rest)
  case (Cons e es)
  obtain k v where e: "e = (k, v)" by force
  have "ParseEntry it p = Some (it\<lparr>key_buffer := k\<rparr>)"
    using ParseEntry_at [of it p "key_buffer it" k v es] assms iterates_limit [OF assms(1)] Cons e
    by simp
  then show ?thesis
    using assms Cons e by (auto simp: block_on_def)
qed (use assms in simp)

lemma BlockIter_Next_on:
  assumes "block_on kvs it (e # rest)"
  shows "\<exists>it'. BlockIter_Next it = Some it' \<and> block_on kvs it' rest"
proof -
  obtain k v where e: "e = (k, v)" by force
  let ?buf = "block_data (iter_block it)"
  obtain prev where it: "iterates it kvs" "key_buffer it = k"
      "entries_at ?buf (iter_limit it) (iter_data it) prev ((k, v) # rest)"
    using assms e by (auto simp: block_on_def)
  obtain sh ns vl q where d:
      "DecodeEntry ?buf (iter_data it) (iter_limit it) = Some (Some (sh, ns, vl, q))"
      "unat vl = length v" "q + unat ns + length v \<le> iter_limit it"
      "entries_at ?buf (iter_limit it) (q + unat ns + length v) k rest"
    using entries_at_decode [OF it(3) iterates_limit [OF it(1)]] by blast
  let ?n = "q + unat ns + length v"
  have v: "BlockIter_Valid it" using entries_at_less [OF it(3)] by (simp add: BlockIter_Valid_def)
  show ?thesis
  proof (cases "?n < iter_limit it")
    case True
    then show ?thesis
      using ParseEntry_on [of "it\<lparr>iter_data := ?n\<rparr>" kvs ?n rest] it d v by (simp add: BlockIter_Next_def Let_def)
  next
    case False
    with d(4) have "rest = []" by (rule entries_at_end)
    then show ?thesis
      using False v d(1,2) block_on_Nil [OF it(1)] by (simp add: BlockIter_Next_def Let_def)
  qed
qed

lemma BlockIter_Valid_on: "block_on kvs it rest \<Longrightarrow> BlockIter_Valid it \<longleftrightarrow> rest \<noteq> []"
  by (cases rest) (auto simp: block_on_def BlockIter_Valid_def dest: entries_at_less)

lemma BlockIter_value_on:
  assumes "block_on kvs it ((k, v) # rest)"
  shows "BlockIter_value it = Some v"
proof -
  let ?buf = "block_data (iter_block it)"
  obtain prev where it: "iterates it kvs"
      "entries_at ?buf (iter_limit it) (iter_data it) prev ((k, v) # rest)"
    using assms by (auto simp: block_on_def)
  obtain sh ns vl q where d:
      "DecodeEntry ?buf (iter_data it) (iter_limit it) = Some (Some (sh, ns, vl, q))"
      "unat vl = length v" "q + unat ns + length v \<le> iter_limit it"
      "take (length v) (drop (q + unat ns) ?buf) = v"
    using entries_at_decode [OF it(2) iterates_limit [OF it(1)]] by blast
  then show ?thesis
    using iterates_limit [OF it(1)] by (simp add: BlockIter_value_def read_bytes_def)
qed

interpretation bi: cursor "block_on kvs" BlockIter_Valid BlockIter_Next BlockIter_key BlockIter_value
  for kvs
  by unfold_locales
    (auto simp: BlockIter_Valid_on BlockIter_value_on BlockIter_Next_on, simp add: block_on_def BlockIter_key_def)


subsection \<open>Positioning the iterator\<close>

lemma holds_at_concat_nth:
  assumes "holds_at buf p (concat (map f xs))" and "\<And>x. length (f x) = n" and "i < length xs"
  shows "holds_at buf (p + i * n) (f (xs ! i))"
proof -
  have "map f xs = map f (take i xs) @ f (xs ! i) # map f (drop (Suc i) xs)"
    using id_take_nth_drop [OF assms(3)] by (metis list.simps(9) map_append)
  moreover have "length (concat (map f (take i xs))) = i * n"
    using assms(2,3) by (simp add: length_concat comp_def sum_list_triv min_def)
  ultimately show ?thesis
    using assms(1) by (simp add: holds_at_append)
qed

lemma GetRestartPoint_at:
  assumes "iterates it kvs"
  shows "\<exists>rs. num_restarts it = length rs
    \<and> restarts_ok (block_data (iter_block it)) (iter_limit it) rs kvs
    \<and> (\<forall>i < length rs. GetRestartPoint it i = Some (unat (rs ! i)))"
proof -
  let ?buf = "block_data (iter_block it)"
  obtain rs where rs: "num_restarts it = length rs" "restarts_ok ?buf (iter_limit it) rs kvs"
      "holds_at ?buf (restart_offset it) (concat (map EncodeFixed32 rs))"
    using assms by (auto simp: iterates_def Let_def)
  have "GetRestartPoint it i = Some (unat (rs ! i))" if "i < length rs" for i
  proof -
    have h: "holds_at ?buf (restart_offset it + i * 4) (EncodeFixed32 (rs ! i))"
      using holds_at_concat_nth [OF rs(3) _ that] by simp
    then have "restart_offset it + i * 4 + 4 \<le> length ?buf"
      using holds_at_length [OF h] length_EncodeFixed(1) [of "rs ! i"] by (cases "EncodeFixed32 (rs ! i) = []") auto
    then show ?thesis
      using DecodeFixed32_at [OF h] by (simp add: GetRestartPoint_def Let_def)
  qed
  with rs show ?thesis by blast
qed

lemma restarts_ok_nth:
  assumes "restarts_ok buf limit rs kvs" and "i < length rs"
  shows "\<exists>n. entries_at buf limit (unat (rs ! i)) [] (drop n kvs) \<and> (n < length kvs \<or> kvs = [])"
  using assms nth_mem by (auto simp: restarts_ok_def)

lemma BlockIter_SeekToFirst_on:
  assumes "iterates it kvs"
  shows "\<exists>it'. BlockIter_SeekToFirst it = Some it' \<and> block_on kvs it' kvs"
proof -
  let ?buf = "block_data (iter_block it)"
  obtain rs where rs: "num_restarts it = length rs" "restarts_ok ?buf (iter_limit it) rs kvs"
      "\<forall>i < length rs. GetRestartPoint it i = Some (unat (rs ! i))"
    using GetRestartPoint_at [OF assms] by blast
  then have r0: "GetRestartPoint it 0 = Some 0" "num_restarts it \<noteq> 0"
    by (auto simp: restarts_ok_def hd_conv_nth)
  have e: "entries_at ?buf (iter_limit it) 0 [] kvs" using assms by (simp add: iterates_def Let_def)
  show ?thesis
  proof (cases "0 < iter_limit it")
    case True
    then have "\<exists>it'. ParseEntry (it\<lparr>iter_data := 0, key_buffer := []\<rparr>) 0 = Some it' \<and> block_on kvs it' kvs"
      using assms e by (intro ParseEntry_on) simp_all
    then show ?thesis using r0 by (simp add: BlockIter_SeekToFirst_def)
  next
    case False
    with e have "kvs = []" by (rule entries_at_end)
    have "ParseEntry (it\<lparr>iter_data := 0, key_buffer := []\<rparr>) 0
        = Some (it\<lparr>iter_data := iter_limit it, key_buffer := []\<rparr>)"
      using False by (simp add: ParseEntry_def DecodeEntry_def)
    then have "BlockIter_SeekToFirst it = Some (it\<lparr>iter_data := iter_limit it, key_buffer := []\<rparr>)"
      using r0 by (simp add: BlockIter_SeekToFirst_def)
    with \<open>kvs = []\<close> assms show ?thesis by (simp add: block_on_def)
  qed
qed

lemma BlockIter_SeekToLast_loop_on:
  assumes "iterates it kvs" and "entries_at (block_data (iter_block it)) (iter_limit it) p (key_buffer it) rest"
    and "rest \<noteq> []"
  shows "\<exists>it'. BlockIter_SeekToLast_loop it p = Some it' \<and> block_on kvs it' [last rest]"
  using assms
proof (induction rest arbitrary: it p)
  case (Cons e rest)
  obtain k v where e: "e = (k, v)" by force
  let ?buf = "block_data (iter_block it)" and ?it = "it\<lparr>iter_data := p, key_buffer := k\<rparr>"
  have p: "p < iter_limit it" using entries_at_less [OF Cons.prems(2)] .
  have parse: "ParseEntry (it\<lparr>iter_data := p\<rparr>) p = Some ?it"
    using ParseEntry_at [of "it\<lparr>iter_data := p\<rparr>" p "key_buffer it" k v rest] Cons.prems
      iterates_limit [OF Cons.prems(1)] e by simp
  obtain sh ns vl q where d: "DecodeEntry ?buf p (iter_limit it) = Some (Some (sh, ns, vl, q))"
      "unat vl = length v" "entries_at ?buf (iter_limit it) (q + unat ns + length v) k rest"
    using entries_at_decode [OF Cons.prems(2) [unfolded e] iterates_limit [OF Cons.prems(1)]] by blast
  have step: "BlockIter_SeekToLast_loop it p = BlockIter_SeekToLast_loop ?it (q + unat ns + length v)"
    using p parse d(1,2) by (subst BlockIter_SeekToLast_loop.simps) (simp add: BlockIter_Valid_def)
  show ?case
  proof (cases "rest = []")
    case True
    then have "BlockIter_SeekToLast_loop ?it (q + unat ns + length v) = Some ?it"
      using d(3) by (subst BlockIter_SeekToLast_loop.simps) simp
    moreover have "block_on kvs ?it [e]"
      using Cons.prems(1,2) True e by (auto simp: block_on_def)
    ultimately show ?thesis using step True by simp
  next
    case False
    then show ?thesis using Cons.IH [of ?it] Cons.prems(1) d(3) step by simp
  qed
qed simp

lemma BlockIter_SeekToLast_on:
  assumes "iterates it kvs" and "kvs \<noteq> []"
  shows "\<exists>it'. BlockIter_SeekToLast it = Some it' \<and> block_on kvs it' [last kvs]"
proof -
  let ?buf = "block_data (iter_block it)"
  obtain rs where rs: "num_restarts it = length rs" "restarts_ok ?buf (iter_limit it) rs kvs"
      "\<forall>i < length rs. GetRestartPoint it i = Some (unat (rs ! i))"
    using GetRestartPoint_at [OF assms(1)] by blast
  then have ne: "num_restarts it \<noteq> 0" by (simp add: restarts_ok_def)
  let ?i = "num_restarts it - 1"
  obtain n where n: "entries_at ?buf (iter_limit it) (unat (rs ! ?i)) [] (drop n kvs)" "n < length kvs"
    using restarts_ok_nth [OF rs(2), of ?i] ne rs(1) assms(2) by auto
  then have "drop n kvs \<noteq> []" and l: "last (drop n kvs) = last kvs" by simp_all
  then have "\<not> iter_limit it \<le> unat (rs ! ?i)"
    using n(1) entries_at_less by (cases "drop n kvs") (auto simp: not_le)
  then show ?thesis
    using BlockIter_SeekToLast_loop_on [of "it\<lparr>key_buffer := []\<rparr>" kvs "unat (rs ! ?i)" "drop n kvs"]
      assms(1) n(1) \<open>drop n kvs \<noteq> []\<close> l ne rs(1,3) by (simp add: BlockIter_SeekToLast_def Let_def)
qed

definition ikey_sorted :: "(bytes \<times> 'v) list \<Rightarrow> bool" where
  "ikey_sorted kvs \<longleftrightarrow> sorted_wrt (\<lambda>a b. CompareInternalKeys (fst a) (fst b) \<le> 0) kvs"

abbreviation ikey_below :: "bytes \<Rightarrow> bytes \<times> 'v \<Rightarrow> bool" where
  "ikey_below target e \<equiv> CompareInternalKeys (fst e) target < 0"

lemma BlockIter_Seek_scan_on:
  assumes "iterates it kvs" and "entries_at (block_data (iter_block it)) (iter_limit it) p (key_buffer it) rest"
  shows "\<exists>it'. BlockIter_Seek_scan it target p = Some it'
    \<and> block_on kvs it' (dropWhile (ikey_below target) rest)"
  using assms
proof (induction rest arbitrary: it p)
  case Nil
  then show ?case
    by (subst BlockIter_Seek_scan.simps) (simp add: DecodeEntry_def block_on_Nil)
next
  case (Cons e rest)
  obtain k v where e: "e = (k, v)" by force
  let ?buf = "block_data (iter_block it)"
  obtain sh ns vl q where d: "DecodeEntry ?buf p (iter_limit it) = Some (Some (sh, ns, vl, q))"
      "unat sh \<le> length (key_buffer it)" "take (unat sh) (key_buffer it) @ take (unat ns) (drop q ?buf) = k"
      "unat vl = length v" "q + unat ns + length v \<le> iter_limit it"
      "entries_at ?buf (iter_limit it) (q + unat ns + length v) k rest"
    using entries_at_decode [OF Cons.prems(2) [unfolded e] iterates_limit [OF Cons.prems(1)]] by blast
  show ?case
  proof (cases "ikey_below target e")
    case False
    then show ?thesis
      using ParseEntry_on [of "it\<lparr>iter_data := p\<rparr>" kvs p "e # rest"] Cons.prems
        entries_at_less [OF Cons.prems(2)] d e
      by (subst BlockIter_Seek_scan.simps) (simp add: Let_def)
  next
    case True
    show ?thesis
    proof (cases "q + unat ns + length v < iter_limit it")
      case lt: True
      then show ?thesis
        using Cons.IH [of "it\<lparr>key_buffer := k\<rparr>"] Cons.prems(1) d e True
        by (subst BlockIter_Seek_scan.simps) (simp add: Let_def)
    next
      case False
      with d(6) have "rest = []" by (rule entries_at_end)
      then show ?thesis
        using False d e True block_on_Nil [OF Cons.prems(1)]
        by (subst BlockIter_Seek_scan.simps) (simp add: Let_def)
    qed
  qed
qed

text \<open>The search stops at restart point 0 or at one whose first key is below the target.\<close>

definition restart_below :: "BlockIter \<Rightarrow> (bytes \<times> bytes) list \<Rightarrow> bytes \<Rightarrow> nat \<Rightarrow> bool" where
  "restart_below it kvs target i \<longleftrightarrow>
     (\<exists>p n e rest. GetRestartPoint it i = Some p \<and> n < length kvs \<and> drop n kvs = e # rest
        \<and> entries_at (block_data (iter_block it)) (iter_limit it) p [] (drop n kvs)
        \<and> ikey_below target e)"

lemma BlockIter_Seek_search_on:
  assumes "iterates it kvs" and "kvs \<noteq> []" and "right < num_restarts it" and "left \<le> right"
    and "left = 0 \<or> restart_below it kvs target left"
  shows "\<exists>l < num_restarts it. BlockIter_Seek_search it target left right = Some l
    \<and> (l = 0 \<or> restart_below it kvs target l)"
  using assms(3-5)
proof (induction "right - left" arbitrary: left right rule: less_induct)
  case less
  let ?buf = "block_data (iter_block it)" and ?mid = "(left + right + 1) div 2"
  show ?case
  proof (cases "left < right")
    case False
    with less.prems show ?thesis by (subst BlockIter_Seek_search.simps) auto
  next
    case True
    obtain rs where rs: "num_restarts it = length rs" "restarts_ok ?buf (iter_limit it) rs kvs"
        "\<forall>i < length rs. GetRestartPoint it i = Some (unat (rs ! i))"
      using GetRestartPoint_at [OF assms(1)] by blast
    have mid: "?mid < length rs" "?mid \<le> right" "left \<le> ?mid - 1" "left < ?mid"
      using True less.prems(1) rs(1) by auto
    then obtain n where n: "entries_at ?buf (iter_limit it) (unat (rs ! ?mid)) [] (drop n kvs)" "n < length kvs"
      using restarts_ok_nth [OF rs(2)] assms(2) by blast
    then obtain k v rest where kv: "drop n kvs = (k, v) # rest"
      by (metis Cons_nth_drop_Suc surj_pair)
    obtain sh ns vl q where d: "DecodeEntry ?buf (unat (rs ! ?mid)) (iter_limit it) = Some (Some (sh, ns, vl, q))"
        "unat sh \<le> 0" "take (unat sh) [] @ take (unat ns) (drop q ?buf) = k"
        "unat vl = length v" "q + unat ns + length v \<le> iter_limit it"
      using entries_at_decode [OF n(1) [unfolded kv] iterates_limit [OF assms(1)]] by auto
    have p: "GetRestartPoint it ?mid = Some (unat (rs ! ?mid))" using rs(3) mid(1) by simp
    have key: "take (unat ns) (drop q ?buf) = k" using d(3) by simp
    show ?thesis
    proof (cases "CompareInternalKeys k target < 0")
      case below: True
      have "restart_below it kvs target ?mid"
        using p n kv below by (fastforce simp: restart_below_def)
      moreover have "BlockIter_Seek_search it target left right = BlockIter_Seek_search it target ?mid right"
        using True p d key below by (subst BlockIter_Seek_search.simps) simp
      ultimately show ?thesis
        using less.hyps [of right ?mid] less.prems(1) mid by simp
    next
      case False
      then have "BlockIter_Seek_search it target left right = BlockIter_Seek_search it target left (?mid - 1)"
        using True p d key by (subst BlockIter_Seek_search.simps) simp
      then show ?thesis
        using less.hyps [of "?mid - 1" left] less.prems mid by simp
    qed
  qed
qed

lemma BlockIter_Seek_search_empty:
  assumes "iterates it []" and "right < num_restarts it" and "left \<le> right"
  shows "BlockIter_Seek_search it target left right = Some left"
proof (cases "left < right")
  case True
  let ?mid = "(left + right + 1) div 2"
  obtain rs where rs: "num_restarts it = length rs"
      "restarts_ok (block_data (iter_block it)) (iter_limit it) rs []"
      "\<forall>i < length rs. GetRestartPoint it i = Some (unat (rs ! i))"
    using GetRestartPoint_at [OF assms(1)] by blast
  have "?mid < length rs" using True assms(2) rs(1) by simp
  then have "GetRestartPoint it ?mid = Some (iter_limit it)"
    using rs(3) restarts_ok_nth [OF rs(2)] by fastforce
  then show ?thesis
    using True by (subst BlockIter_Seek_search.simps) (simp add: DecodeEntry_def)
next
  case False
  then show ?thesis by (subst BlockIter_Seek_search.simps) simp
qed

lemma dropWhile_below_drop:
  assumes "ikey_sorted kvs" and "n < length kvs" and "drop n kvs = e # rest" and "ikey_below target e"
  shows "dropWhile (ikey_below target) kvs = dropWhile (ikey_below target) (drop n kvs)"
proof -
  have "ikey_below target x" if "x \<in> set (take n kvs)" for x
  proof -
    from that obtain i where i: "i < n" "x = kvs ! i" using assms(2) by (auto simp: in_set_conv_nth)
    have "kvs ! n = e" using assms(2,3) by (metis Cons_nth_drop_Suc list.inject)
    then have "CompareInternalKeys (fst x) (fst e) \<le> 0"
      using assms(1,2) i by (auto simp: ikey_sorted_def sorted_wrt_iff_nth_less)
    with assms(4) show ?thesis
      by (auto simp: CompareInternalKeys_rank split: if_splits)
  qed
  then have "dropWhile (ikey_below target) (take n kvs @ drop n kvs) = dropWhile (ikey_below target) (drop n kvs)"
    by (rule dropWhile_append2)
  then show ?thesis by (simp only: append_take_drop_id)
qed

lemma BlockIter_Seek_start:
  assumes "iterates it kvs" and "ikey_sorted kvs"
  shows "\<exists>l p rest. BlockIter_Seek_search it target 0 (num_restarts it - 1) = Some l
    \<and> GetRestartPoint it l = Some p
    \<and> entries_at (block_data (iter_block it)) (iter_limit it) p [] rest
    \<and> dropWhile (ikey_below target) rest = dropWhile (ikey_below target) kvs"
proof -
  let ?buf = "block_data (iter_block it)"
  obtain rs where rs: "num_restarts it = length rs" "restarts_ok ?buf (iter_limit it) rs kvs"
      "\<forall>i < length rs. GetRestartPoint it i = Some (unat (rs ! i))"
    using GetRestartPoint_at [OF assms(1)] by blast
  then have r0: "GetRestartPoint it 0 = Some 0" "0 < num_restarts it"
    by (auto simp: restarts_ok_def hd_conv_nth)
  have e: "entries_at ?buf (iter_limit it) 0 [] kvs" using assms(1) by (simp add: iterates_def Let_def)
  show ?thesis
  proof (cases "kvs = []")
    case True
    have "BlockIter_Seek_search it target 0 (num_restarts it - 1) = Some 0"
      using BlockIter_Seek_search_empty [OF assms(1) [unfolded True]] r0(2) by simp
    then show ?thesis using r0 e by blast
  next
    case False
    then obtain l where l: "BlockIter_Seek_search it target 0 (num_restarts it - 1) = Some l"
        "l = 0 \<or> restart_below it kvs target l"
      using BlockIter_Seek_search_on [OF assms(1) False, of "num_restarts it - 1" 0] r0(2) by auto
    then show ?thesis
      using r0(1) e dropWhile_below_drop [OF assms(2)] unfolding restart_below_def by metis
  qed
qed

lemma BlockIter_Seek_on:
  assumes "iterates it kvs" and "ikey_sorted kvs"
  shows "\<exists>it'. BlockIter_Seek it target = Some it' \<and> block_on kvs it' (dropWhile (ikey_below target) kvs)"
proof -
  let ?buf = "block_data (iter_block it)"
  obtain rs where rs: "num_restarts it = length rs" "restarts_ok ?buf (iter_limit it) rs kvs"
      "\<forall>i < length rs. GetRestartPoint it i = Some (unat (rs ! i))"
    using GetRestartPoint_at [OF assms(1)] by blast
  then have ne: "0 < num_restarts it" by (simp add: restarts_ok_def)
  have e: "entries_at ?buf (iter_limit it) 0 [] kvs" using assms(1) by (simp add: iterates_def Let_def)
  obtain l p rest where l: "BlockIter_Seek_search it target 0 (num_restarts it - 1) = Some l"
      "GetRestartPoint it l = Some p" "entries_at ?buf (iter_limit it) p [] rest"
      "dropWhile (ikey_below target) rest = dropWhile (ikey_below target) kvs"
    using BlockIter_Seek_start [OF assms] by blast
  have "\<exists>it'. BlockIter_Seek_scan (it\<lparr>key_buffer := []\<rparr>) target p = Some it'
      \<and> block_on kvs it' (dropWhile (ikey_below target) rest)"
    using assms(1) l(3) by (intro BlockIter_Seek_scan_on) simp_all
  then show ?thesis
    using l ne by (simp add: BlockIter_Seek_def)
qed


subsection \<open>What \<open>BlockBuilder\<close> builds\<close>

lemma shared_prefix_le: "shared_prefix a b \<le> length a \<and> shared_prefix a b \<le> length b"
  by (induction a b rule: shared_prefix.induct) auto

lemma take_shared_prefix: "take (shared_prefix a b) a = take (shared_prefix a b) b"
  by (induction a b rule: shared_prefix.induct) auto

lemma entries_at_snoc:
  assumes "entries_at buf (length buf) p prev kvs"
    and "shared \<le> length (if kvs = [] then prev else fst (last kvs))" and "shared \<le> length k"
    and "take shared (if kvs = [] then prev else fst (last kvs)) = take shared k"
    and "length k < 2 ^ 32" and "length v < 2 ^ 32"
  shows "entries_at (buf @ entry_bytes shared k v) (length buf + length (entry_bytes shared k v)) p prev (kvs @ [(k, v)])"
  using assms(1,2,4)
proof (induction kvs arbitrary: p prev)
  case Nil
  have "holds_at (buf @ entry_bytes shared k v) (length buf) (entry_bytes shared k v)"
    using holds_at_self [of buf "entry_bytes shared k v" "[]"] by simp
  then show ?case using Nil assms(3,5,6) by auto
next
  case (Cons e kvs)
  obtain k' v' where e: "e = (k', v')" by force
  obtain sh where sh: "sh \<le> length prev" "sh \<le> length k'" "take sh prev = take sh k'"
      "length k' < 2 ^ 32" "length v' < 2 ^ 32" "holds_at buf p (entry_bytes sh k' v')"
      "p + length (entry_bytes sh k' v') \<le> length buf"
      "entries_at buf (length buf) (p + length (entry_bytes sh k' v')) k' kvs"
    using Cons.prems(1) e by auto
  have "entries_at (buf @ entry_bytes shared k v) (length buf + length (entry_bytes shared k v))
      (p + length (entry_bytes sh k' v')) k' (kvs @ [(k, v)])"
    using Cons.prems(2,3) e by (intro Cons.IH [OF sh(8)]) (auto split: if_splits)
  moreover have "holds_at (buf @ entry_bytes shared k v) p (entry_bytes sh k' v')"
    using sh(6) entry_bytes_pos [of sh k' v'] by (intro holds_at_extend) auto
  ultimately show ?case
    unfolding e append_Cons entries_at.simps using sh by (intro exI [of _ sh]) simp
qed

text \<open>Upper bounds for the size of the block that the entries need.\<close>

definition entries_size :: "(bytes \<times> bytes) list \<Rightarrow> nat" where
  "entries_size kvs = sum_list (map (\<lambda>(k, v). length k + length v + 19) kvs)"

lemma entries_size_simps [simp]:
  "entries_size [] = 0"
  "entries_size (kvs @ [(k, v)]) = entries_size kvs + (length k + length v + 19)"
  by (simp_all add: entries_size_def)

definition builder_has :: "BlockBuilder \<Rightarrow> (bytes \<times> bytes) list \<Rightarrow> bool" where
  "builder_has b kvs \<longleftrightarrow>
     entries_at (bb_buffer b) (length (bb_buffer b)) 0 [] kvs
     \<and> restarts_ok (bb_buffer b) (length (bb_buffer b)) (bb_restarts b) kvs
     \<and> bb_last_key b = (if kvs = [] then [] else fst (last kvs))
     \<and> \<not> bb_finished b
     \<and> length (bb_buffer b) + 4 * length (bb_restarts b) \<le> entries_size kvs + 4"

lemma builder_has_new: "builder_has (BlockBuilder_new n) []"
  by (simp add: builder_has_def BlockBuilder_new_def restarts_ok_def)

lemma builder_has_Reset: "builder_has (BlockBuilder_Reset b) []"
  by (simp add: builder_has_def BlockBuilder_Reset_def restarts_ok_def)

lemma restarts_ok_snoc:
  assumes "restarts_ok buf (length buf) rs kvs"
    and "shared \<le> length (if kvs = [] then [] else fst (last kvs))" and "shared \<le> length k"
    and "take shared (if kvs = [] then [] else fst (last kvs)) = take shared k"
    and "length k < 2 ^ 32" and "length v < 2 ^ 32"
  shows "restarts_ok (buf @ entry_bytes shared k v) (length buf + length (entry_bytes shared k v)) rs (kvs @ [(k, v)])"
  unfolding restarts_ok_def
proof (intro conjI ballI)
  fix r assume "r \<in> set rs"
  then obtain n where n: "entries_at buf (length buf) (unat r) [] (drop n kvs)" "n < length kvs \<or> kvs = []"
    using assms(1) by (auto simp: restarts_ok_def)
  then have "entries_at (buf @ entry_bytes shared k v) (length buf + length (entry_bytes shared k v)) (unat r) []
      (drop n kvs @ [(k, v)])"
    using assms(2-6) by (intro entries_at_snoc) (auto split: if_splits)
  moreover have "drop n kvs @ [(k, v)] = drop (if kvs = [] then 0 else n) (kvs @ [(k, v)])"
    using n(2) by auto
  moreover have "(if kvs = [] then 0 else n) < length (kvs @ [(k, v)])" using n(2) by auto
  ultimately show "\<exists>n. entries_at (buf @ entry_bytes shared k v) (length buf + length (entry_bytes shared k v))
      (unat r) [] (drop n (kvs @ [(k, v)])) \<and> (n < length (kvs @ [(k, v)]) \<or> kvs @ [(k, v)] = [])"
    by metis
qed (use assms(1) in \<open>auto simp: restarts_ok_def\<close>)


lemma BlockBuilder_Add_eq:
  assumes "length k < 2 ^ 32" and "length v < 2 ^ 32"
  defines "fresh b \<equiv> \<not> bb_counter b < bb_restart_interval b"
  defines "shared b \<equiv> if fresh b then 0 else shared_prefix (bb_last_key b) k"
  shows "bb_buffer (BlockBuilder_Add b k v) = bb_buffer b @ entry_bytes (shared b) k v"
    and "bb_restarts (BlockBuilder_Add b k v) =
      bb_restarts b @ (if fresh b then [word_of_nat (length (bb_buffer b))] else [])"
    and "bb_last_key (BlockBuilder_Add b k v) = k"
    and "bb_finished (BlockBuilder_Add b k v) = bb_finished b"
proof -
  have u: "unat (word_of_nat (length k - n) :: u32) = length k - n" for n
    by (rule unat_u32_of_nat) (use assms(1) in linarith)
  have t: "take (length k - n) (drop n k) = drop n k" for n by simp
  show "bb_buffer (BlockBuilder_Add b k v) = bb_buffer b @ entry_bytes (shared b) k v"
    unfolding BlockBuilder_Add_def entry_bytes_def Let_def PutVarint32_eq u t shared_def fresh_def
    by (simp split: if_split)
qed (simp_all add: BlockBuilder_Add_def Let_def fresh_def split: if_split)

lemma builder_has_Add:
  assumes "builder_has b kvs" and size: "entries_size (kvs @ [(k, v)]) + 12 < 2 ^ 32"
  shows "builder_has (BlockBuilder_Add b k v) (kvs @ [(k, v)])"
proof -
  let ?last = "if kvs = [] then [] else fst (last kvs)"
  let ?fresh = "\<not> bb_counter b < bb_restart_interval b"
  define shared where "shared = (if ?fresh then 0 else shared_prefix (bb_last_key b) k)"
  have kv: "length k < 2 ^ 32" "length v < 2 ^ 32" "length (bb_buffer b) < 2 ^ 32"
    using size assms(1) by (simp_all add: builder_has_def)
  note add = BlockBuilder_Add_eq [OF kv(1,2), of b, folded shared_def]
  have sh: "shared \<le> length ?last" "shared \<le> length k" "take shared ?last = take shared k"
    using assms(1) shared_prefix_le [of ?last k] take_shared_prefix [of ?last k]
    by (auto simp: shared_def builder_has_def)
  let ?buf = "bb_buffer b @ entry_bytes shared k v"
  let ?lim = "length (bb_buffer b) + length (entry_bytes shared k v)"
  have e: "entries_at ?buf ?lim 0 [] (kvs @ [(k, v)])"
    using assms(1) sh kv by (intro entries_at_snoc) (auto simp: builder_has_def)
  have r: "restarts_ok ?buf ?lim (bb_restarts b) (kvs @ [(k, v)])"
    using assms(1) sh kv by (intro restarts_ok_snoc) (auto simp: builder_has_def)
  have "restarts_ok ?buf ?lim (bb_restarts (BlockBuilder_Add b k v)) (kvs @ [(k, v)])"
  proof (cases ?fresh)
    case True
    then have "entries_at ?buf ?lim (length (bb_buffer b)) [] [(k, v)]"
      using entries_at_snoc [of "bb_buffer b" "length (bb_buffer b)" "[]" "[]" shared k v] kv
      by (simp add: shared_def)
    then have "entries_at ?buf ?lim (unat (word_of_nat (length (bb_buffer b)) :: u32)) []
        (drop (length kvs) (kvs @ [(k, v)]))"
      unfolding unat_u32_of_nat [OF kv(3)] by simp
    then have "\<exists>n. entries_at ?buf ?lim (unat (word_of_nat (length (bb_buffer b)) :: u32)) []
        (drop n (kvs @ [(k, v)])) \<and> n < length (kvs @ [(k, v)])"
      by (intro exI [of _ "length kvs"]) simp
    with r show ?thesis unfolding add(2) restarts_ok_def by auto
  qed (use r add(2) in simp)
  moreover have "length ?buf + 4 * length (bb_restarts (BlockBuilder_Add b k v)) \<le> entries_size (kvs @ [(k, v)]) + 4"
    using assms(1) length_entry_bytes_le [of shared k v] by (simp add: add(2) builder_has_def)
  ultimately show ?thesis
    using e assms(1) by (simp add: builder_has_def add)
qed

definition BlockBuilder_Add_all :: "BlockBuilder \<Rightarrow> (bytes \<times> bytes) list \<Rightarrow> BlockBuilder" where
  "BlockBuilder_Add_all b kvs = foldl (\<lambda>b (k, v). BlockBuilder_Add b k v) b kvs"

lemma builder_has_Add_all:
  "builder_has b [] \<Longrightarrow> entries_size kvs + 12 < 2 ^ 32 \<Longrightarrow> builder_has (BlockBuilder_Add_all b kvs) kvs"
proof (induction kvs rule: rev_induct)
  case (snoc e kvs)
  obtain k v where e: "e = (k, v)" by force
  then have "builder_has (BlockBuilder_Add_all b kvs) kvs" using snoc by simp
  from builder_has_Add [OF this] snoc.prems(2) e show ?case
    by (simp add: BlockBuilder_Add_all_def)
qed (simp add: BlockBuilder_Add_all_def)

lemma Finish_loop_eq: "BlockBuilder_Finish_loop buf rs = buf @ concat (map EncodeFixed32 rs)"
  by (induction buf rs rule: BlockBuilder_Finish_loop.induct) (simp_all add: PutFixed32_def EncodeFixed32_def)

lemma entries_at_extend:
  "entries_at buf limit p prev kvs \<Longrightarrow> entries_at (buf @ post) limit p prev kvs"
proof (induction kvs arbitrary: p prev)
  case (Cons e kvs)
  obtain k v where e: "e = (k, v)" by force
  then obtain sh where sh: "sh \<le> length prev" "sh \<le> length k" "take sh prev = take sh k"
      "length k < 2 ^ 32" "length v < 2 ^ 32" "holds_at buf p (entry_bytes sh k v)"
      "p + length (entry_bytes sh k v) \<le> limit"
      "entries_at buf limit (p + length (entry_bytes sh k v)) k kvs"
    using Cons.prems by auto
  moreover have "holds_at (buf @ post) p (entry_bytes sh k v)"
    using sh(6) entry_bytes_pos [of sh k v] by (intro holds_at_extend) auto
  ultimately show ?case
    unfolding e entries_at.simps using Cons.IH by (intro exI [of _ sh]) simp
qed simp

lemma restarts_ok_extend:
  "restarts_ok buf limit rs kvs \<Longrightarrow> restarts_ok (buf @ post) limit rs kvs"
  using entries_at_extend unfolding restarts_ok_def by blast

lemma BlockBuilder_Finish_eq:
  assumes "\<not> bb_finished b"
  defines "body \<equiv> bb_buffer b @ concat (map EncodeFixed32 (bb_restarts b))
     @ EncodeFixed32 (word_of_nat (length (bb_restarts b)))"
  shows "bb_buffer (BlockBuilder_Finish b) = body @ EncodeFixed32 (Crc32c body)"
  using assms
  by (simp add: BlockBuilder_Finish_def Let_def Finish_loop_eq PutFixed32_def EncodeFixed32_def)

lemma Block_new_checksum:
  "checksum_ok (Block_new (body @ EncodeFixed32 crc) True) \<longleftrightarrow> crc = Crc32c body"
proof -
  have "holds_at (body @ EncodeFixed32 crc) (length body) (EncodeFixed32 crc)"
    using holds_at_self [of body "EncodeFixed32 crc" "[]"] by simp
  then show ?thesis by (simp add: Block_new_def DecodeFixed32_at)
qed

lemma length_concat_EncodeFixed32: "length (concat (map EncodeFixed32 rs)) = 4 * length rs"
  by (induction rs) simp_all

lemma NewIterator_fields:
  assumes "block_data blk = buf @ concat (map EncodeFixed32 rs) @ EncodeFixed32 (word_of_nat (length rs))
      @ EncodeFixed32 crc"
    and "rs \<noteq> []" and "length (block_data blk) < 2 ^ 32"
  shows "Block_NewIterator blk = \<lparr>iter_block = blk, iter_data = 0, iter_limit = length buf,
    restart_offset = length buf, num_restarts = length rs, key_buffer = []\<rparr>"
proof -
  let ?n = "word_of_nat (length rs) :: u32"
  have len: "length (block_data blk) = length buf + 4 * length rs + 8"
    using assms(1) by (simp add: length_concat_EncodeFixed32)
  have "holds_at (block_data blk) (length (block_data blk) - 8) (EncodeFixed32 ?n)"
    using holds_at_self [of "buf @ concat (map EncodeFixed32 rs)" "EncodeFixed32 ?n" "EncodeFixed32 crc"] assms(1) len
    by (simp add: length_concat_EncodeFixed32)
  then have count: "DecodeFixed32 (block_data blk) (length (block_data blk) - 8) = ?n" by (rule DecodeFixed32_at)
  have n: "unat ?n = length rs" using len assms(3) by (intro unat_u32_of_nat) linarith
  then have pos: "0 < ?n" using assms(2) by (simp only: word_less_nat_alt unat_0) simp
  have "word_of_nat (length (block_data blk)) - (2 + ?n) * 4 = (word_of_nat (length buf) :: u32)"
    unfolding len by simp
  then have off: "unat (word_of_nat (length (block_data blk)) - (2 + ?n) * 4 :: u32) = length buf"
    using len assms(3) by (simp add: unat_u32_of_nat)
  have "8 \<le> length (block_data blk)" using len by simp
  then show ?thesis
    unfolding Block_NewIterator_def Let_def by (simp only: count off n pos if_True)
qed

lemma iterates_Finish:
  assumes "builder_has b kvs" and "entries_size kvs + 12 < 2 ^ 32"
    and "block_data blk = bb_buffer (BlockBuilder_Finish b)"
  shows "iterates (Block_NewIterator blk) kvs"
proof -
  let ?rs = "bb_restarts b" and ?buf = "bb_buffer b"
  obtain crc where d: "block_data blk = ?buf @ concat (map EncodeFixed32 ?rs)
      @ EncodeFixed32 (word_of_nat (length ?rs)) @ EncodeFixed32 crc"
    using assms(1,3) BlockBuilder_Finish_eq [of b] by (simp add: builder_has_def)
  have b: "entries_at ?buf (length ?buf) 0 [] kvs" "restarts_ok ?buf (length ?buf) ?rs kvs"
      "length ?buf + 4 * length ?rs \<le> entries_size kvs + 4"
    using assms(1) by (simp_all add: builder_has_def)
  have "length (block_data blk) < 2 ^ 32"
    using b(3) assms(2) d by (simp add: length_concat_EncodeFixed32)
  then have it: "Block_NewIterator blk = \<lparr>iter_block = blk, iter_data = 0, iter_limit = length ?buf,
      restart_offset = length ?buf, num_restarts = length ?rs, key_buffer = []\<rparr>"
    using NewIterator_fields [OF d] b(2) by (simp add: restarts_ok_def)
  show ?thesis
    using entries_at_extend [OF b(1)] restarts_ok_extend [OF b(2)] d
    by (auto simp: iterates_def it Let_def intro!: exI [of _ ?rs])
qed

lemma checksum_ok_Finish:
  "\<not> bb_finished b \<Longrightarrow> checksum_ok (Block_new (bb_buffer (BlockBuilder_Finish b)) True)"
  using Block_new_checksum by (simp add: BlockBuilder_Finish_eq del: append_assoc)


subsection \<open>Blocks end to end\<close>

text \<open>A block as \<open>TableBuilder\<close> makes it: all entries added, then \<open>Finish\<close>.\<close>

definition build_block :: "nat \<Rightarrow> (bytes \<times> bytes) list \<Rightarrow> bytes" where
  "build_block interval kvs = bb_buffer (BlockBuilder_Finish (BlockBuilder_Add_all (BlockBuilder_new interval) kvs))"

lemma build_block_ok:
  assumes "entries_size kvs + 12 < 2 ^ 32"
  shows "iterates (Block_NewIterator (Block_new (build_block interval kvs) verify)) kvs"
    and "checksum_ok (Block_new (build_block interval kvs) True)"
proof -
  have b: "builder_has (BlockBuilder_Add_all (BlockBuilder_new interval) kvs) kvs"
    using builder_has_Add_all [OF builder_has_new assms] .
  show "iterates (Block_NewIterator (Block_new (build_block interval kvs) verify)) kvs"
    using iterates_Finish [OF b assms] by (simp add: build_block_def Block_new_def)
  show "checksum_ok (Block_new (build_block interval kvs) True)"
    using b checksum_ok_Finish by (simp add: build_block_def builder_has_def)
qed

text \<open>C6: A block round-trips: for every restart interval and every list of entries that fits
  in a block below 4 GiB, the block that \<open>BlockBuilder\<close> writes passes its checksum, and
  walking it from \<open>SeekToFirst\<close> with \<open>Next\<close> yields exactly the entries added, in
  order, without reading outside the block.\<close>

theorem block_roundtrip:
  assumes "entries_size kvs + 12 < 2 ^ 32"
  shows "let blk = Block_new (build_block interval kvs) True in checksum_ok blk \<and>
    (\<exists>it. BlockIter_SeekToFirst (Block_NewIterator blk) = Some it
      \<and> drain BlockIter_Valid BlockIter_Next BlockIter_key BlockIter_value (Suc (length kvs)) it = Some kvs)"
  using build_block_ok [OF assms] BlockIter_SeekToFirst_on bi.drain_on by (fastforce simp: Let_def)

theorem block_roundtrip_witness:
  "let kvs = [([0x61, 0x62], [1, 2]), ([0x61, 0x63, 0x64], []), ([0x62], [3])];
       blk = Block_new (build_block 2 kvs) True
   in checksum_ok blk \<and>
    (\<exists>it. BlockIter_SeekToFirst (Block_NewIterator blk) = Some it
      \<and> drain BlockIter_Valid BlockIter_Next BlockIter_key BlockIter_value (Suc (length kvs)) it = Some kvs)"
  using block_roundtrip [of "[([0x61, 0x62], [1, 2]), ([0x61, 0x63, 0x64], []), ([0x62], [3])]" 2]
  by (simp only: Let_def) (simp add: entries_size_def)

text \<open>C7: \<open>Block::Iterator::Seek\<close> is correct: on a block whose keys are in internal-key order it
  stops, for every restart interval, on the first entry that is not below the target (and
  becomes invalid when there is none); the entries that follow are the rest of the block.\<close>

theorem block_Seek:
  assumes "entries_size kvs + 12 < 2 ^ 32" and "ikey_sorted kvs"
  shows "\<exists>it. BlockIter_Seek (Block_NewIterator (Block_new (build_block interval kvs) verify)) target = Some it
    \<and> (BlockIter_Valid it \<longleftrightarrow> (\<exists>e. e \<in> set kvs \<and> CompareInternalKeys (fst e) target \<ge> 0))
    \<and> drain BlockIter_Valid BlockIter_Next BlockIter_key BlockIter_value (Suc (length kvs)) it
        = Some (dropWhile (\<lambda>e. CompareInternalKeys (fst e) target < 0) kvs)"
proof -
  obtain it where it: "BlockIter_Seek (Block_NewIterator (Block_new (build_block interval kvs) verify)) target = Some it"
      "block_on kvs it (dropWhile (ikey_below target) kvs)"
    using BlockIter_Seek_on [OF build_block_ok(1) [OF assms(1)] assms(2)] by blast
  have "length (dropWhile (ikey_below target) kvs) < Suc (length kvs)"
    by (simp add: length_dropWhile_le le_imp_less_Suc)
  moreover have "dropWhile (ikey_below target) kvs \<noteq> [] \<longleftrightarrow>
      (\<exists>e. e \<in> set kvs \<and> CompareInternalKeys (fst e) target \<ge> 0)"
    unfolding dropWhile_eq_Nil_conv by (meson not_less)
  ultimately show ?thesis
    using it bi.drain_on [OF it(2)] BlockIter_Valid_on [OF it(2)] by (simp del: drain.simps)
qed

theorem block_Seek_witness:
  "let kvs = [(MakeInternalKey [0x61] 5 kTypeValue, [1]), (MakeInternalKey [0x61] 3 kTypeValue, [2]),
              (MakeInternalKey [0x62] 4 kTypeDeletion, [])];
       target = SeekInternalKey [0x62]
   in \<exists>it. BlockIter_Seek (Block_NewIterator (Block_new (build_block 16 kvs) True)) target = Some it
    \<and> (BlockIter_Valid it \<longleftrightarrow> (\<exists>e. e \<in> set kvs \<and> CompareInternalKeys (fst e) target \<ge> 0))
    \<and> drain BlockIter_Valid BlockIter_Next BlockIter_key BlockIter_value (Suc (length kvs)) it
        = Some (dropWhile (\<lambda>e. CompareInternalKeys (fst e) target < 0) kvs)"
proof -
  let ?kvs = "[(MakeInternalKey [0x61] 5 kTypeValue, [1]), (MakeInternalKey [0x61] 3 kTypeValue, [2]),
              (MakeInternalKey [0x62] 4 kTypeDeletion, [])] :: (bytes \<times> bytes) list"
  have "entries_size ?kvs + 12 < 2 ^ 32" by (simp add: entries_size_def)
  moreover have "ikey_sorted ?kvs"
    by (simp add: ikey_sorted_def CompareInternalKeys_rank PackInternalTrailer_less)
  ultimately show ?thesis
    unfolding Let_def by (rule block_Seek)
qed

text \<open>A verified block detects every corruption of at most four consecutive bytes of its
  contents: if a block passes its checksum, it fails it after any such change.\<close>

theorem block_detects_burst:
  assumes "checksum_ok (Block_new (pre @ bs @ post @ EncodeFixed32 crc) True)"
    and "length bs = length bs'" and "length bs \<le> 4" and "bs \<noteq> bs'"
  shows "\<not> checksum_ok (Block_new (pre @ bs' @ post @ EncodeFixed32 crc) True)"
  using assms Block_new_checksum [of "pre @ bs @ post" crc] Block_new_checksum [of "pre @ bs' @ post" crc]
    Crc32c_burst [OF assms(2-4), of pre post] by simp

theorem block_detects_burst_witness:
  "\<not> checksum_ok (Block_new ([1] @ [9] @ [3] @ EncodeFixed32 (Crc32c [1, 2, 3])) True)"
  using block_detects_burst [of "[1]" "[2]" "[3]" "Crc32c [1, 2, 3]" "[9]"]
    Block_new_checksum [of "[1, 2, 3]" "Crc32c [1, 2, 3]"] by simp

subsection \<open>\<open>Prev\<close>\<close>

lemma prev_demo_builder:
  "let b = BlockBuilder_Add_all (BlockBuilder_new 16)
       [([0x61, 0x61, 0x62], []), ([0x61, 0x61, 0x63], []), ([0x62, 0x62, 0x62], [])]
   in bb_buffer b = [0, 3, 0, 0x61, 0x61, 0x62, 2, 1, 0, 0x63, 0, 3, 0, 0x62, 0x62, 0x62]
     \<and> bb_restarts b = [0] \<and> bb_finished b = False"
  by (simp add: BlockBuilder_Add_all_def BlockBuilder_Add_def BlockBuilder_new_def Let_def PutVarint32.simps
      word_le_nat_alt)

lemma prev_demo_run:
  "do { it \<leftarrow> BlockIter_SeekToLast (Block_NewIterator
          \<lparr>block_data = [0, 3, 0, 0x61, 0x61, 0x62, 2, 1, 0, 0x63, 0, 3, 0, 0x62, 0x62, 0x62,
             0, 0, 0, 0, 1, 0, 0, 0, c0, c1, c2, c3], verify_checksum = vc, checksum_ok = ck\<rparr>);
        it' \<leftarrow> BlockIter_Prev it;
        Some (BlockIter_key it, BlockIter_key it') } = Some ([0x62, 0x62, 0x62], [0x62, 0x62, 0x63])"
  by code_simp

text \<open>\<open>Block::Iterator::Prev\<close> rebuilds the previous entry's key from the wrong prefix: it
  re-parses the entry while \<open>key_buffer_\<close> holds the key of the entry it came from. On the
  block with the keys aab, aac, bbb, stepping back from bbb gives the key bbc, which is not
  in the block.\<close>

theorem block_Prev_wrong_key:
  "let kvs = [([0x61, 0x61, 0x62], []), ([0x61, 0x61, 0x63], []), ([0x62, 0x62, 0x62], [])]
   in \<exists>it it'. BlockIter_SeekToLast (Block_NewIterator (Block_new (build_block 16 kvs) verify)) = Some it
     \<and> BlockIter_key it = [0x62, 0x62, 0x62]
     \<and> BlockIter_Prev it = Some it' \<and> BlockIter_key it' = [0x62, 0x62, 0x63]
     \<and> BlockIter_key it' \<notin> fst ` set kvs"
proof -
  let ?kvs = "[([0x61, 0x61, 0x62], []), ([0x61, 0x61, 0x63], []), ([0x62, 0x62, 0x62], [])] :: (bytes \<times> bytes) list"
  let ?body = "[0, 3, 0, 0x61, 0x61, 0x62, 2, 1, 0, 0x63, 0, 3, 0, 0x62, 0x62, 0x62, 0, 0, 0, 0, 1, 0, 0, 0] :: bytes"
  have "build_block 16 ?kvs = ?body @ EncodeFixed32 (Crc32c ?body)"
    unfolding build_block_def using prev_demo_builder
    by (subst BlockBuilder_Finish_eq) (simp_all add: Let_def EncodeFixed32_def numeral_eq_Suc)
  then obtain c0 c1 c2 c3 where b: "build_block 16 ?kvs = ?body @ [c0, c1, c2, c3]"
    by (simp add: EncodeFixed32_def numeral_eq_Suc)
  obtain vc ck where n: "Block_new (build_block 16 ?kvs) verify =
      \<lparr>block_data = ?body @ [c0, c1, c2, c3], verify_checksum = vc, checksum_ok = ck\<rparr>"
    unfolding b Block_new_def by blast
  show ?thesis
    unfolding Let_def n append_Cons append_Nil
    using prev_demo_run [of c0 c1 c2 c3 vc ck] by (auto simp: bind_eq_Some_conv)
qed

end
