(* ===== verification/Lkv_Bloom.thy ===== *)
theory Lkv_Bloom
  imports Lkv_Encoding
begin

section \<open>Bloom filter (include/lightkv/bloom_filter.h, src/bloom_filter.cpp)\<close>

text \<open>
  The filter is a vector of 32-bit words; \<open>Add\<close> sets \<open>k\<close> bits chosen by double
  hashing and \<open>MayMatch\<close> tests them. A remainder by zero (a filter without bits) is
  undefined behaviour in C++; the operations return \<open>None\<close> there. The lemmas show that a
  filter has no false negatives and that it survives being written to a table file and read
  back.
\<close>

record BloomFilter =
  bits_per_key :: int
  bloom_k :: int
  bloom_bits :: "u32 list"

text \<open>\<open>static_cast<int>(bits_per_key * 0.69)\<close>, clamped to 1..30. The product is never
  integral below the upper clamp, so truncating the exact product gives the same number as
  truncating the \<open>double\<close>; negative products are clamped to 1 either way.\<close>

definition bloom_num_hashes :: "int \<Rightarrow> int" where
  "bloom_num_hashes bpk = (let k = bpk * 69 div 100 in if k < 1 then 1 else if k > 30 then 30 else k)"

definition BloomFilter_new :: "int \<Rightarrow> BloomFilter" where
  "BloomFilter_new bpk =
     \<lparr>bits_per_key = bpk, bloom_k = bloom_num_hashes bpk, bloom_bits = replicate 1024 0\<rparr>"

definition BloomFilter_default :: BloomFilter where
  "BloomFilter_default = \<lparr>bits_per_key = 10, bloom_k = 7, bloom_bits = []\<rparr>"

definition BloomFilter_of_data :: "u32 list \<Rightarrow> int \<Rightarrow> BloomFilter" where
  "BloomFilter_of_data data bpk =
     \<lparr>bits_per_key = bpk, bloom_k = bloom_num_hashes bpk, bloom_bits = data\<rparr>"

definition bloom_delta :: "u32 \<Rightarrow> u32" where
  "bloom_delta h = drop_bit 17 h OR push_bit 15 h"

definition bloom_total_bits :: "u32 list \<Rightarrow> u32" where
  "bloom_total_bits bits = word_of_nat (length bits * 32)"

fun BloomFilter_Add_loop :: "nat \<Rightarrow> u32 \<Rightarrow> u32 \<Rightarrow> u32 \<Rightarrow> u32 list \<Rightarrow> u32 list" where
  "BloomFilter_Add_loop 0 h delta total_bits bits = bits"
| "BloomFilter_Add_loop (Suc n) h delta total_bits bits =
     (let bit_pos = h mod total_bits;
          i = unat (bit_pos div 32)
      in BloomFilter_Add_loop n (h + delta) delta total_bits
           (bits[i := bits ! i OR push_bit (unat (bit_pos mod 32)) 1]))"

definition BloomFilter_Add :: "BloomFilter \<Rightarrow> bytes \<Rightarrow> BloomFilter option" where
  "BloomFilter_Add f key =
     (let h = Slice_Hash key;
          delta = bloom_delta h;
          total_bits = bloom_total_bits (bloom_bits f)
      in if total_bits = 0 then None
         else Some (f\<lparr>bloom_bits :=
                BloomFilter_Add_loop (nat (bloom_k f)) h delta total_bits (bloom_bits f)\<rparr>))"

fun BloomFilter_MayMatch_loop :: "nat \<Rightarrow> u32 \<Rightarrow> u32 \<Rightarrow> u32 \<Rightarrow> u32 list \<Rightarrow> bool" where
  "BloomFilter_MayMatch_loop 0 h delta total_bits bits = True"
| "BloomFilter_MayMatch_loop (Suc n) h delta total_bits bits =
     (let bit_pos = h mod total_bits;
          i = unat (bit_pos div 32)
      in if length bits \<le> i then False
         else if bits ! i AND push_bit (unat (bit_pos mod 32)) 1 = 0 then False
         else BloomFilter_MayMatch_loop n (h + delta) delta total_bits bits)"

definition BloomFilter_MayMatch :: "BloomFilter \<Rightarrow> bytes \<Rightarrow> bool option" where
  "BloomFilter_MayMatch f key =
     (if bloom_bits f = [] then Some True
      else let h = Slice_Hash key;
               delta = bloom_delta h;
               total_bits = bloom_total_bits (bloom_bits f)
           in if total_bits = 0 then None
              else Some (BloomFilter_MayMatch_loop (nat (bloom_k f)) h delta total_bits (bloom_bits f)))"

text \<open>\<open>data()\<close> and \<open>size()\<close> expose the vector's memory.\<close>

definition BloomFilter_data :: "BloomFilter \<Rightarrow> bytes" where
  "BloomFilter_data f = concat (map (le_bytes 4) (bloom_bits f))"

subsection \<open>No false negatives\<close>

definition bloom_wf :: "BloomFilter \<Rightarrow> bool" where
  "bloom_wf f \<longleftrightarrow> bloom_bits f \<noteq> [] \<and> length (bloom_bits f) < 2 ^ 27"

text \<open>Whether the bit at position \<open>q\<close> of the filter is set.\<close>

definition bit_at :: "u32 list \<Rightarrow> u32 \<Rightarrow> bool" where
  "bit_at bits q \<longleftrightarrow> bit (bits ! unat (q div 32)) (unat (q mod 32))"

lemma unat_div_32: "unat (q div 32 :: u32) = unat q div 32"
  by (simp add: unat_div)

lemma unat_mod_32: "unat (q mod 32 :: u32) = unat q mod 32"
  by (simp add: unat_mod)

lemma unat_total_bits:
  "length bits < 2 ^ 27 \<Longrightarrow> unat (bloom_total_bits bits) = length bits * 32"
  unfolding bloom_total_bits_def by (simp only: unsigned_of_nat) (simp add: take_bit_nat_eq_self)

lemma total_bits_nonzero:
  "bits \<noteq> [] \<Longrightarrow> length bits < 2 ^ 27 \<Longrightarrow> bloom_total_bits bits \<noteq> 0"
  using unat_total_bits [of bits] by (auto simp: unat_eq_0)

lemma bit_pos_index:
  assumes "bits \<noteq> []" and "length bits < 2 ^ 27"
  shows "unat (h mod bloom_total_bits bits div 32) < length bits"
proof -
  have "unat (h mod bloom_total_bits bits) < length bits * 32"
    using assms unat_total_bits [of bits] by (simp add: unat_mod)
  then show ?thesis by (simp add: unat_div_32 less_mult_imp_div_less)
qed

lemma bit_at_set:
  assumes "i = unat (p div 32)" and "i < length bits"
  shows "bit_at (bits[i := bits ! i OR push_bit (unat (p mod 32)) 1]) q \<longleftrightarrow> bit_at bits q \<or> q = p"
proof (cases "unat (q div 32) = i")
  case True
  have "q = p" if "unat (q mod 32) = unat (p mod 32)"
  proof (rule unsigned_word_eqI)
    have "unat q div 32 = unat p div 32" "unat q mod 32 = unat p mod 32"
      using True assms(1) that by (simp_all add: unat_div_32 unat_mod_32)
    then show "unat q = unat p" by (metis div_mult_mod_eq)
  qed
  moreover have "unat (q mod 32) < 32" by (simp add: unat_mod_32)
  ultimately show ?thesis
    using True assms by (auto simp: bit_at_def bit_simps)
next
  case False
  then have "q \<noteq> p" using assms(1) by auto
  with False show ?thesis by (simp add: bit_at_def)
qed

fun bloom_probes :: "nat \<Rightarrow> u32 \<Rightarrow> u32 \<Rightarrow> u32 \<Rightarrow> u32 set" where
  "bloom_probes 0 h delta tb = {}"
| "bloom_probes (Suc n) h delta tb = insert (h mod tb) (bloom_probes n (h + delta) delta tb)"

lemma length_Add_loop [simp]: "length (BloomFilter_Add_loop n h delta tb bits) = length bits"
  by (induction n h delta tb bits rule: BloomFilter_Add_loop.induct) (auto simp: Let_def)

lemma total_bits_Add_loop [simp]:
  "bloom_total_bits (BloomFilter_Add_loop n h delta tb bits) = bloom_total_bits bits"
  by (simp add: bloom_total_bits_def)

lemma Add_loop_bits:
  assumes "bits \<noteq> []" and "length bits < 2 ^ 27" and "tb = bloom_total_bits bits"
  shows "bit_at (BloomFilter_Add_loop n h delta tb bits) q \<longleftrightarrow>
    bit_at bits q \<or> q \<in> bloom_probes n h delta tb"
  using assms
proof (induction n h delta tb bits rule: BloomFilter_Add_loop.induct)
  case (2 n h delta tb bits)
  let ?p = "h mod tb"
  let ?i = "unat (?p div 32)"
  let ?bits = "bits[?i := bits ! ?i OR push_bit (unat (?p mod 32)) 1]"
  have "bit_at (BloomFilter_Add_loop n (h + delta) delta tb ?bits) q \<longleftrightarrow>
      bit_at ?bits q \<or> q \<in> bloom_probes n (h + delta) delta tb"
    using "2.prems" by (intro "2.IH") (auto simp: bloom_total_bits_def)
  moreover have "bit_at ?bits q \<longleftrightarrow> bit_at bits q \<or> q = ?p"
    using "2.prems" bit_pos_index [of bits h] by (intro bit_at_set) auto
  ultimately show ?case by (auto simp: Let_def)
qed simp

lemma MayMatch_loop_iff:
  assumes "bits \<noteq> []" and "length bits < 2 ^ 27" and "tb = bloom_total_bits bits"
  shows "BloomFilter_MayMatch_loop n h delta tb bits \<longleftrightarrow>
    (\<forall>q \<in> bloom_probes n h delta tb. bit_at bits q)"
  using assms
proof (induction n h delta tb bits rule: BloomFilter_MayMatch_loop.induct)
  case (2 n h delta tb bits)
  have "unat (h mod tb div 32) < length bits"
    using "2.prems" bit_pos_index [of bits h] by simp
  moreover have "unat (h mod tb mod 32) < 32" by (simp add: unat_mod_32)
  ultimately show ?case
    using 2 by (auto simp: Let_def and_exp_eq_0_iff_not_bit bit_at_def)
qed simp

definition bloom_has :: "BloomFilter \<Rightarrow> bytes \<Rightarrow> bool" where
  "bloom_has f key \<longleftrightarrow> (\<forall>q \<in> bloom_probes (nat (bloom_k f)) (Slice_Hash key)
     (bloom_delta (Slice_Hash key)) (bloom_total_bits (bloom_bits f)). bit_at (bloom_bits f) q)"

lemma MayMatch_iff: "bloom_wf f \<Longrightarrow> BloomFilter_MayMatch f key = Some (bloom_has f key)"
  by (simp add: BloomFilter_MayMatch_def bloom_wf_def bloom_has_def Let_def total_bits_nonzero
      MayMatch_loop_iff)

lemma Add_wf:
  assumes "bloom_wf f"
  shows "\<exists>f'. BloomFilter_Add f key = Some f' \<and> bloom_wf f' \<and> bloom_has f' key
    \<and> (\<forall>k. bloom_has f k \<longrightarrow> bloom_has f' k)
    \<and> bloom_k f' = bloom_k f \<and> length (bloom_bits f') = length (bloom_bits f) \<and> bits_per_key f' = bits_per_key f"
proof -
  from assms have ne: "bloom_bits f \<noteq> []" and len: "length (bloom_bits f) < 2 ^ 27"
    by (auto simp: bloom_wf_def)
  have "BloomFilter_Add_loop n h d t (bloom_bits f) = [] \<longleftrightarrow> bloom_bits f = []" for n h d t
    by (metis length_0_conv length_Add_loop)
  then show ?thesis
    using ne len Add_loop_bits [OF ne len refl]
    by (auto simp: BloomFilter_Add_def Let_def total_bits_nonzero bloom_wf_def bloom_has_def)
qed

fun BloomFilter_Add_all :: "BloomFilter \<Rightarrow> bytes list \<Rightarrow> BloomFilter option" where
  "BloomFilter_Add_all f [] = Some f"
| "BloomFilter_Add_all f (k # ks) =
     (case BloomFilter_Add f k of None \<Rightarrow> None | Some f' \<Rightarrow> BloomFilter_Add_all f' ks)"

lemma Add_all_wf:
  assumes "bloom_wf f"
  shows "\<exists>f'. BloomFilter_Add_all f ks = Some f' \<and> bloom_wf f' \<and> bloom_k f' = bloom_k f
    \<and> bits_per_key f' = bits_per_key f \<and> length (bloom_bits f') = length (bloom_bits f)
    \<and> (\<forall>k \<in> set ks. bloom_has f' k) \<and> (\<forall>k. bloom_has f k \<longrightarrow> bloom_has f' k)"
  using assms
proof (induction ks arbitrary: f)
  case (Cons k ks)
  obtain f1 where f1: "BloomFilter_Add f k = Some f1" "bloom_wf f1" "bloom_has f1 k"
      "\<forall>k. bloom_has f k \<longrightarrow> bloom_has f1 k" "bloom_k f1 = bloom_k f"
      "bits_per_key f1 = bits_per_key f" "length (bloom_bits f1) = length (bloom_bits f)"
    using Add_wf [OF Cons.prems, of k] by blast
  from Cons.IH [OF f1(2)] f1 show ?case by auto
qed simp

lemma BloomFilter_new_wf: "bloom_wf (BloomFilter_new bpk)"
  by (simp add: BloomFilter_new_def bloom_wf_def)

text \<open>C30: A Bloom filter has no false negatives: adding any sequence of keys to a fresh
  filter never fails, and afterwards \<open>MayMatch\<close> answers true for every key added, so a table
  is never skipped that holds the key.\<close>

theorem BloomFilter_no_false_negatives:
  "\<exists>f. BloomFilter_Add_all (BloomFilter_new bpk) ks = Some f
     \<and> list_all (\<lambda>k. BloomFilter_MayMatch f k = Some True) ks"
  using Add_all_wf [OF BloomFilter_new_wf, of bpk ks] MayMatch_iff by (fastforce simp: list_all_iff)

subsection \<open>Through a file\<close>

fun words_of_bytes :: "nat \<Rightarrow> bytes \<Rightarrow> u32 list" where
  "words_of_bytes 0 bs = []"
| "words_of_bytes (Suc n) bs = le_val (take 4 bs) # words_of_bytes n (drop 4 bs)"

lemma length_BloomFilter_data [simp]: "length (BloomFilter_data f) = 4 * length (bloom_bits f)"
  by (simp add: BloomFilter_data_def length_concat comp_def sum_list_triv mult.commute)

lemma words_of_bytes_data: "words_of_bytes (length ws) (concat (map (le_bytes 4) ws) @ rest) = ws"
  by (induction ws) auto

lemma BloomFilter_of_data_roundtrip:
  assumes "bloom_k f = bloom_num_hashes (bits_per_key f)"
  shows "BloomFilter_of_data (words_of_bytes (length (BloomFilter_data f) div 4) (BloomFilter_data f))
     (bits_per_key f) = f"
  using assms words_of_bytes_data [of "bloom_bits f" "[]"]
  by (simp add: BloomFilter_of_data_def) (simp add: BloomFilter_data_def)

end
