(* ===== verification/Lkv_Options.thy ===== *)
theory Lkv_Options
  imports Lkv_Prelude
begin

section \<open>Options and the operating system (include/lightkv/options.h)\<close>

text \<open>
  The option structures, and the record \<open>Env\<close> of what the program gets from outside its
  sources: the results of the system calls on files and the LZ4 library. Every definition that
  writes or compresses takes an \<open>Env\<close> as a parameter; theorems that need more of it than its
  type say so in a hypothesis.
\<close>

definition kNumLevels :: nat where "kNumLevels = 7"

datatype CompressionType = kNoCompression | kLZ4Compression

text \<open>The fields the storage engine reads; the Raft fields belong to the server.\<close>

record Options =
  memtable_size :: nat
  wal_file_size :: nat
  block_cache_size :: nat
  block_size :: nat
  max_level :: nat
  l0_file_num_trigger :: nat
  level_multiplier :: nat
  l0_compaction_max_files :: nat
  l0_slowdown_trigger :: nat
  l0_stop_trigger :: nat
  bloom_bits_per_key :: nat
  restart_interval :: nat
  compression :: CompressionType
  db_path :: string
  create_if_missing :: bool
  paranoid_checks :: bool
  value_threshold :: nat
  vlog_file_size_limit :: nat

definition Options_default :: Options where
  "Options_default =
     \<lparr>memtable_size = 64 * 1024 * 1024, wal_file_size = 256 * 1024 * 1024,
      block_cache_size = 512 * 1024 * 1024, block_size = 4 * 1024, max_level = kNumLevels,
      l0_file_num_trigger = 4, level_multiplier = 10, l0_compaction_max_files = 0,
      l0_slowdown_trigger = 0, l0_stop_trigger = 0, bloom_bits_per_key = 10, restart_interval = 16,
      compression = kNoCompression, db_path = ''./lightkv_data'', create_if_missing = True,
      paranoid_checks = False, value_threshold = 64 * 1024,
      vlog_file_size_limit = 512 * 1024 * 1024\<rparr>"

subsection \<open>The environment\<close>

text \<open>
  \<open>env_open path\<close>: whether the file can be created; \<open>env_pwrite path offset n\<close>: what
  \<open>pwrite\<close> returns for \<open>n\<close> bytes at \<open>offset\<close>; \<open>env_fsync path\<close>: whether
  \<open>fsync\<close> succeeds; \<open>env_read path n\<close>: what \<open>read\<close> of \<open>n\<close> bytes from the start of the
  file returns; \<open>env_rename old new\<close>: whether a rename succeeds; \<open>env_msync path n\<close>: whether \<open>msync\<close> of the first \<open>n\<close> bytes of a
  mapping of the file succeeds; \<open>env_ftruncate path n\<close>: whether the file can be set to \<open>n\<close> bytes;
  \<open>env_mmap path n\<close>: whether mapping \<open>n\<close> bytes of the file succeeds; \<open>env_errno\<close> and
  \<open>env_strerror\<close>: the error number and its text; \<open>env_lz4\<close>: the LZ4 compressor and
  decompressor, if the program was built with it (an empty result of the compressor is its
  return value 0).
\<close>

record Env =
  env_open :: "string \<Rightarrow> bool"
  env_pwrite :: "string \<Rightarrow> nat \<Rightarrow> nat \<Rightarrow> int"
  env_fsync :: "string \<Rightarrow> bool"
  env_read :: "string \<Rightarrow> nat \<Rightarrow> int"
  env_rename :: "string \<Rightarrow> string \<Rightarrow> bool"
  env_msync :: "string \<Rightarrow> nat \<Rightarrow> bool"
  env_ftruncate :: "string \<Rightarrow> nat \<Rightarrow> bool"
  env_mmap :: "string \<Rightarrow> nat \<Rightarrow> bool"
  env_errno :: nat
  env_strerror :: "nat \<Rightarrow> string"
  env_lz4 :: "((bytes \<Rightarrow> bytes) \<times> (bytes \<Rightarrow> nat \<Rightarrow> bytes option)) option"

text \<open>\<open>pwrite\<close> never reports more than it was asked to write.\<close>

definition pwrite_ok :: "Env \<Rightarrow> bool" where
  "pwrite_ok env \<longleftrightarrow> (\<forall>path off n. env_pwrite env path off n \<le> int n)"

text \<open>An environment in which every call succeeds, for examples.\<close>

definition Env_good :: Env where
  "Env_good = \<lparr>env_open = (\<lambda>_. True), env_pwrite = (\<lambda>_ _ n. int n), env_fsync = (\<lambda>_. True),
     env_read = (\<lambda>_ n. int n), env_rename = (\<lambda>_ _. True), env_msync = (\<lambda>_ _. True), env_ftruncate = (\<lambda>_ _. True), env_mmap = (\<lambda>_ _. True), env_errno = 0,
     env_strerror = (\<lambda>_. ''error''), env_lz4 = None\<rparr>"

lemma Env_good_pwrite_ok: "pwrite_ok Env_good"
  by (simp add: pwrite_ok_def Env_good_def)

subsection \<open>Files\<close>

text \<open>The files of a directory tree: the bytes of each path that exists.\<close>

type_synonym fs = "string \<rightharpoonup> bytes"

text \<open>The bytes of a file after \<open>pwrite\<close>, or a store through a shared mapping, put \<open>xs\<close>
  at offset \<open>p\<close> (a gap reads as zeros), and after \<open>ftruncate\<close> set its size to \<open>n\<close>.\<close>

definition write_at :: "bytes \<Rightarrow> nat \<Rightarrow> bytes \<Rightarrow> bytes" where
  "write_at f p xs = take p f @ replicate (p - length f) 0 @ xs @ drop (p + length xs) f"

definition set_size :: "nat \<Rightarrow> bytes \<Rightarrow> bytes" where
  "set_size n f = take n f @ replicate (n - length f) 0"

lemma write_at_end: "write_at f (length f) xs = f @ xs"
  by (simp add: write_at_def)

lemma write_at_inside: "write_at (a @ ys @ b) (length a) xs = a @ xs @ drop (length xs) (ys @ b)"
  by (simp add: write_at_def)

lemma length_set_size [simp, length_simps]: "length (set_size n f) = n"
  by (simp add: set_size_def)

lemma set_size_zeros:
  "length a + m \<le> n \<Longrightarrow> set_size n (a @ replicate m 0) = a @ replicate (n - length a) 0"
  by (simp add: set_size_def take_replicate flip: replicate_add)

text \<open>The loop around \<open>write\<close> that both log-structured files use: the file grows at its end
  until everything is written, or a call writes nothing.\<close>

function write_all :: "Env \<Rightarrow> string \<Rightarrow> bytes \<Rightarrow> bytes \<Rightarrow> nat \<Rightarrow> bool \<times> bytes" where
  "write_all env path f data written =
     (if written < length data
      then let n = env_pwrite env path (length f) (length data - written)
           in if n \<le> 0 then (False, f)
              else write_all env path (f @ take (nat n) (drop written data)) data (written + nat n)
      else (True, f))"
  by pat_completeness auto
termination
  by (relation "measure (\<lambda>(env, path, f, data, written). length data - written)") auto

declare write_all.simps [simp del]

lemma write_all_ok:
  assumes "pwrite_ok env" and "write_all env path f data n = (True, f')" and "n \<le> length data"
  shows "f' = f @ drop n data"
  using assms
proof (induction env path f data n rule: write_all.induct)
  case (1 env path f data n)
  let ?k = "env_pwrite env path (length f) (length data - n)"
  show ?case
  proof (cases "n < length data")
    case True
    then have k: "0 < ?k" using "1.prems" by (auto simp: write_all.simps [of env path f data n] Let_def split: if_splits)
    have "nat ?k \<le> length data - n" using "1.prems"(1) by (simp add: pwrite_ok_def nat_le_iff)
    then have "n + nat ?k \<le> length data" using True by simp
    moreover have "write_all env path (f @ take (nat ?k) (drop n data)) data (n + nat ?k) = (True, f')"
      using "1.prems" True k by (simp add: write_all.simps [of env path f data n] Let_def)
    ultimately have "f' = f @ take (nat ?k) (drop n data) @ drop (n + nat ?k) data"
      using "1.IH" [OF True refl] k "1.prems"(1) by simp
    then show ?thesis by (metis append_take_drop_id drop_drop add.commute)
  next
    case False
    then show ?thesis using "1.prems" by (auto simp: write_all.simps)
  qed
qed

subsection \<open>Decimal numbers in messages and file names\<close>

fun to_string :: "nat \<Rightarrow> string" where
  "to_string n = (if n < 10 then [char_of (48 + n)] else to_string (n div 10) @ [char_of (48 + n mod 10)])"

declare to_string.simps [simp del]

text \<open>The bytes of a string literal.\<close>

definition bytes_of :: "string \<Rightarrow> bytes" where
  "bytes_of s = map (\<lambda>c. word_of_nat (of_char c)) s"

end
