(* ===== verification/Lkv_Table.thy ===== *)
theory Lkv_Table
  imports Lkv_Block Lkv_Bloom Lkv_Options
begin

section \<open>Writing a table (src/table_builder.cpp, TableFooter of src/sstable.cpp)\<close>

text \<open>
  \<open>FileWriter\<close> appends to a file through \<open>pwrite\<close>, which may write fewer bytes than asked
  or fail; \<open>TableBuilder\<close> cuts a sorted run of entries into data blocks and writes them, the
  Bloom filter, the index block and the footer. \<open>None\<close> stands for \<open>std::abort\<close> (the
  order check of paranoid mode) and for the undefined remainder of an empty Bloom filter.

  The last part relates the builder's state to the entries added (\<open>tb_has\<close>) and shows that a
  table whose \<open>Finish\<close> returns OK is completely on disk, whatever partial writes happened.
\<close>

subsection \<open>\<open>FileWriter\<close>\<close>

text \<open>\<open>fw_file\<close> is the content of the file behind the descriptor.\<close>

record FileWriter =
  fw_name :: string
  fw_open :: bool
  fw_offset :: nat
  fw_file :: bytes

definition FileWriter_new :: "string \<Rightarrow> FileWriter" where
  "FileWriter_new name = \<lparr>fw_name = name, fw_open = False, fw_offset = 0, fw_file = []\<rparr>"

text \<open>\<open>O_CREAT | O_TRUNC\<close>: the file is empty after a successful open.\<close>

definition FileWriter_Open :: "Env \<Rightarrow> FileWriter \<Rightarrow> bool \<times> FileWriter" where
  "FileWriter_Open env w =
     (if env_open env (fw_name w) then (True, w\<lparr>fw_open := True, fw_file := []\<rparr>) else (False, w))"

function FileWriter_Append_loop :: "Env \<Rightarrow> FileWriter \<Rightarrow> bytes \<Rightarrow> nat \<Rightarrow> Status \<times> FileWriter" where
  "FileWriter_Append_loop env w data written =
     (if written < length data
      then let n = env_pwrite env (fw_name w) (fw_offset w + written) (length data - written)
           in if n \<le> 0
              then (Status_IOError (''short write on '' @ fw_name w @ '' after '' @ to_string written
                      @ ''/'' @ to_string (length data) @ '' bytes''
                      @ (if n < 0 then '' (errno='' @ to_string (env_errno env) @ '')'' else '''')), w)
              else FileWriter_Append_loop env
                     (w\<lparr>fw_file := write_at (fw_file w) (fw_offset w + written)
                          (take (nat n) (drop written data))\<rparr>)
                     data (written + nat n)
      else (Status_OK, w\<lparr>fw_offset := fw_offset w + written\<rparr>))"
  by pat_completeness auto
termination
  by (relation "measure (\<lambda>(env, w, data, written). length data - written)") auto

declare FileWriter_Append_loop.simps [simp del]

definition FileWriter_Append :: "Env \<Rightarrow> FileWriter \<Rightarrow> bytes \<Rightarrow> Status \<times> FileWriter" where
  "FileWriter_Append env w data = FileWriter_Append_loop env w data 0"

definition FileWriter_Sync :: "Env \<Rightarrow> FileWriter \<Rightarrow> Status" where
  "FileWriter_Sync env w =
     (if \<not> fw_open w then Status_IOError (''sync on unopened file: '' @ fw_name w)
      else if \<not> env_fsync env (fw_name w)
      then Status_IOError (''fsync failed on '' @ fw_name w @ '' (errno='' @ to_string (env_errno env) @ '')'')
      else Status_OK)"

definition FileWriter_Close :: "FileWriter \<Rightarrow> FileWriter" where
  "FileWriter_Close w = w\<lparr>fw_open := False\<rparr>"

subsection \<open>\<open>TableFooter\<close>\<close>

record TableFooter =
  index_block_handle_offset :: u64
  meta_index_block_handle_offset :: u64

definition kMagic :: bytes where
  "kMagic = [0x4C, 0x49, 0x47, 0x48, 0x54, 0x4B, 0x56, 0x32]"

definition kMagic1 :: bytes where
  "kMagic1 = [0x4C, 0x49, 0x47, 0x48, 0x54, 0x4B, 0x56, 0x31]"

definition kEncodedLength :: nat where "kEncodedLength = 24"

definition TableFooter_EncodeTo :: "TableFooter \<Rightarrow> bytes \<Rightarrow> bytes" where
  "TableFooter_EncodeTo f dst =
     PutFixed64 (PutFixed64 dst (index_block_handle_offset f)) (meta_index_block_handle_offset f) @ kMagic"

definition TableFooter_DecodeFrom :: "bytes \<Rightarrow> Status \<times> TableFooter option" where
  "TableFooter_DecodeFrom input =
     (if length input < 24 then (Status_Corruption ''footer too short'', None)
      else let magic = length input - 8
           in if memcmp (drop magic input) kMagic 8 \<noteq> 0
              then if memcmp (drop magic input) kMagic1 8 = 0
                   then (Status_Corruption (''sstable uses the LIGHTKV1 format (bare user keys, no sequence ''
                     @ ''numbers); this build writes LIGHTKV2 (internal keys). Rebuild ''
                     @ ''or remove this data directory.''), None)
                   else (Status_Corruption ''bad footer magic'', None)
              else (Status_OK, Some \<lparr>index_block_handle_offset = DecodeFixed64 input 0,
                     meta_index_block_handle_offset = DecodeFixed64 input 8\<rparr>))"

subsection \<open>\<open>TableBuilder\<close>\<close>

record TableBuilder =
  tb_options :: Options
  tb_writer :: FileWriter
  tb_data_block :: BlockBuilder
  tb_index_block :: BlockBuilder
  tb_bloom :: BloomFilter
  tb_last_key :: bytes
  tb_smallest :: bytes
  tb_largest :: bytes
  tb_num_entries :: nat
  tb_finished :: bool
  tb_status :: Status
  tb_data_blocks :: "(BlockHandle \<times> bytes) list"

definition TableBuilder_new :: "Env \<Rightarrow> Options \<Rightarrow> string \<Rightarrow> TableBuilder" where
  "TableBuilder_new env opts filename =
     (let (opened, w) = FileWriter_Open env (FileWriter_new filename)
      in \<lparr>tb_options = opts, tb_writer = w, tb_data_block = BlockBuilder_new (block_size opts),
          tb_index_block = BlockBuilder_new (restart_interval opts),
          tb_bloom = BloomFilter_new (int (bloom_bits_per_key opts)),
          tb_last_key = [], tb_smallest = [], tb_largest = [], tb_num_entries = 0,
          tb_finished = False,
          tb_status = (if opened then Status_OK
             else Status_IOError (''cannot create table file: '' @ filename)),
          tb_data_blocks = []\<rparr>)"

text \<open>What is written for a block: with LZ4 enabled and effective, the original size and the
  compressed bytes. The result says whether it is compressed.\<close>

definition compress_block :: "Env \<Rightarrow> Options \<Rightarrow> bytes \<Rightarrow> bool \<times> bytes" where
  "compress_block env opts data =
     (case env_lz4 env of
        None \<Rightarrow> (False, data)
      | Some (lz4_compress, lz4_decompress) \<Rightarrow>
          if compression opts = kLZ4Compression
          then let c = lz4_compress data
               in if 0 < length c \<and> length c + 4 < length data
                  then (True, EncodeFixed32 (word_of_nat (length data)) @ c)
                  else (False, data)
          else (False, data))"

definition TableBuilder_FlushDataBlock :: "Env \<Rightarrow> TableBuilder \<Rightarrow> Status \<times> TableBuilder" where
  "TableBuilder_FlushDataBlock env b =
     (if BlockBuilder_empty (tb_data_block b) then (tb_status b, b)
      else let b = b\<lparr>tb_data_block := BlockBuilder_Finish (tb_data_block b)\<rparr>;
               block_data = bb_buffer (tb_data_block b);
               (compressed, out) = compress_block env (tb_options b) block_data;
               handle = \<lparr>bh_offset = word_of_nat (fw_offset (tb_writer b)),
                         bh_size = word_of_nat (length out), is_compressed = compressed\<rparr>;
               (s, w) = FileWriter_Append env (tb_writer b) out;
               b = b\<lparr>tb_writer := w, tb_status := s\<rparr>
           in if \<not> ok s then (s, b)
              else let encoded = BlockHandle_EncodeTo handle [];
                       b = b\<lparr>tb_index_block := BlockBuilder_Add (tb_index_block b) (tb_last_key b) encoded,
                             tb_data_blocks := tb_data_blocks b @ [(handle, tb_last_key b)],
                             tb_data_block := BlockBuilder_Reset (tb_data_block b)\<rparr>
                   in (tb_status b, b))"

definition TableBuilder_Add ::
    "Env \<Rightarrow> TableBuilder \<Rightarrow> bytes \<Rightarrow> bytes \<Rightarrow> u64 \<Rightarrow> byte \<Rightarrow> (Status \<times> TableBuilder) option" where
  "TableBuilder_Add env b user_key v seq type =
     (if tb_finished b then Some (tb_status b, b)
      else if \<not> ok (tb_status b) then Some (tb_status b, b)
      else let internal_key = MakeInternalKey user_key seq type
           in if paranoid_checks (tb_options b) \<and> tb_num_entries b > 0
                 \<and> CompareInternalKeys internal_key (tb_last_key b) \<le> 0 then None
              else do { bloom \<leftarrow> BloomFilter_Add (tb_bloom b) user_key;
                        let b = b\<lparr>tb_bloom := bloom,
                                  tb_data_block := BlockBuilder_Add (tb_data_block b) internal_key v,
                                  tb_num_entries := tb_num_entries b + 1\<rparr>;
                            b = (if tb_num_entries b = 1 then b\<lparr>tb_smallest := user_key\<rparr> else b);
                            b = b\<lparr>tb_largest := user_key, tb_last_key := internal_key\<rparr>
                        in if block_size (tb_options b) \<le> BlockBuilder_CurrentSizeEstimate (tb_data_block b)
                           then Some (TableBuilder_FlushDataBlock env b)
                           else Some (tb_status b, b) })"

definition TableBuilder_Finish :: "Env \<Rightarrow> TableBuilder \<Rightarrow> Status \<times> TableBuilder" where
  "TableBuilder_Finish env b =
     (if tb_finished b then (tb_status b, b)
      else if \<not> ok (tb_status b) then (tb_status b, b)
      else let (s, b) = TableBuilder_FlushDataBlock env b;
               b = b\<lparr>tb_status := s\<rparr>
           in if \<not> ok s then (s, b)
      else let bloom_offset = fw_offset (tb_writer b);
               (s, w) = FileWriter_Append env (tb_writer b) (BloomFilter_data (tb_bloom b));
               b = b\<lparr>tb_writer := w, tb_status := s\<rparr>
           in if \<not> ok s then (s, b)
      else let b = b\<lparr>tb_index_block := BlockBuilder_Finish (tb_index_block b)\<rparr>;
               index_offset = fw_offset (tb_writer b);
               (s, w) = FileWriter_Append env (tb_writer b) (bb_buffer (tb_index_block b));
               b = b\<lparr>tb_writer := w, tb_status := s\<rparr>
           in if \<not> ok s then (s, b)
      else let footer = \<lparr>index_block_handle_offset = word_of_nat index_offset,
                         meta_index_block_handle_offset = word_of_nat bloom_offset\<rparr>;
               (s, w) = FileWriter_Append env (tb_writer b) (TableFooter_EncodeTo footer []);
               b = b\<lparr>tb_writer := w, tb_status := s\<rparr>
           in if \<not> ok s then (s, b)
      else let s = FileWriter_Sync env (tb_writer b);
               b = b\<lparr>tb_status := s\<rparr>
           in if \<not> ok s then (s, b)
      else let b = b\<lparr>tb_writer := FileWriter_Close (tb_writer b), tb_finished := True\<rparr>
           in (tb_status b, b))"

text \<open>\<open>Abandon\<close> closes and removes the file; the result says that the name is gone.\<close>

definition TableBuilder_Abandon :: "TableBuilder \<Rightarrow> TableBuilder" where
  "TableBuilder_Abandon b =
     b\<lparr>tb_writer := (FileWriter_Close (tb_writer b))\<lparr>fw_file := []\<rparr>\<rparr>"

subsection \<open>A successful append is complete\<close>

lemma FileWriter_Append_loop_ok:
  assumes "FileWriter_Append_loop env w data written = (s, w')" and "ok s" and "pwrite_ok env"
    and "fw_file w = base @ take written data" and "fw_offset w = length base" and "written \<le> length data"
  shows "w' = w\<lparr>fw_file := base @ data, fw_offset := length (base @ data)\<rparr>"
  using assms
proof (induction env w data written rule: FileWriter_Append_loop.induct)
  case (1 env w data written)
  let ?n = "env_pwrite env (fw_name w) (fw_offset w + written) (length data - written)"
  show ?case
  proof (cases "written < length data")
    case False
    with "1.prems" show ?thesis
      by (subst (asm) FileWriter_Append_loop.simps) auto
  next
    case True
    have pos: "\<not> ?n \<le> 0"
      using True "1.prems"(1,2)
      by (subst (asm) FileWriter_Append_loop.simps) (auto simp: Let_def Status_IOError_def ok_def)
    have n: "written + nat ?n \<le> length data"
      using "1.prems"(3) True pos unfolding pwrite_ok_def
      by (smt (verit) int_nat_eq le_add_diff_inverse less_imp_le_nat nat_add_left_cancel_le nat_le_iff)
    let ?w = "w\<lparr>fw_file := write_at (fw_file w) (fw_offset w + written) (take (nat ?n) (drop written data))\<rparr>"
    have "fw_offset w + written = length (fw_file w)"
      using "1.prems"(4-6) by simp
    then have "fw_file ?w = fw_file w @ take (nat ?n) (drop written data)"
      by (simp add: write_at_end)
    then have "fw_file ?w = base @ take (written + nat ?n) data"
      using "1.prems"(4) by (simp only: take_add append_assoc)
    moreover have "FileWriter_Append_loop env ?w data (written + nat ?n) = (s, w')"
      using "1.prems"(1) True pos by (subst (asm) FileWriter_Append_loop.simps) (simp add: Let_def)
    ultimately have "w' = ?w\<lparr>fw_file := base @ data, fw_offset := length (base @ data)\<rparr>"
      using "1.IH" [OF True refl pos] "1.prems"(2,3,5) n by simp
    then show ?thesis by simp
  qed
qed

lemma FileWriter_Append_ok:
  assumes "FileWriter_Append env w data = (s, w')" and "ok s" and "pwrite_ok env"
    and "fw_offset w = length (fw_file w)"
  shows "w' = w\<lparr>fw_file := fw_file w @ data, fw_offset := length (fw_file w @ data)\<rparr>"
  using FileWriter_Append_loop_ok [of env w data 0 s w' "fw_file w"] assms
  by (simp add: FileWriter_Append_def)

subsection \<open>The file a table should be\<close>

type_synonym entry = "bytes \<times> u64 \<times> byte \<times> bytes"

fun ikv :: "entry \<Rightarrow> bytes \<times> bytes" where
  "ikv (user_key, seq, type, v) = (MakeInternalKey user_key seq type, v)"

abbreviation user_of :: "entry \<Rightarrow> bytes" where "user_of \<equiv> fst"

definition data_block_out :: "Env \<Rightarrow> Options \<Rightarrow> (bytes \<times> bytes) list \<Rightarrow> bool \<times> bytes" where
  "data_block_out env opts kvs = compress_block env opts (build_block (block_size opts) kvs)"

definition block_handle_at :: "Env \<Rightarrow> Options \<Rightarrow> nat \<Rightarrow> (bytes \<times> bytes) list \<Rightarrow> BlockHandle" where
  "block_handle_at env opts off kvs =
     \<lparr>bh_offset = word_of_nat off, bh_size = word_of_nat (length (snd (data_block_out env opts kvs))),
      is_compressed = fst (data_block_out env opts kvs)\<rparr>"

fun block_handles :: "Env \<Rightarrow> Options \<Rightarrow> nat \<Rightarrow> (bytes \<times> bytes) list list \<Rightarrow> BlockHandle list" where
  "block_handles env opts off [] = []"
| "block_handles env opts off (kvs # bss) =
     block_handle_at env opts off kvs
     # block_handles env opts (off + length (snd (data_block_out env opts kvs))) bss"

definition data_section :: "Env \<Rightarrow> Options \<Rightarrow> (bytes \<times> bytes) list list \<Rightarrow> bytes" where
  "data_section env opts bss = concat (map (\<lambda>kvs. snd (data_block_out env opts kvs)) bss)"

definition index_entries :: "Env \<Rightarrow> Options \<Rightarrow> (bytes \<times> bytes) list list \<Rightarrow> (bytes \<times> bytes) list" where
  "index_entries env opts bss =
     map2 (\<lambda>kvs h. (fst (last kvs), BlockHandle_EncodeTo h [])) bss (block_handles env opts 0 bss)"

definition index_section :: "Env \<Rightarrow> Options \<Rightarrow> (bytes \<times> bytes) list list \<Rightarrow> bytes" where
  "index_section env opts bss = build_block (restart_interval opts) (index_entries env opts bss)"

definition footer_section :: "nat \<Rightarrow> nat \<Rightarrow> bytes" where
  "footer_section index_off bloom_off =
     TableFooter_EncodeTo \<lparr>index_block_handle_offset = word_of_nat index_off,
       meta_index_block_handle_offset = word_of_nat bloom_off\<rparr> []"

definition table_file :: "Env \<Rightarrow> Options \<Rightarrow> BloomFilter \<Rightarrow> (bytes \<times> bytes) list list \<Rightarrow> bytes" where
  "table_file env opts bloom bss =
     (let data = data_section env opts bss; bl = BloomFilter_data bloom
      in data @ bl @ index_section env opts bss @ footer_section (length data + length bl) (length data))"

lemma length_block_handles [simp]: "length (block_handles env opts off bss) = length bss"
  by (induction bss arbitrary: off) auto

lemma block_handles_snoc:
  "block_handles env opts off (bss @ [kvs]) =
     block_handles env opts off bss @ [block_handle_at env opts (off + length (data_section env opts bss)) kvs]"
  by (induction bss arbitrary: off) (auto simp: data_section_def add.assoc)

lemma index_entries_snoc:
  "index_entries env opts (bss @ [kvs]) = index_entries env opts bss
     @ [(fst (last kvs), BlockHandle_EncodeTo (block_handle_at env opts (length (data_section env opts bss)) kvs) [])]"
  by (simp add: index_entries_def block_handles_snoc)

lemma data_section_snoc:
  "data_section env opts (bss @ [kvs]) = data_section env opts bss @ snd (data_block_out env opts kvs)"
  by (simp add: data_section_def)

subsection \<open>What the builder's state holds\<close>

definition tb_has :: "Env \<Rightarrow> TableBuilder \<Rightarrow> entry list \<Rightarrow> (bytes \<times> bytes) list list \<Rightarrow> (bytes \<times> bytes) list \<Rightarrow> bool" where
  "tb_has env b es bss cur \<longleftrightarrow>
     map ikv es = concat bss @ cur \<and> [] \<notin> set bss \<and> \<not> tb_finished b \<and> ok (tb_status b)
     \<and> fw_file (tb_writer b) = data_section env (tb_options b) bss
     \<and> fw_offset (tb_writer b) = length (fw_file (tb_writer b))
     \<and> tb_data_block b = BlockBuilder_Add_all (BlockBuilder_new (block_size (tb_options b))) cur
     \<and> tb_index_block b = BlockBuilder_Add_all (BlockBuilder_new (restart_interval (tb_options b)))
         (index_entries env (tb_options b) bss)
     \<and> BloomFilter_Add_all (BloomFilter_new (int (bloom_bits_per_key (tb_options b)))) (map user_of es)
         = Some (tb_bloom b)
     \<and> tb_last_key b = (if es = [] then [] else fst (ikv (last es)))
     \<and> tb_smallest b = (if es = [] then [] else user_of (hd es))
     \<and> tb_largest b = (if es = [] then [] else user_of (last es))
     \<and> tb_num_entries b = length es"

lemma tb_has_new:
  assumes "ok (tb_status (TableBuilder_new env opts name))"
  shows "tb_has env (TableBuilder_new env opts name) [] [] []"
  using assms
  by (auto simp: tb_has_def TableBuilder_new_def FileWriter_Open_def FileWriter_new_def data_section_def
      BlockBuilder_Add_all_def index_entries_def ok_def Status_IOError_def Let_def split: if_splits prod.splits)

lemma BlockBuilder_Add_not_empty: "bb_buffer (BlockBuilder_Add b k v) \<noteq> []"
  by (simp add: BlockBuilder_Add_def Let_def PutVarint32_eq split: prod.split)

lemma BlockBuilder_Add_all_empty:
  "BlockBuilder_empty (BlockBuilder_Add_all (BlockBuilder_new n) kvs) \<longleftrightarrow> kvs = []"
proof (cases kvs rule: rev_cases)
  case (snoc kvs' e)
  then show ?thesis
    by (cases e) (simp add: BlockBuilder_Add_all_def BlockBuilder_empty_def BlockBuilder_Add_not_empty)
qed (simp add: BlockBuilder_Add_all_def BlockBuilder_empty_def BlockBuilder_new_def)

lemma BlockBuilder_interval [simp]:
  "bb_restart_interval (BlockBuilder_Add b k v) = bb_restart_interval b"
  "bb_restart_interval (BlockBuilder_Add_all b kvs) = bb_restart_interval b"
  "bb_restart_interval (BlockBuilder_Finish b) = bb_restart_interval b"
proof -
  show a: "bb_restart_interval (BlockBuilder_Add b k v) = bb_restart_interval b" for b k v
    by (simp add: BlockBuilder_Add_def Let_def split: prod.split)
  show "bb_restart_interval (BlockBuilder_Add_all b kvs) = bb_restart_interval b"
    by (induction kvs arbitrary: b) (auto simp: BlockBuilder_Add_all_def a split: prod.splits)
qed (simp add: BlockBuilder_Finish_def Let_def)

lemma BlockBuilder_Reset_new: "BlockBuilder_Reset b = BlockBuilder_new (bb_restart_interval b)"
  by (simp add: BlockBuilder_Reset_def BlockBuilder_new_def)

lemma BlockBuilder_new_interval [simp]: "bb_restart_interval (BlockBuilder_new n) = n"
  by (simp add: BlockBuilder_new_def)

lemma Add_all_snoc:
  "BlockBuilder_Add (BlockBuilder_Add_all b kvs) k v = BlockBuilder_Add_all b (kvs @ [(k, v)])"
  by (simp add: BlockBuilder_Add_all_def)

lemma Add_all_Nil [simp]: "BlockBuilder_Add_all b [] = b"
  by (simp add: BlockBuilder_Add_all_def)

lemma FlushDataBlock_ok:
  assumes "tb_has env b es bss cur" and "cur \<noteq> []" and "pwrite_ok env"
    and "TableBuilder_FlushDataBlock env b = (s, b')" and "ok s"
  shows "tb_has env b' es (bss @ [cur]) [] \<and> tb_options b' = tb_options b
    \<and> fw_open (tb_writer b') = fw_open (tb_writer b)"
proof -
  let ?opts = "tb_options b" and ?w = "tb_writer b"
  let ?blk = "build_block (block_size ?opts) cur"
  note has = assms(1) [unfolded tb_has_def]
  have ne: "\<not> BlockBuilder_empty (tb_data_block b)"
    using has assms(2) by (simp add: BlockBuilder_Add_all_empty)
  have buf: "bb_buffer (BlockBuilder_Finish (tb_data_block b)) = ?blk"
    using has by (simp add: build_block_def)
  obtain comp out where co: "compress_block env ?opts ?blk = (comp, out)" by force
  then have out: "data_block_out env ?opts cur = (comp, out)" by (simp add: data_block_out_def)
  let ?h = "\<lparr>bh_offset = word_of_nat (fw_offset ?w), bh_size = word_of_nat (length out), is_compressed = comp\<rparr>"
  obtain s1 w1 where app: "FileWriter_Append env ?w out = (s1, w1)" by force
  have ok1: "ok s1"
    using assms(4,5) ne buf co app by (auto simp: TableBuilder_FlushDataBlock_def Let_def split: if_splits)
  have w1: "w1 = ?w\<lparr>fw_file := fw_file ?w @ out, fw_offset := length (fw_file ?w @ out)\<rparr>"
    using FileWriter_Append_ok [OF app ok1 assms(3)] has by simp
  have rb: "BlockBuilder_Reset (BlockBuilder_Finish (tb_data_block b)) = BlockBuilder_new (block_size ?opts)"
    using has by (simp add: BlockBuilder_Reset_new)
  let ?b = "b\<lparr>tb_writer := w1, tb_status := s1,
      tb_index_block := BlockBuilder_Add (tb_index_block b) (tb_last_key b) (BlockHandle_EncodeTo ?h []),
      tb_data_blocks := tb_data_blocks b @ [(?h, tb_last_key b)],
      tb_data_block := BlockBuilder_new (block_size ?opts)\<rparr>"
  have "TableBuilder_FlushDataBlock env b = (s1, ?b)"
    by (simp add: TableBuilder_FlushDataBlock_def Let_def ne buf co app ok1 rb)
  then have b': "b' = ?b" using assms(4) by simp
  have "es \<noteq> []" using has assms(2) by auto
  then have "ikv (last es) = last (map ikv es)" by (simp add: last_map)
  also have "\<dots> = last cur" using has assms(2) by simp
  finally have last: "tb_last_key b = fst (last cur)"
    using has \<open>es \<noteq> []\<close> by simp
  show ?thesis
    unfolding tb_has_def b'
    using has assms(2) ok1 w1 last out
    by (simp add: data_section_snoc index_entries_snoc Add_all_snoc block_handle_at_def)
qed

lemma TableBuilder_Add_ok:
  assumes "tb_has env b es bss cur" and "pwrite_ok env"
    and "TableBuilder_Add env b u v seq type = Some (s, b')" and "ok s"
  shows "\<exists>bss cur. tb_has env b' (es @ [(u, seq, type, v)]) bss cur \<and> tb_options b' = tb_options b
    \<and> fw_open (tb_writer b') = fw_open (tb_writer b)"
proof -
  let ?k = "MakeInternalKey u seq type"
  note has = assms(1) [unfolded tb_has_def]
  have live: "\<not> tb_finished b" "ok (tb_status b)" "\<not> (paranoid_checks (tb_options b) \<and> 0 < tb_num_entries b
      \<and> CompareInternalKeys ?k (tb_last_key b) \<le> 0)"
    using assms(3) has by (auto simp: TableBuilder_Add_def Let_def split: if_splits)
  obtain bloom where bloom: "BloomFilter_Add (tb_bloom b) u = Some bloom"
    using assms(3) has by (auto simp: TableBuilder_Add_def Let_def split: if_splits bind_splits)
  let ?b = "b\<lparr>tb_bloom := bloom, tb_data_block := BlockBuilder_Add (tb_data_block b) ?k v,
      tb_num_entries := tb_num_entries b + 1,
      tb_smallest := (if tb_num_entries b = 0 then u else tb_smallest b),
      tb_largest := u, tb_last_key := ?k\<rparr>"
  have all: "BloomFilter_Add_all f (ks @ [k]) = Option.bind (BloomFilter_Add_all f ks) (\<lambda>f. BloomFilter_Add f k)"
    for f ks k by (induction ks arbitrary: f) (auto split: option.splits)
  have hb: "tb_has env ?b (es @ [(u, seq, type, v)]) bss (cur @ [(?k, v)])"
    using has bloom by (auto simp: tb_has_def Add_all_snoc all)
  have step: "TableBuilder_Add env b u v seq type =
      (if block_size (tb_options b) \<le> BlockBuilder_CurrentSizeEstimate (tb_data_block ?b)
       then Some (TableBuilder_FlushDataBlock env ?b) else Some (tb_status ?b, ?b))"
    using live bloom by (cases "tb_num_entries b = 0") (simp_all add: TableBuilder_Add_def Let_def)
  show ?thesis
  proof (cases "block_size (tb_options b) \<le> BlockBuilder_CurrentSizeEstimate (tb_data_block ?b)")
    case True
    then have "TableBuilder_FlushDataBlock env ?b = (s, b')" using step assms(3) by simp
    from FlushDataBlock_ok [OF hb _ assms(2) this assms(4)] show ?thesis by auto
  next
    case False
    then have "b' = ?b" using step assms(3) by simp
    with hb show ?thesis by (intro exI [of _ bss] exI [of _ "cur @ [(?k, v)]"]) simp
  qed
qed

lemma TableBuilder_Add_sticky:
  "\<not> ok (tb_status b) \<Longrightarrow> TableBuilder_Add env b u v seq type = Some (tb_status b, b)"
  by (simp add: TableBuilder_Add_def)

lemma FlushDataBlock_status:
  "TableBuilder_FlushDataBlock env b = (s, b') \<Longrightarrow> tb_status b' = s"
  by (auto simp: TableBuilder_FlushDataBlock_def Let_def split: if_splits prod.splits)

lemma TableBuilder_Add_status:
  "TableBuilder_Add env b u v seq type = Some (s, b') \<Longrightarrow> tb_status b' = s"
  by (auto simp: TableBuilder_Add_def Let_def FlushDataBlock_status
      split: if_splits bind_splits)

text \<open>A client's loop over \<open>Add\<close>; it may ignore the statuses, since errors stick.\<close>

fun TableBuilder_Add_all :: "Env \<Rightarrow> TableBuilder \<Rightarrow> entry list \<Rightarrow> TableBuilder option" where
  "TableBuilder_Add_all env b [] = Some b"
| "TableBuilder_Add_all env b ((u, seq, type, v) # es) =
     do { (s, b) \<leftarrow> TableBuilder_Add env b u v seq type; TableBuilder_Add_all env b es }"

lemma TableBuilder_Add_all_sticky:
  "\<not> ok (tb_status b) \<Longrightarrow> TableBuilder_Add_all env b es = Some b"
  by (induction env b es rule: TableBuilder_Add_all.induct) (auto simp: TableBuilder_Add_sticky)

lemma TableBuilder_Add_all_ok:
  assumes "tb_has env b es0 bss cur" and "pwrite_ok env"
    and "TableBuilder_Add_all env b es = Some b'" and "ok (tb_status b')"
  shows "\<exists>bss cur. tb_has env b' (es0 @ es) bss cur \<and> tb_options b' = tb_options b
    \<and> fw_open (tb_writer b') = fw_open (tb_writer b)"
  using assms
proof (induction es arbitrary: b es0 bss cur)
  case Nil
  then show ?case by auto
next
  case (Cons e es)
  obtain u seq type v where e: "e = (u, seq, type, v)" by (cases e)
  obtain s b1 where add: "TableBuilder_Add env b u v seq type = Some (s, b1)"
      and rest: "TableBuilder_Add_all env b1 es = Some b'"
    using Cons.prems(3) e by (auto split: bind_splits)
  have "ok s"
    using rest Cons.prems(4) TableBuilder_Add_status [OF add] TableBuilder_Add_all_sticky [of b1 env es]
    by (cases "ok s") auto
  then obtain bss1 cur1 where b1: "tb_has env b1 (es0 @ [e]) bss1 cur1" "tb_options b1 = tb_options b"
      "fw_open (tb_writer b1) = fw_open (tb_writer b)"
    using TableBuilder_Add_ok [OF Cons.prems(1,2) add] e by auto
  from Cons.IH [OF b1(1) Cons.prems(2) rest Cons.prems(4)] b1(2,3) show ?case by simp
qed

lemma FlushDataBlock_final:
  assumes "tb_has env b es bss cur" and "pwrite_ok env"
    and "TableBuilder_FlushDataBlock env b = (s, b')" and "ok s"
  shows "\<exists>bss. tb_has env b' es bss [] \<and> tb_options b' = tb_options b"
proof (cases "cur = []")
  case True
  then have "b' = b"
    using assms(1,3) BlockBuilder_Add_all_empty [of _ "[]"]
    by (auto simp: TableBuilder_FlushDataBlock_def tb_has_def)
  then show ?thesis using assms(1) True by auto
next
  case False
  from FlushDataBlock_ok [OF assms(1) False assms(2-4)] show ?thesis by auto
qed

text \<open>The table on disk after a successful \<open>Finish\<close>.\<close>

lemma TableBuilder_Finish_ok:
  assumes "tb_has env b es bss0 cur" and "pwrite_ok env"
    and "TableBuilder_Finish env b = (s, b')" and "ok s"
  shows "\<exists>bss. concat bss = map ikv es \<and> [] \<notin> set bss
    \<and> fw_file (tb_writer b') = table_file env (tb_options b) (tb_bloom b') bss
    \<and> BloomFilter_Add_all (BloomFilter_new (int (bloom_bits_per_key (tb_options b)))) (map user_of es)
         = Some (tb_bloom b')
    \<and> tb_smallest b' = (if es = [] then [] else user_of (hd es))
    \<and> tb_largest b' = (if es = [] then [] else user_of (last es))"
proof -
  let ?opts = "tb_options b"
  have live: "\<not> tb_finished b" "ok (tb_status b)" using assms(1) by (simp_all add: tb_has_def)
  obtain s1 b1 where f: "TableBuilder_FlushDataBlock env b = (s1, b1)" by force
  have ok1: "ok s1" using assms(3,4) live f by (auto simp: TableBuilder_Finish_def Let_def split: if_splits)
  obtain bss where bss: "tb_has env b1 es bss []" "tb_options b1 = ?opts"
    using FlushDataBlock_final [OF assms(1,2) f ok1] by blast
  note has = bss(1) [unfolded tb_has_def bss(2)]
  let ?w1 = "tb_writer b1" and ?bloom = "BloomFilter_data (tb_bloom b1)"
  obtain s2 w2 where a2: "FileWriter_Append env ?w1 ?bloom = (s2, w2)" by force
  have ok2: "ok s2" using assms(3,4) live f ok1 a2
    by (auto simp: TableBuilder_Finish_def Let_def split: if_splits)
  have w2: "w2 = ?w1\<lparr>fw_file := fw_file ?w1 @ ?bloom, fw_offset := length (fw_file ?w1 @ ?bloom)\<rparr>"
    using FileWriter_Append_ok [OF a2 ok2 assms(2)] has by simp
  let ?idx = "index_section env ?opts bss"
  have idx: "bb_buffer (BlockBuilder_Finish (tb_index_block b1)) = ?idx"
    using has by (simp add: index_section_def build_block_def)
  obtain s3 w3 where a3: "FileWriter_Append env w2 ?idx = (s3, w3)" by force
  have ok3: "ok s3" using assms(3,4) live f ok1 a2 ok2 a3 idx
    by (auto simp: TableBuilder_Finish_def Let_def split: if_splits)
  have w3: "w3 = w2\<lparr>fw_file := fw_file w2 @ ?idx, fw_offset := length (fw_file w2 @ ?idx)\<rparr>"
    using FileWriter_Append_ok [OF a3 ok3 assms(2)] w2 by simp
  let ?foot = "footer_section (fw_offset w2) (fw_offset ?w1)"
  obtain s4 w4 where a4: "FileWriter_Append env w3 ?foot = (s4, w4)" by force
  note run = TableBuilder_Finish_def Let_def footer_section_def
  have ok4: "ok s4" using assms(3,4) live f ok1 a2 ok2 a3 idx ok3 a4
    by (auto simp: run split: if_splits)
  have w4: "w4 = w3\<lparr>fw_file := fw_file w3 @ ?foot, fw_offset := length (fw_file w3 @ ?foot)\<rparr>"
    using FileWriter_Append_ok [OF a4 ok4 assms(2)] w3 by simp
  have "tb_writer b' = FileWriter_Close w4 \<and> tb_bloom b' = tb_bloom b1
      \<and> tb_smallest b' = tb_smallest b1 \<and> tb_largest b' = tb_largest b1"
    using assms(3,4) live f ok1 a2 ok2 a3 idx ok3 a4 ok4 by (auto simp: run split: if_splits)
  then show ?thesis
    using has w2 w3 w4
    by (intro exI [of _ bss]) (simp add: table_file_def Let_def FileWriter_Close_def)
qed

subsection \<open>Building succeeds when the environment does\<close>

definition env_works :: "Env \<Rightarrow> bool" where
  "env_works env \<longleftrightarrow> (\<forall>path. env_open env path \<and> env_fsync env path
     \<and> (\<forall>off n. 0 < n \<longrightarrow> 0 < env_pwrite env path off n))"

lemma Env_good_works: "env_works Env_good"
  by (simp add: env_works_def Env_good_def)

lemma FileWriter_Append_loop_works:
  assumes "env_works env"
  shows "fst (FileWriter_Append_loop env w data written) = Status_OK
    \<and> fw_open (snd (FileWriter_Append_loop env w data written)) = fw_open w"
  using assms
proof (induction env w data written rule: FileWriter_Append_loop.induct)
  case (1 env w data written)
  show ?case
  proof (cases "written < length data")
    case True
    then have "\<not> env_pwrite env (fw_name w) (fw_offset w + written) (length data - written) \<le> 0"
      using "1.prems" by (auto simp: env_works_def not_le)
    with True "1.IH" [OF True refl this] "1.prems" show ?thesis
      by (subst (1 2) FileWriter_Append_loop.simps) (simp add: Let_def)
  qed (subst (1 2) FileWriter_Append_loop.simps, simp)
qed

lemma FileWriter_Append_works:
  assumes "env_works env"
  obtains w' where "FileWriter_Append env w data = (Status_OK, w')" "fw_open w' = fw_open w"
  using FileWriter_Append_loop_works [OF assms, of w data 0] that
  by (cases "FileWriter_Append_loop env w data 0") (auto simp: FileWriter_Append_def)

lemma FlushDataBlock_works:
  assumes "env_works env" and "ok (tb_status b)"
  shows "ok (fst (TableBuilder_FlushDataBlock env b))
    \<and> fw_open (tb_writer (snd (TableBuilder_FlushDataBlock env b))) = fw_open (tb_writer b)"
proof (cases "BlockBuilder_empty (tb_data_block b)")
  case False
  let ?b = "b\<lparr>tb_data_block := BlockBuilder_Finish (tb_data_block b)\<rparr>"
  obtain comp out where co: "compress_block env (tb_options b) (bb_buffer (BlockBuilder_Finish (tb_data_block b)))
      = (comp, out)" by force
  obtain w' where "FileWriter_Append env (tb_writer b) out = (Status_OK, w')" "fw_open w' = fw_open (tb_writer b)"
    using FileWriter_Append_works [OF assms(1)] .
  with False co show ?thesis by (simp add: TableBuilder_FlushDataBlock_def Let_def)
qed (use assms in \<open>simp add: TableBuilder_FlushDataBlock_def\<close>)

lemma TableBuilder_Add_works:
  assumes "env_works env" and "tb_has env b es bss cur"
    and "paranoid_checks (tb_options b) \<Longrightarrow> es \<noteq> [] \<Longrightarrow>
      CompareInternalKeys (MakeInternalKey u seq type) (fst (ikv (last es))) > 0"
  shows "\<exists>s b'. TableBuilder_Add env b u v seq type = Some (s, b') \<and> ok s"
proof -
  note has = assms(2) [unfolded tb_has_def]
  have "bloom_wf (tb_bloom b)"
    using has Add_all_wf [OF BloomFilter_new_wf, of "int (bloom_bits_per_key (tb_options b))" "map user_of es"]
    by auto
  then obtain bloom where "BloomFilter_Add (tb_bloom b) u = Some bloom" using Add_wf by blast
  moreover have "\<not> (paranoid_checks (tb_options b) \<and> 0 < tb_num_entries b
      \<and> CompareInternalKeys (MakeInternalKey u seq type) (tb_last_key b) \<le> 0)"
    using has assms(3) by auto
  ultimately show ?thesis
    using has FlushDataBlock_works [OF assms(1)]
    by (auto simp: TableBuilder_Add_def Let_def prod_eq_iff simp del: split_paired_Ex)
qed

definition ikey_increasing :: "entry list \<Rightarrow> bool" where
  "ikey_increasing es \<longleftrightarrow> sorted_wrt (\<lambda>a b. CompareInternalKeys (fst (ikv a)) (fst (ikv b)) < 0) es"

lemma TableBuilder_Add_all_works:
  assumes "env_works env" and "pwrite_ok env" and "tb_has env b es0 bss cur"
    and "paranoid_checks (tb_options b) \<Longrightarrow> ikey_increasing (es0 @ es)"
  shows "\<exists>b'. TableBuilder_Add_all env b es = Some b' \<and> ok (tb_status b')
     \<and> fw_open (tb_writer b') = fw_open (tb_writer b)"
  using assms(3,4)
proof (induction es arbitrary: b es0 bss cur)
  case Nil
  then show ?case by (simp add: tb_has_def)
next
  case (Cons e es)
  obtain u seq type v where e: "e = (u, seq, type, v)" by (cases e)
  have "CompareInternalKeys (MakeInternalKey u seq type) (fst (ikv (last es0))) > 0"
    if "paranoid_checks (tb_options b)" "es0 \<noteq> []"
    using Cons.prems(2) [OF that(1)] that(2) e CompareInternalKeys_antisym [of "fst (ikv e)" "fst (ikv (last es0))"]
    by (auto simp: ikey_increasing_def sorted_wrt_append)
  then obtain s b1 where add: "TableBuilder_Add env b u v seq type = Some (s, b1)" "ok s"
    using TableBuilder_Add_works [OF assms(1) Cons.prems(1)] by blast
  then obtain bss1 cur1 where b1: "tb_has env b1 (es0 @ [e]) bss1 cur1" "tb_options b1 = tb_options b"
      "fw_open (tb_writer b1) = fw_open (tb_writer b)"
    using TableBuilder_Add_ok [OF Cons.prems(1) assms(2) add] e by auto
  from Cons.IH [OF b1(1)] Cons.prems(2) b1(2,3) add e show ?case by simp
qed

lemma TableBuilder_Finish_works:
  assumes "env_works env" and "ok (tb_status b)" and "\<not> tb_finished b" and "fw_open (tb_writer b)"
  shows "ok (fst (TableBuilder_Finish env b))"
proof -
  obtain s1 b1 where f: "TableBuilder_FlushDataBlock env b = (s1, b1)" "ok s1" "fw_open (tb_writer b1)"
    using FlushDataBlock_works [OF assms(1,2)] assms(4) by (metis prod.collapse)
  obtain w2 where a2: "FileWriter_Append env (tb_writer b1) (BloomFilter_data (tb_bloom b1)) = (Status_OK, w2)"
      "fw_open w2"
    using FileWriter_Append_works [OF assms(1)] f(3) by metis
  obtain w3 where a3: "FileWriter_Append env w2 (bb_buffer (BlockBuilder_Finish (tb_index_block b1))) = (Status_OK, w3)"
      "fw_open w3"
    using FileWriter_Append_works [OF assms(1)] a2(2) by metis
  let ?f = "TableFooter_EncodeTo \<lparr>index_block_handle_offset = word_of_nat (fw_offset w2),
      meta_index_block_handle_offset = word_of_nat (fw_offset (tb_writer b1))\<rparr> []"
  obtain w4 where a4: "FileWriter_Append env w3 ?f = (Status_OK, w4)" "fw_open w4"
    using FileWriter_Append_works [OF assms(1)] a3(2) by metis
  have "FileWriter_Sync env w4 = Status_OK"
    using assms(1) a4(2) by (simp add: FileWriter_Sync_def env_works_def)
  then show ?thesis
    using assms f a2 a3 a4 by (simp add: TableBuilder_Finish_def Let_def)
qed

end
