(* ===== verification/Lkv_SSTable.thy ===== *)
theory Lkv_SSTable
  imports Lkv_Table
begin

section \<open>Reading a table (src/sstable.cpp)\<close>

text \<open>
  \<open>FileReader\<close> maps a file, \<open>SSTable::Open\<close> reads footer, Bloom filter and index,
  \<open>SSTable::Iterator\<close> walks the data blocks and \<open>SSTable::Get\<close> finds the newest visible
  version of a key. Offsets and sizes that come from the file keep their 64-bit arithmetic. As
  for blocks, \<open>None\<close> is an access outside the mapped file or the block.
\<close>

subsection \<open>\<open>FileReader\<close>\<close>

text \<open>\<open>fs\<close> is the file system: the bytes of the files that can be opened.\<close>

record FileReader =
  fr_name :: string
  fr_data :: bytes

definition FileReader_Open :: "Env \<Rightarrow> (string \<rightharpoonup> bytes) \<Rightarrow> string \<Rightarrow> FileReader option" where
  "FileReader_Open env fs name =
     (case fs name of
        None \<Rightarrow> None
      | Some data \<Rightarrow>
          if length data > 0 \<and> \<not> env_mmap env name (length data) then None
          else Some \<lparr>fr_name = name, fr_data = data\<rparr>)"

definition FileReader_FileSize :: "FileReader \<Rightarrow> u64" where
  "FileReader_FileSize r = word_of_nat (length (fr_data r))"

text \<open>An empty file is not mapped: \<open>pread\<close> on it returns no byte.\<close>

definition FileReader_Read :: "FileReader \<Rightarrow> u64 \<Rightarrow> u64 \<Rightarrow> (Status \<times> bytes) option" where
  "FileReader_Read r offset n =
     (if FileReader_FileSize r < offset + n
      then Some (Status_Corruption ''read past end of file'', [])
      else if fr_data r \<noteq> []
      then (if unat offset + unat n \<le> length (fr_data r)
            then Some (Status_OK, take (unat n) (drop (unat offset) (fr_data r)))
            else None)
      else if n = 0 then Some (Status_OK, [])
      else Some (Status_IOError ''read failed'', []))"

subsection \<open>\<open>SSTable\<close>\<close>

record SSTable =
  sst_options :: Options
  sst_filename :: string
  sst_file_id :: u64
  sst_reader :: "FileReader option"
  sst_bloom :: BloomFilter
  sst_index_block :: Block
  sst_handles :: "BlockHandle list"
  sst_smallest :: bytes
  sst_largest :: bytes

definition SSTable_new :: "Options \<Rightarrow> string \<Rightarrow> u64 \<Rightarrow> SSTable" where
  "SSTable_new opts filename fid =
     \<lparr>sst_options = opts, sst_filename = filename, sst_file_id = fid, sst_reader = None,
      sst_bloom = BloomFilter_new (int (bloom_bits_per_key opts)),
      sst_index_block = \<lparr>block_data = [], verify_checksum = False, checksum_ok = True\<rparr>,
      sst_handles = [], sst_smallest = [], sst_largest = []\<rparr>"

text \<open>The loop of \<open>Open\<close> over the index block.\<close>

lemma BlockIter_Next_rest:
  "BlockIter_Next it = Some it' \<Longrightarrow> BlockIter_Valid it \<Longrightarrow>
   iter_limit it' - iter_data it' < iter_limit it - iter_data it"
  using BlockIter_Next_frame [of it it'] BlockIter_Next_advances [of it it']
  by (simp add: BlockIter_Valid_def)

function SSTable_Open_index :: "BlockIter \<Rightarrow> SSTable \<Rightarrow> (Status \<times> SSTable) option" where
  "SSTable_Open_index it t =
     (if \<not> BlockIter_Valid it then Some (Status_OK, t)
      else let t = t\<lparr>sst_largest := ExtractUserKey (BlockIter_key it)\<rparr>
           in case BlockIter_value it of
                None \<Rightarrow> None
              | Some v \<Rightarrow>
                  (case BlockHandle_DecodeFrom v of
                     None \<Rightarrow> Some (Status_Corruption ''malformed block handle in SSTable index'', t)
                   | Some handle \<Rightarrow>
                       (case BlockIter_Next it of
                          None \<Rightarrow> None
                        | Some it' \<Rightarrow> SSTable_Open_index it' (t\<lparr>sst_handles := sst_handles t @ [handle]\<rparr>))))"
  by pat_completeness auto
termination
  by (relation "measure (\<lambda>(it, t). iter_limit it - iter_data it)")
    (auto dest: BlockIter_Next_rest)

declare SSTable_Open_index.simps [simp del]

text \<open>The first and the last key, read from the first and the last data block.\<close>

definition SSTable_first_key :: "SSTable \<Rightarrow> FileReader \<Rightarrow> SSTable option" where
  "SSTable_first_key t r =
     do { (s, data) \<leftarrow> FileReader_Read r (bh_offset (hd (sst_handles t))) (bh_size (hd (sst_handles t)));
          if ok s
          then do { it \<leftarrow> BlockIter_SeekToFirst
                      (Block_NewIterator (Block_new data (paranoid_checks (sst_options t))));
                    if BlockIter_Valid it
                    then Some (t\<lparr>sst_smallest := ExtractUserKey (BlockIter_key it)\<rparr>) else Some t }
          else Some t }"

definition SSTable_last_key :: "SSTable \<Rightarrow> FileReader \<Rightarrow> SSTable option" where
  "SSTable_last_key t r =
     do { (s, data) \<leftarrow> FileReader_Read r (bh_offset (last (sst_handles t))) (bh_size (last (sst_handles t)));
          if ok s
          then do { it \<leftarrow> BlockIter_SeekToLast
                      (Block_NewIterator (Block_new data (paranoid_checks (sst_options t))));
                    if BlockIter_Valid it
                    then Some (t\<lparr>sst_largest := ExtractUserKey (BlockIter_key it)\<rparr>) else Some t }
          else Some t }"

definition SSTable_Open :: "Env \<Rightarrow> (string \<rightharpoonup> bytes) \<Rightarrow> SSTable \<Rightarrow> (Status \<times> SSTable) option" where
  "SSTable_Open env fs t =
     (case FileReader_Open env fs (sst_filename t) of
        None \<Rightarrow> Some (Status_IOError ''cannot open sstable file'', t)
      | Some r \<Rightarrow>
          let t = t\<lparr>sst_reader := Some r\<rparr>;
              file_size = FileReader_FileSize r;
              footer_length = word_of_nat kEncodedLength
          in do { (s, footer_slice) \<leftarrow> FileReader_Read r (file_size - footer_length) footer_length;
                  if \<not> ok s then Some (s, t)
                  else case TableFooter_DecodeFrom footer_slice of
                    (s, None) \<Rightarrow> Some (s, t)
                  | (s, Some footer) \<Rightarrow>
                      let bloom_offset = meta_index_block_handle_offset footer;
                          bloom_size = index_block_handle_offset footer - bloom_offset
                      in do { (s, bloom_slice) \<leftarrow> FileReader_Read r bloom_offset bloom_size;
                              let t = (if ok s \<and> length bloom_slice > 0
                                       then t\<lparr>sst_bloom := BloomFilter_of_data
                                              (words_of_bytes (length bloom_slice div 4) bloom_slice)
                                              (int (bloom_bits_per_key (sst_options t)))\<rparr>
                                       else t);
                                  index_offset = index_block_handle_offset footer;
                                  index_size = file_size - footer_length - index_offset
                              in do { (s, index_slice) \<leftarrow> FileReader_Read r index_offset index_size;
                                      if \<not> ok s then Some (s, t)
                                      else let t = t\<lparr>sst_index_block :=
                                                     Block_new index_slice (paranoid_checks (sst_options t))\<rparr>
                                           in if verify_checksum (sst_index_block t)
                                                 \<and> \<not> checksum_ok (sst_index_block t)
                                              then Some (Status_Corruption
                                                     ''SSTable index block failed CRC32C verification'', t)
                                              else do { it \<leftarrow> BlockIter_SeekToFirst
                                                               (Block_NewIterator (sst_index_block t));
                                                        (s, t) \<leftarrow> SSTable_Open_index it t;
                                                        if \<not> ok s then Some (s, t)
                                                        else if sst_handles t = [] then Some (Status_OK, t)
                                                        else do { t \<leftarrow> SSTable_first_key t r;
                                                                  t \<leftarrow> SSTable_last_key t r;
                                                                  Some (Status_OK, t) } } } } })"

definition SSTable_MayMatch :: "SSTable \<Rightarrow> bytes \<Rightarrow> bool option" where
  "SSTable_MayMatch t user_key = BloomFilter_MayMatch (sst_bloom t) user_key"

definition SSTable_ReadBlock :: "Env \<Rightarrow> SSTable \<Rightarrow> BlockHandle \<Rightarrow> (Status \<times> bytes) option" where
  "SSTable_ReadBlock env t handle =
     (case sst_reader t of
        None \<Rightarrow> None
      | Some r \<Rightarrow>
          do { (s, slice) \<leftarrow> FileReader_Read r (bh_offset handle) (bh_size handle);
               if \<not> ok s then Some (s, [])
               else case env_lz4 env of
                 None \<Rightarrow> Some (Status_OK, slice)
               | Some (lz4_compress, lz4_decompress) \<Rightarrow>
                   if is_compressed handle
                   then if length slice < 4 then Some (Status_Corruption ''compressed block too small'', [])
                        else let original_size = unat (DecodeFixed32 slice 0)
                             in (case lz4_decompress (drop 4 slice) original_size of
                                   None \<Rightarrow> Some (Status_Corruption ''failed to decompress block'', [])
                                 | Some d \<Rightarrow>
                                     if length d \<noteq> original_size
                                     then Some (Status_Corruption ''failed to decompress block'', [])
                                     else Some (Status_OK, d))
                   else Some (Status_OK, slice) })"

subsection \<open>\<open>SSTable::Iterator\<close>\<close>

record SSTIter =
  si_table :: SSTable
  si_index :: nat
  si_iter :: "BlockIter option"
  si_status :: Status

definition SSTable_NewIterator :: "SSTable \<Rightarrow> SSTIter" where
  "SSTable_NewIterator t = \<lparr>si_table = t, si_index = 0, si_iter = None, si_status = Status_OK\<rparr>"

definition SSTIter_Valid :: "SSTIter \<Rightarrow> bool" where
  "SSTIter_Valid it \<longleftrightarrow> (case si_iter it of None \<Rightarrow> False | Some bi \<Rightarrow> BlockIter_Valid bi)"

definition SSTIter_SwitchToBlock :: "Env \<Rightarrow> SSTIter \<Rightarrow> nat \<Rightarrow> SSTIter option" where
  "SSTIter_SwitchToBlock env it index =
     (if length (sst_handles (si_table it)) \<le> index then None
      else do { (s, contents) \<leftarrow> SSTable_ReadBlock env (si_table it) (sst_handles (si_table it) ! index);
                if \<not> ok s then Some (it\<lparr>si_iter := None, si_status := s\<rparr>)
                else let block = Block_new contents (paranoid_checks (sst_options (si_table it)))
                     in if verify_checksum block \<and> \<not> checksum_ok block
                        then Some (it\<lparr>si_iter := None, si_status :=
                               Status_Corruption ''SSTable data block failed CRC32C verification''\<rparr>)
                        else do { bi \<leftarrow> BlockIter_SeekToFirst (Block_NewIterator block);
                                  Some (it\<lparr>si_status := Status_OK,
                                    si_iter := if BlockIter_Valid bi then Some bi else None\<rparr>) } })"

definition SSTIter_SeekToFirst :: "Env \<Rightarrow> SSTIter \<Rightarrow> SSTIter option" where
  "SSTIter_SeekToFirst env it =
     (if sst_handles (si_table it) = [] then Some (it\<lparr>si_iter := None\<rparr>)
      else do { it \<leftarrow> SSTIter_SwitchToBlock env (it\<lparr>si_index := 0\<rparr>) 0;
                case si_iter it of
                  None \<Rightarrow> Some it
                | Some bi \<Rightarrow> do { bi \<leftarrow> BlockIter_SeekToFirst bi; Some (it\<lparr>si_iter := Some bi\<rparr>) } })"

definition SSTIter_SeekToLast :: "Env \<Rightarrow> SSTIter \<Rightarrow> SSTIter option" where
  "SSTIter_SeekToLast env it =
     (if sst_handles (si_table it) = [] then Some (it\<lparr>si_iter := None\<rparr>)
      else let i = length (sst_handles (si_table it)) - 1
           in do { it \<leftarrow> SSTIter_SwitchToBlock env (it\<lparr>si_index := i\<rparr>) i;
                   case si_iter it of
                     None \<Rightarrow> Some it
                   | Some bi \<Rightarrow> do { bi \<leftarrow> BlockIter_SeekToLast bi; Some (it\<lparr>si_iter := Some bi\<rparr>) } })"

fun find_handle :: "BlockHandle list \<Rightarrow> BlockHandle \<Rightarrow> nat \<Rightarrow> nat option" where
  "find_handle [] handle i = None"
| "find_handle (h # hs) handle i =
     (if bh_offset h = bh_offset handle \<and> bh_size h = bh_size handle then Some i
      else find_handle hs handle (Suc i))"

text \<open>The forward loop at the end of \<open>Seek\<close>; \<open>n\<close> is the number of blocks after the
  current one.\<close>

fun SSTIter_Seek_forward :: "Env \<Rightarrow> bytes \<Rightarrow> nat \<Rightarrow> SSTIter \<Rightarrow> SSTIter option" where
  "SSTIter_Seek_forward env target 0 it = Some it"
| "SSTIter_Seek_forward env target (Suc n) it =
     (case si_iter it of
        None \<Rightarrow> Some it
      | Some bi \<Rightarrow>
          if BlockIter_Valid bi then Some it
          else do { it \<leftarrow> SSTIter_SwitchToBlock env (it\<lparr>si_index := si_index it + 1\<rparr>) (si_index it + 1);
                    case si_iter it of
                      None \<Rightarrow> Some it
                    | Some bi \<Rightarrow> do { bi \<leftarrow> BlockIter_Seek bi target;
                                      SSTIter_Seek_forward env target n (it\<lparr>si_iter := Some bi\<rparr>) } })"

definition SSTIter_Seek :: "Env \<Rightarrow> SSTIter \<Rightarrow> bytes \<Rightarrow> SSTIter option" where
  "SSTIter_Seek env it target =
     (let handles = sst_handles (si_table it) in
      if handles = [] then Some (it\<lparr>si_iter := None\<rparr>)
      else do { idx_iter \<leftarrow> BlockIter_Seek (Block_NewIterator (sst_index_block (si_table it))) target;
                block_idx \<leftarrow> (if \<not> BlockIter_Valid idx_iter then Some (Some (length handles - 1))
                             else do { v \<leftarrow> BlockIter_value idx_iter;
                                       Some (do { handle \<leftarrow> BlockHandle_DecodeFrom v;
                                                  find_handle handles handle 0 }) });
                case block_idx of
                  None \<Rightarrow> Some (it\<lparr>si_iter := None\<rparr>)
                | Some i \<Rightarrow>
                    do { it \<leftarrow> SSTIter_SwitchToBlock env (it\<lparr>si_index := i\<rparr>) i;
                         case si_iter it of
                           None \<Rightarrow> Some it
                         | Some bi \<Rightarrow>
                             do { bi \<leftarrow> BlockIter_Seek bi target;
                                  SSTIter_Seek_forward env target (length handles - 1 - i)
                                    (it\<lparr>si_iter := Some bi\<rparr>) } } })"

definition SSTIter_Next :: "Env \<Rightarrow> SSTIter \<Rightarrow> SSTIter option" where
  "SSTIter_Next env it =
     (if \<not> SSTIter_Valid it then Some it
      else case si_iter it of
        None \<Rightarrow> Some it
      | Some bi \<Rightarrow>
          do { bi \<leftarrow> BlockIter_Next bi;
               let it = it\<lparr>si_iter := Some bi\<rparr>
               in if BlockIter_Valid bi then Some it
                  else let it = it\<lparr>si_index := si_index it + 1\<rparr>
                       in if si_index it < length (sst_handles (si_table it))
                          then do { it \<leftarrow> SSTIter_SwitchToBlock env it (si_index it);
                                    case si_iter it of
                                      None \<Rightarrow> Some it
                                    | Some bi \<Rightarrow>
                                        do { bi \<leftarrow> BlockIter_SeekToFirst bi;
                                             Some (it\<lparr>si_iter := if BlockIter_Valid bi then Some bi else None\<rparr>) } }
                          else Some (it\<lparr>si_iter := None\<rparr>) })"

definition SSTIter_internal_key :: "SSTIter \<Rightarrow> bytes" where
  "SSTIter_internal_key it = (case si_iter it of None \<Rightarrow> [] | Some bi \<Rightarrow> BlockIter_key bi)"

definition SSTIter_key :: "SSTIter \<Rightarrow> bytes" where
  "SSTIter_key it = (case si_iter it of None \<Rightarrow> [] | Some bi \<Rightarrow> ExtractUserKey (BlockIter_key bi))"

definition SSTIter_value :: "SSTIter \<Rightarrow> bytes option" where
  "SSTIter_value it = (case si_iter it of None \<Rightarrow> Some [] | Some bi \<Rightarrow> BlockIter_value bi)"

definition SSTIter_seq :: "SSTIter \<Rightarrow> u64" where
  "SSTIter_seq it = (case si_iter it of None \<Rightarrow> 0 | Some bi \<Rightarrow> ExtractSeq (BlockIter_key bi))"

definition SSTIter_type :: "SSTIter \<Rightarrow> byte" where
  "SSTIter_type it = (case si_iter it of None \<Rightarrow> kTypeValue | Some bi \<Rightarrow> ExtractType (BlockIter_key bi))"

subsection \<open>\<open>SSTable::Get\<close>\<close>

lemma SwitchToBlock_frame:
  "SSTIter_SwitchToBlock env it i = Some it' \<Longrightarrow> si_table it' = si_table it \<and> si_index it' = si_index it"
  by (auto simp: SSTIter_SwitchToBlock_def Let_def split: if_splits bind_splits option.splits)

text \<open>Every step of the iterator makes progress: to a later block or further in the block.\<close>

definition SSTIter_rest :: "SSTIter \<Rightarrow> nat \<times> nat" where
  "SSTIter_rest it = (length (sst_handles (si_table it)) - si_index it,
     case si_iter it of None \<Rightarrow> 0 | Some bi \<Rightarrow> Suc (iter_limit bi - iter_data bi))"

lemma SSTIter_Next_progress:
  assumes "SSTIter_Next env it = Some it'" and "SSTIter_Valid it"
  shows "(SSTIter_rest it', SSTIter_rest it) \<in> less_than <*lex*> less_than"
proof -
  obtain bi where bi: "si_iter it = Some bi" "BlockIter_Valid bi"
    using assms(2) by (auto simp: SSTIter_Valid_def split: option.splits)
  then obtain bi' where n: "BlockIter_Next bi = Some bi'"
    using assms by (auto simp: SSTIter_Next_def split: bind_splits)
  have adv: "iter_data bi < iter_data bi'" "iter_limit bi' = iter_limit bi" "iter_data bi < iter_limit bi"
    using BlockIter_Next_advances [OF n bi(2)] BlockIter_Next_frame [OF n] bi(2)
    by (auto simp: BlockIter_Valid_def)
  show ?thesis
  proof (cases "BlockIter_Valid bi'")
    case True
    then show ?thesis using assms bi n adv by (auto simp: SSTIter_Next_def SSTIter_rest_def)
  next
    case False
    then show ?thesis
      using assms bi n
      by (auto simp: SSTIter_Next_def SSTIter_rest_def Let_def split: if_splits bind_splits option.splits
          dest!: SwitchToBlock_frame)
  qed
qed

function SSTable_Get_loop ::
    "Env \<Rightarrow> bytes \<Rightarrow> u64 \<Rightarrow> SSTIter \<Rightarrow> (Status \<times> (bytes \<times> u64 \<times> byte) option) option" where
  "SSTable_Get_loop env user_key snapshot_seq it =
     (if SSTIter_Valid it \<and> Slice_eq (SSTIter_key it) user_key
      then let e = SSTIter_seq it
           in if e \<le> snapshot_seq
              then do { v \<leftarrow> SSTIter_value it; Some (Status_OK, Some (v, e, SSTIter_type it)) }
              else (case SSTIter_Next env it of
                      None \<Rightarrow> None
                    | Some it' \<Rightarrow> SSTable_Get_loop env user_key snapshot_seq it')
      else if \<not> ok (si_status it) then Some (si_status it, None)
      else Some (Status_NotFound '''', None))"
  by pat_completeness auto
termination
  by (relation "inv_image (less_than <*lex*> less_than) (\<lambda>(env, k, s, it). SSTIter_rest it)")
    (auto dest: SSTIter_Next_progress)

declare SSTable_Get_loop.simps [simp del]

definition SSTable_Get ::
    "Env \<Rightarrow> SSTable \<Rightarrow> bytes \<Rightarrow> u64 \<Rightarrow> (Status \<times> (bytes \<times> u64 \<times> byte) option) option" where
  "SSTable_Get env t user_key snapshot_seq =
     do { may \<leftarrow> (if sst_handles t \<noteq> [] then BloomFilter_MayMatch (sst_bloom t) user_key else Some True);
          if sst_handles t \<noteq> [] \<and> \<not> may then Some (Status_NotFound '''', None)
          else do { it \<leftarrow> SSTIter_Seek env (SSTable_NewIterator t) (SeekInternalKey user_key);
                    SSTable_Get_loop env user_key snapshot_seq it } }"

subsection \<open>The table iterator as a cursor\<close>

text \<open>\<open>block_ok data kvs\<close>: the bytes are a block holding \<open>kvs\<close>; \<open>table_of env t bss\<close>: the
  opened table \<open>t\<close> consists of the data blocks \<open>bss\<close>, each readable through its handle, and
  the index block lists their last keys.\<close>

definition block_ok :: "bytes \<Rightarrow> (bytes \<times> bytes) list \<Rightarrow> bool" where
  "block_ok data kvs \<longleftrightarrow>
     (\<forall>v. iterates (Block_NewIterator (Block_new data v)) kvs \<and> checksum_ok (Block_new data v))"

definition table_of :: "Env \<Rightarrow> SSTable \<Rightarrow> (bytes \<times> bytes) list list \<Rightarrow> bool" where
  "table_of env t bss \<longleftrightarrow>
     length (sst_handles t) = length bss \<and> [] \<notin> set bss
     \<and> (\<forall>i < length bss. \<exists>data. SSTable_ReadBlock env t (sst_handles t ! i) = Some (Status_OK, data)
          \<and> block_ok data (bss ! i))
     \<and> distinct (map (\<lambda>h. (bh_offset h, bh_size h)) (sst_handles t))
     \<and> iterates (Block_NewIterator (sst_index_block t))
         (map2 (\<lambda>kvs h. (fst (last kvs), BlockHandle_EncodeTo h [])) bss (sst_handles t))"

definition sst_on :: "Env \<Rightarrow> SSTable \<Rightarrow> (bytes \<times> bytes) list list \<Rightarrow> SSTIter \<Rightarrow> (bytes \<times> bytes) list \<Rightarrow> bool" where
  "sst_on env t bss it rest \<longleftrightarrow> table_of env t bss \<and> si_table it = t \<and> ok (si_status it) \<and>
     (case si_iter it of
        None \<Rightarrow> rest = []
      | Some bi \<Rightarrow> si_index it < length bss \<and>
          (\<exists>r. block_on (bss ! si_index it) bi r \<and> rest = r @ concat (drop (Suc (si_index it)) bss)
             \<and> (r = [] \<longrightarrow> rest = [])))"

lemma SwitchToBlock_on:
  assumes "table_of env (si_table it) bss" and "i < length bss"
  shows "\<exists>bi. SSTIter_SwitchToBlock env it i = Some (it\<lparr>si_status := Status_OK, si_iter := Some bi\<rparr>)
    \<and> iterates bi (bss ! i) \<and> block_on (bss ! i) bi (bss ! i)"
proof -
  obtain data where d: "SSTable_ReadBlock env (si_table it) (sst_handles (si_table it) ! i) = Some (Status_OK, data)"
      "block_ok data (bss ! i)"
    using assms by (auto simp: table_of_def)
  have len: "i < length (sst_handles (si_table it))" using assms by (auto simp: table_of_def)
  let ?blk = "Block_new data (paranoid_checks (sst_options (si_table it)))"
  obtain bi where bi: "BlockIter_SeekToFirst (Block_NewIterator ?blk) = Some bi" "block_on (bss ! i) bi (bss ! i)"
    using d(2) BlockIter_SeekToFirst_on unfolding block_ok_def by blast
  have "bss ! i \<noteq> []" using assms nth_mem by (fastforce simp: table_of_def)
  then have "BlockIter_Valid bi" using BlockIter_Valid_on [OF bi(2)] by simp
  moreover have "checksum_ok ?blk" using d(2) by (simp add: block_ok_def)
  ultimately show ?thesis
    using d(1) len bi block_on_iterates [OF bi(2)]
    by (auto simp: SSTIter_SwitchToBlock_def Let_def not_le)
qed

lemma SSTIter_SeekToFirst_on:
  assumes "table_of env (si_table it) bss" and "ok (si_status it)"
  shows "\<exists>it'. SSTIter_SeekToFirst env it = Some it' \<and> sst_on env (si_table it) bss it' (concat bss)"
proof (cases "bss = []")
  case True
  then show ?thesis using assms by (simp add: SSTIter_SeekToFirst_def sst_on_def table_of_def)
next
  case False
  then have h: "sst_handles (si_table it) \<noteq> []" using assms(1) by (auto simp: table_of_def)
  obtain bi where bi: "SSTIter_SwitchToBlock env (it\<lparr>si_index := 0\<rparr>) 0
      = Some (it\<lparr>si_index := 0, si_status := Status_OK, si_iter := Some bi\<rparr>)" "iterates bi (bss ! 0)"
    using SwitchToBlock_on [of env "it\<lparr>si_index := 0\<rparr>" bss 0] assms(1) False by auto
  obtain bi' where bi': "BlockIter_SeekToFirst bi = Some bi'" "block_on (bss ! 0) bi' (bss ! 0)"
    using BlockIter_SeekToFirst_on [OF bi(2)] by blast
  have "bss ! 0 @ concat (drop (Suc 0) bss) = concat bss" and "bss ! 0 \<noteq> []"
    using False assms(1) by (cases bss; auto simp: table_of_def)+
  then show ?thesis
    using h bi bi' assms(1) False by (auto simp: SSTIter_SeekToFirst_def sst_on_def)
qed

lemma SSTIter_Valid_on: "sst_on env t bss it rest \<Longrightarrow> SSTIter_Valid it \<longleftrightarrow> rest \<noteq> []"
  by (auto simp: sst_on_def SSTIter_Valid_def BlockIter_Valid_on split: option.splits)

lemma sst_on_Cons:
  assumes "sst_on env t bss it (e # rest)"
  obtains bi r where "si_iter it = Some bi" "si_index it < length bss" "block_on (bss ! si_index it) bi (e # r)"
    "rest = r @ concat (drop (Suc (si_index it)) bss)" "table_of env t bss" "si_table it = t" "ok (si_status it)"
  using assms by (auto simp: sst_on_def Cons_eq_append_conv split: option.splits)

lemma SSTIter_Next_on:
  assumes "sst_on env t bss it (e # rest)"
  shows "\<exists>it'. SSTIter_Next env it = Some it' \<and> sst_on env t bss it' rest"
proof -
  let ?i = "si_index it"
  from assms obtain bi r where it: "si_iter it = Some bi" "?i < length bss"
      "block_on (bss ! ?i) bi (e # r)" "rest = r @ concat (drop (Suc ?i) bss)" "table_of env t bss"
      "si_table it = t" "ok (si_status it)"
    by (rule sst_on_Cons)
  have v: "SSTIter_Valid it" using SSTIter_Valid_on [OF assms] by simp
  obtain bi' where bi': "BlockIter_Next bi = Some bi'" "block_on (bss ! ?i) bi' r"
    using BlockIter_Next_on [OF it(3)] by blast
  show ?thesis
  proof (cases "r = []")
    case False
    then have "BlockIter_Valid bi'" using BlockIter_Valid_on [OF bi'(2)] by simp
    then show ?thesis using v it bi' False by (auto simp: SSTIter_Next_def sst_on_def)
  next
    case True
    then have nv: "\<not> BlockIter_Valid bi'" using BlockIter_Valid_on [OF bi'(2)] by simp
    have len: "length (sst_handles t) = length bss" using it(5) by (simp add: table_of_def)
    show ?thesis
    proof (cases "Suc ?i < length bss")
      case False
      then show ?thesis using v it bi' nv True len by (auto simp: SSTIter_Next_def sst_on_def)
    next
      case less: True
      let ?it = "it\<lparr>si_iter := Some bi', si_index := Suc ?i\<rparr>"
      obtain bj where bj: "SSTIter_SwitchToBlock env ?it (Suc ?i)
          = Some (?it\<lparr>si_status := Status_OK, si_iter := Some bj\<rparr>)" "iterates bj (bss ! Suc ?i)"
        using SwitchToBlock_on [of env ?it bss "Suc ?i"] it(5,6) less by auto
      obtain bk where bk: "BlockIter_SeekToFirst bj = Some bk" "block_on (bss ! Suc ?i) bk (bss ! Suc ?i)"
        using BlockIter_SeekToFirst_on [OF bj(2)] by blast
      have ne: "bss ! Suc ?i \<noteq> []" using it(5) less nth_mem by (fastforce simp: table_of_def)
      then have "BlockIter_Valid bk" using BlockIter_Valid_on [OF bk(2)] by simp
      then have "SSTIter_Next env it = Some (?it\<lparr>si_status := Status_OK, si_iter := Some bk\<rparr>)"
        using v it(1,6) bi'(1) nv less len bj(1) bk(1) by (simp add: SSTIter_Next_def)
      moreover have "rest = bss ! Suc ?i @ concat (drop (Suc (Suc ?i)) bss)"
        using it(4) True less by (simp add: Cons_nth_drop_Suc [symmetric])
      ultimately show ?thesis using it(5,6) less bk(2) ne by (auto simp: sst_on_def)
    qed
  qed
qed

lemma SSTIter_fields_on:
  assumes "sst_on env t bss it ((k, v) # rest)"
  shows "SSTIter_internal_key it = k" "SSTIter_key it = ExtractUserKey k" "SSTIter_value it = Some v"
    "SSTIter_seq it = ExtractSeq k" "SSTIter_type it = ExtractType k" "ok (si_status it)"
proof -
  from assms obtain bi r where it: "si_iter it = Some bi" "block_on (bss ! si_index it) bi ((k, v) # r)"
      "ok (si_status it)"
    by (rule sst_on_Cons)
  have "BlockIter_key bi = k" "BlockIter_value bi = Some v" using bi.on_key [OF it(2)] bi.on_val [OF it(2)] .
  then show "SSTIter_internal_key it = k" "SSTIter_key it = ExtractUserKey k" "SSTIter_value it = Some v"
      "SSTIter_seq it = ExtractSeq k" "SSTIter_type it = ExtractType k" "ok (si_status it)"
    using it by (simp_all add: SSTIter_internal_key_def SSTIter_key_def SSTIter_value_def SSTIter_seq_def
        SSTIter_type_def)
qed

interpretation si: cursor "sst_on env t bss" SSTIter_Valid "SSTIter_Next env" SSTIter_internal_key SSTIter_value
  for env t bss
  by unfold_locales (fact SSTIter_Valid_on SSTIter_fields_on(1,3) SSTIter_Next_on)+

subsection \<open>\<open>Seek\<close> across blocks\<close>

lemma ikey_sorted_append:
  "ikey_sorted (xs @ ys) \<longleftrightarrow> ikey_sorted xs \<and> ikey_sorted ys
     \<and> (\<forall>x \<in> set xs. \<forall>y \<in> set ys. CompareInternalKeys (fst x) (fst y) \<le> 0)"
  by (auto simp: ikey_sorted_def sorted_wrt_append)

lemma ikey_sorted_Cons:
  "ikey_sorted (x # xs) \<longleftrightarrow> (\<forall>y \<in> set xs. CompareInternalKeys (fst x) (fst y) \<le> 0) \<and> ikey_sorted xs"
  by (simp add: ikey_sorted_def)

lemma CompareInternalKeys_le_less_trans:
  "CompareInternalKeys a b \<le> 0 \<Longrightarrow> CompareInternalKeys b c < 0 \<Longrightarrow> CompareInternalKeys a c < 0"
  by (auto simp: CompareInternalKeys_rank split: if_splits)

lemma sorted_last_below:
  assumes "ikey_sorted kvs" and "kvs \<noteq> []" and "CompareInternalKeys (fst (last kvs)) target < 0" and "e \<in> set kvs"
  shows "CompareInternalKeys (fst e) target < 0"
proof -
  obtain i where "i < length kvs" "e = kvs ! i" using assms(4) by (auto simp: in_set_conv_nth)
  moreover have "CompareInternalKeys (fst e) (fst (last kvs)) \<le> 0 \<or> e = last kvs"
    using assms(1,2) calculation
    by (cases "i = length kvs - 1") (auto simp: ikey_sorted_def sorted_wrt_iff_nth_less last_conv_nth)
  ultimately show ?thesis
    using assms(3) CompareInternalKeys_le_less_trans [of "fst e" "fst (last kvs)" target] by auto
qed

lemma ikey_sorted_concat_nth:
  "ikey_sorted (concat bss) \<Longrightarrow> i < length bss \<Longrightarrow> ikey_sorted (bss ! i)"
  by (induction bss arbitrary: i) (auto simp: ikey_sorted_append nth_Cons split: nat.splits)

text \<open>The blocks whose last key is below the target hold only entries below it.\<close>

lemma dropWhile_concat:
  assumes "ikey_sorted (concat bss)" and "[] \<notin> set bss"
    and "dropWhile (\<lambda>kvs. CompareInternalKeys (fst (last kvs)) target < 0) bss = drop j bss"
    and "j = length (takeWhile (\<lambda>kvs. CompareInternalKeys (fst (last kvs)) target < 0) bss)"
  shows "dropWhile (ikey_below target) (concat bss) =
    (if j < length bss then dropWhile (ikey_below target) (bss ! j) @ concat (drop (Suc j) bss) else [])"
proof -
  let ?P = "\<lambda>kvs. CompareInternalKeys (fst (last kvs)) target < 0"
  have "ikey_below target e" if "e \<in> set (concat (takeWhile ?P bss))" for e
  proof -
    from that obtain kvs where k: "kvs \<in> set (takeWhile ?P bss)" "e \<in> set kvs" by auto
    then have "kvs \<in> set bss" "?P kvs" by (auto dest: set_takeWhileD)
    moreover then have "ikey_sorted kvs" using assms(1) ikey_sorted_concat_nth by (metis in_set_conv_nth)
    ultimately show ?thesis using sorted_last_below [of kvs target e] k(2) assms(2) by auto
  qed
  then have "dropWhile (ikey_below target) (concat (takeWhile ?P bss) @ concat (drop j bss))
      = dropWhile (ikey_below target) (concat (drop j bss))"
    by (rule dropWhile_append2)
  moreover have "concat bss = concat (takeWhile ?P bss) @ concat (drop j bss)"
    using assms(3) by (metis concat_append takeWhile_dropWhile_id)
  ultimately have eq: "dropWhile (ikey_below target) (concat bss) = dropWhile (ikey_below target) (concat (drop j bss))"
    by simp
  show ?thesis
  proof (cases "j < length bss")
    case True
    have "\<not> ?P (bss ! j)" using True assms(4) nth_length_takeWhile by blast
    moreover have "bss ! j \<noteq> []" using True assms(2) nth_mem by fastforce
    ultimately have "last (bss ! j) \<in> set (bss ! j)" "\<not> ikey_below target (last (bss ! j))" by auto
    then show ?thesis
      using True by (simp add: eq Cons_nth_drop_Suc [symmetric] dropWhile_append1)
  qed (simp add: eq)
qed

lemma find_handle_nth:
  assumes "distinct (map (\<lambda>h. (bh_offset h, bh_size h)) hs)" and "j < length hs"
  shows "find_handle hs (hs ! j) i = Some (i + j)"
  using assms
proof (induction hs arbitrary: i j)
  case (Cons h hs)
  show ?case
  proof (cases j)
    case (Suc j')
    with Cons.prems(2) have "hs ! j' \<in> set hs" by simp
    with Cons.prems(1) have "(bh_offset h, bh_size h) \<noteq> (bh_offset (hs ! j'), bh_size (hs ! j'))"
      by force
    with Suc Cons show ?thesis by auto
  qed simp
qed simp

lemma drop_takeWhile_length: "drop (length (takeWhile P xs)) xs = dropWhile P xs"
  by (simp add: dropWhile_eq_drop)

lemma ikey_sorted_lasts:
  assumes "ikey_sorted (concat bss)" and "[] \<notin> set bss" and "length hs = length bss"
  shows "ikey_sorted (map2 (\<lambda>kvs h. (fst (last kvs), f h)) bss hs)"
  using assms
proof (induction bss arbitrary: hs)
  case (Cons kvs bss)
  obtain h hs' where hs: "hs = h # hs'" "length hs' = length bss" using Cons.prems(3) by (cases hs) auto
  have "CompareInternalKeys (fst (last kvs)) (fst e) \<le> 0"
    if e: "e \<in> set (map2 (\<lambda>kvs h. (fst (last kvs), f h)) bss hs')" for e
  proof -
    from e obtain kvs' where "kvs' \<in> set bss" "fst e = fst (last kvs')"
      by (auto dest: set_zip_leftD)
    moreover then have "last kvs' \<in> set kvs'" using Cons.prems(2) by (metis last_in_set list.set_intros(2))
    moreover have "last kvs \<in> set kvs" using Cons.prems(2) by auto
    ultimately show ?thesis using Cons.prems(1) by (auto simp: ikey_sorted_append)
  qed
  moreover have "ikey_sorted (map2 (\<lambda>kvs h. (fst (last kvs), f h)) bss hs')"
    using Cons.IH [OF _ _ hs(2)] Cons.prems by (simp add: ikey_sorted_append)
  ultimately show ?case unfolding hs(1) zip_Cons_Cons list.map ikey_sorted_Cons by simp
qed (simp add: ikey_sorted_def)

lemma dropWhile_map2:
  "length hs = length bss \<Longrightarrow>
   dropWhile (ikey_below target) (map2 (\<lambda>kvs h. (fst (last kvs), f h)) bss hs)
   = drop (length (takeWhile (\<lambda>kvs. CompareInternalKeys (fst (last kvs)) target < 0) bss))
       (map2 (\<lambda>kvs h. (fst (last kvs), f h)) bss hs)"
proof (induction bss arbitrary: hs)
  case (Cons kvs bss)
  then show ?case by (cases hs) auto
qed simp

lemma SSTIter_Seek_index:
  fixes target :: bytes
  assumes "table_of env t bss" and "ikey_sorted (concat bss)" and "bss \<noteq> []"
  defines "j \<equiv> length (takeWhile (\<lambda>kvs. CompareInternalKeys (fst (last kvs)) target < 0) bss)"
  shows "\<exists>idx_iter. BlockIter_Seek (Block_NewIterator (sst_index_block t)) target = Some idx_iter
    \<and> (BlockIter_Valid idx_iter \<longleftrightarrow> j < length bss)
    \<and> (j < length bss \<longrightarrow> BlockIter_value idx_iter = Some (BlockHandle_EncodeTo (sst_handles t ! j) []))"
proof -
  let ?idx = "map2 (\<lambda>kvs h. (fst (last kvs), BlockHandle_EncodeTo h [])) bss (sst_handles t)"
  have t: "iterates (Block_NewIterator (sst_index_block t)) ?idx" "length (sst_handles t) = length bss"
      "[] \<notin> set bss"
    using assms(1) by (auto simp: table_of_def)
  have "ikey_sorted ?idx" using ikey_sorted_lasts [OF assms(2) t(3,2)] .
  then obtain ii where ii: "BlockIter_Seek (Block_NewIterator (sst_index_block t)) target = Some ii"
      "block_on ?idx ii (drop j ?idx)"
    using BlockIter_Seek_on [OF t(1)] dropWhile_map2 [OF t(2)] unfolding j_def by metis
  have "drop j ?idx \<noteq> [] \<longleftrightarrow> j < length bss" using t(2) by auto
  then have "BlockIter_Valid ii \<longleftrightarrow> j < length bss" using BlockIter_Valid_on [OF ii(2)] by simp
  moreover have "BlockIter_value ii = Some (BlockHandle_EncodeTo (sst_handles t ! j) [])" if j: "j < length bss"
  proof -
    have "drop j ?idx = (fst (last (bss ! j)), BlockHandle_EncodeTo (sst_handles t ! j) []) # drop (Suc j) ?idx"
      using j t(2) by (subst Cons_nth_drop_Suc [symmetric]) auto
    with ii(2) show ?thesis by (metis BlockIter_value_on)
  qed
  ultimately show ?thesis using ii(1) by blast
qed

lemma Seek_block_rest:
  fixes target :: bytes
  assumes "ikey_sorted (concat bss)" and "[] \<notin> set bss" and "bss \<noteq> []"
  defines "j \<equiv> length (takeWhile (\<lambda>kvs. CompareInternalKeys (fst (last kvs)) target < 0) bss)"
  shows "j < length bss \<Longrightarrow> dropWhile (ikey_below target) (bss ! j) \<noteq> []"
    and "\<not> j < length bss \<Longrightarrow> dropWhile (ikey_below target) (bss ! (length bss - 1)) = []"
proof -
  show "dropWhile (ikey_below target) (bss ! j) \<noteq> []" if j: "j < length bss"
  proof -
    have "\<not> CompareInternalKeys (fst (last (bss ! j))) target < 0"
      using j nth_length_takeWhile unfolding j_def by blast
    moreover have "bss ! j \<noteq> []" using j assms(2) nth_mem by fastforce
    ultimately show ?thesis unfolding dropWhile_eq_Nil_conv by (meson last_in_set)
  qed
  show "dropWhile (ikey_below target) (bss ! (length bss - 1)) = []" if "\<not> j < length bss"
  proof -
    let ?kvs = "bss ! (length bss - 1)"
    have i: "length bss - 1 < length bss" using assms(3) by simp
    have "takeWhile (\<lambda>kvs. CompareInternalKeys (fst (last kvs)) target < 0) bss = bss"
      using that unfolding j_def by (metis length_takeWhile_le linorder_less_linear not_less takeWhile_eq_take take_all_iff)
    then have "CompareInternalKeys (fst (last ?kvs)) target < 0"
      using i by (metis nth_mem set_takeWhileD)
    moreover have "?kvs \<noteq> []" using i assms(2) nth_mem by metis
    moreover have "ikey_sorted ?kvs" using ikey_sorted_concat_nth [OF assms(1) i] .
    ultimately show ?thesis
      unfolding dropWhile_eq_Nil_conv using sorted_last_below by blast
  qed
qed

lemma SSTIter_Seek_on:
  assumes "table_of env (si_table it) bss" and "ok (si_status it)" and "ikey_sorted (concat bss)"
  shows "\<exists>it'. SSTIter_Seek env it target = Some it'
    \<and> sst_on env (si_table it) bss it' (dropWhile (ikey_below target) (concat bss))"
proof (cases "bss = []")
  case True
  then show ?thesis using assms by (simp add: SSTIter_Seek_def sst_on_def table_of_def)
next
  case False
  let ?t = "si_table it"
  let ?j = "length (takeWhile (\<lambda>kvs. CompareInternalKeys (fst (last kvs)) target < 0) bss)"
  let ?i = "if ?j < length bss then ?j else length bss - 1"
  have t: "length (sst_handles ?t) = length bss" "[] \<notin> set bss" "sst_handles ?t \<noteq> []"
      "distinct (map (\<lambda>h. (bh_offset h, bh_size h)) (sst_handles ?t))"
    using assms(1) False by (auto simp: table_of_def)
  obtain ii where ii: "BlockIter_Seek (Block_NewIterator (sst_index_block ?t)) target = Some ii"
      "BlockIter_Valid ii \<longleftrightarrow> ?j < length bss"
      "?j < length bss \<longrightarrow> BlockIter_value ii = Some (BlockHandle_EncodeTo (sst_handles ?t ! ?j) [])"
    using SSTIter_Seek_index [OF assms(1,3) False] by blast
  have i: "?i < length bss" using False by simp
  let ?it = "it\<lparr>si_index := ?i\<rparr>"
  obtain bi where bi: "SSTIter_SwitchToBlock env ?it ?i = Some (?it\<lparr>si_status := Status_OK, si_iter := Some bi\<rparr>)"
      "iterates bi (bss ! ?i)"
    using SwitchToBlock_on [of env ?it bss ?i] assms(1) i by auto
  have "ikey_sorted (bss ! ?i)" using ikey_sorted_concat_nth [OF assms(3) i] .
  from BlockIter_Seek_on [OF bi(2) this, of target] obtain bi'
    where bi': "BlockIter_Seek bi target = Some bi'"
      "block_on (bss ! ?i) bi' (dropWhile (ikey_below target) (bss ! ?i))" by blast
  let ?res = "?it\<lparr>si_status := Status_OK, si_iter := Some bi'\<rparr>"
  note cut = dropWhile_concat [OF assms(3) t(2) drop_takeWhile_length [symmetric] refl]
  note rest = Seek_block_rest [OF assms(3) t(2) False, of target]
  have on: "sst_on env ?t bss ?res (dropWhile (ikey_below target) (concat bss))"
  proof (cases "?j < length bss")
    case True
    then show ?thesis using cut rest(1) bi'(2) assms(1) by (auto simp: sst_on_def)
  next
    case nj: False
    then have "dropWhile (ikey_below target) (bss ! ?i) = []" using rest(2) by simp
    then have "block_on (bss ! ?i) bi' []" using bi'(2) by (simp only:)
    with nj cut show ?thesis using assms(1) i False by (simp add: sst_on_def)
  qed
  have "?j < length bss \<Longrightarrow> BlockIter_Valid bi'"
    using BlockIter_Valid_on [OF bi'(2)] rest(1) by simp
  then have fwd: "SSTIter_Seek_forward env target (length (sst_handles ?t) - 1 - ?i) ?res = Some ?res"
    using t(1) by (cases "?j < length bss"; cases "length bss - 1 - ?i") auto
  have "SSTIter_Seek env it target = Some ?res"
  proof (cases "?j < length bss")
    case True
    then show ?thesis
      using ii t bi bi'(1) fwd find_handle_nth [OF t(4), of ?j 0]
      by (simp add: SSTIter_Seek_def Let_def)
  next
    case False
    then show ?thesis using ii t bi bi'(1) fwd by (simp add: SSTIter_Seek_def Let_def)
  qed
  with on show ?thesis by blast
qed

subsection \<open>What \<open>Get\<close> returns\<close>

text \<open>The newest version of a key visible at a snapshot, in a list of entries that has the
  versions of a key newest first.\<close>

definition newest_visible :: "entry list \<Rightarrow> bytes \<Rightarrow> u64 \<Rightarrow> entry option" where
  "newest_visible es k snap = find (\<lambda>(u, s, t, v). u = k \<and> s \<le> snap) es"

fun get_result :: "entry option \<Rightarrow> Status \<times> (bytes \<times> u64 \<times> byte) option" where
  "get_result None = (Status_NotFound '''', None)"
| "get_result (Some (u, s, t, v)) = (Status_OK, Some (v, s, t))"

text \<open>Sequence numbers fit the 56 bits the trailer has for them.\<close>

definition seqs_ok :: "entry list \<Rightarrow> bool" where
  "seqs_ok es \<longleftrightarrow> (\<forall>e \<in> set es. unat (fst (snd e)) < 2 ^ 56)"

lemma SSTable_Get_loop_on:
  assumes "sst_on env t bss it (map ikv es)" and "seqs_ok es"
  shows "SSTable_Get_loop env k snap it =
    Some (get_result (newest_visible (takeWhile (\<lambda>e. user_of e = k) es) k snap))"
  using assms
proof (induction es arbitrary: it)
  case Nil
  then have "\<not> SSTIter_Valid it" "ok (si_status it)"
    using SSTIter_Valid_on [of env t bss it "[]"] by (auto simp: sst_on_def)
  then show ?case by (subst SSTable_Get_loop.simps) (simp add: newest_visible_def)
next
  case (Cons e es)
  obtain u s ty v where e: "e = (u, s, ty, v)" by (cases e)
  have on: "sst_on env t bss it ((MakeInternalKey u s ty, v) # map ikv es)"
    using Cons.prems(1) e by simp
  have s: "unat s < 2 ^ 56" using Cons.prems(2) e by (simp add: seqs_ok_def)
  note f = SSTIter_fields_on [OF on] SSTIter_Valid_on [OF on]
  obtain it' where it': "SSTIter_Next env it = Some it'" "sst_on env t bss it' (map ikv es)"
    using SSTIter_Next_on [OF on] by blast
  have IH: "SSTable_Get_loop env k snap it' =
      Some (get_result (newest_visible (takeWhile (\<lambda>e. user_of e = k) es) k snap))"
    using Cons.IH [OF it'(2)] Cons.prems(2) by (simp add: seqs_ok_def)
  show ?case
    using f it'(1) IH s e
    by (subst SSTable_Get_loop.simps)
      (simp add: newest_visible_def Slice_eq_iff ExtractSeq_Make)
qed

lemma SeekInternalKey_below:
  "CompareInternalKeys (MakeInternalKey u s t) (SeekInternalKey k) < 0 \<longleftrightarrow> u < k"
proof -
  have "push_bit 8 (drop_bit 8 (- 1)) OR ucast (0xFF :: byte) = (- 1 :: u64)"
    by code_simp
  then have "PackInternalTrailer (drop_bit 8 (- 1)) 0xFF = 0"
    by (simp only: PackInternalTrailer_def) simp
  then have z: "ikey_trailer (SeekInternalKey k) = 0" by (simp add: SeekInternalKey_def)
  have "ikey_user (SeekInternalKey k) = k" by (simp add: SeekInternalKey_def)
  with z show ?thesis by (auto simp: CompareInternalKeys_rank)
qed

text \<open>Sorted by user key: the versions of a key are adjacent.\<close>

lemma newest_visible_dropWhile:
  assumes "sorted (map user_of es)"
  shows "newest_visible (takeWhile (\<lambda>e. user_of e = k) (dropWhile (\<lambda>e. user_of e < k) es)) k snap
    = newest_visible es k snap"
proof -
  have later: "newest_visible es k snap = None" if "\<forall>e \<in> set es. k < user_of e" for es
    using that by (auto simp: newest_visible_def find_None_iff)
  have run: "newest_visible (takeWhile (\<lambda>e. user_of e = k) es) k snap = newest_visible es k snap"
    if "sorted (map user_of es)" "\<forall>e \<in> set es. k \<le> user_of e" for es
    using that
  proof (induction es)
    case (Cons e es)
    show ?case
    proof (cases "user_of e = k")
      case True
      then show ?thesis using Cons by (auto simp: newest_visible_def)
    next
      case False
      then have "\<forall>e' \<in> set (e # es). k < user_of e'" using Cons.prems by fastforce
      then show ?thesis using later [of "e # es"] False by (simp add: newest_visible_def)
    qed
  qed simp
  show ?thesis
    using assms
  proof (induction es)
    case (Cons e es)
    show ?case
    proof (cases "user_of e < k")
      case True
      then show ?thesis using Cons by (auto simp: newest_visible_def)
    next
      case False
      then have "\<forall>e' \<in> set (e # es). k \<le> user_of e'" using Cons.prems by fastforce
      then show ?thesis using run [of "e # es"] Cons.prems False by simp
    qed
  qed (simp add: newest_visible_def)
qed

lemma ikey_sorted_user_sorted:
  assumes "ikey_sorted (map ikv es)"
  shows "sorted (map user_of es)"
proof -
  have u: "ikey_user (fst (ikv e)) = user_of e" for e by (cases e) simp
  have "CompareInternalKeys (fst (ikv a)) (fst (ikv b)) \<le> 0 \<Longrightarrow> user_of a \<le> user_of b" for a b
    by (auto simp: CompareInternalKeys_rank u split: if_splits)
  then show ?thesis
    using assms by (auto simp: ikey_sorted_def sorted_wrt_map elim: sorted_wrt_mono_rel [rotated])
qed

definition table_bloom_ok :: "SSTable \<Rightarrow> entry list \<Rightarrow> bool" where
  "table_bloom_ok t es \<longleftrightarrow> bloom_wf (sst_bloom t) \<and> (\<forall>e \<in> set es. bloom_has (sst_bloom t) (user_of e))"

lemma SSTable_Get_on:
  assumes "table_of env t bss" and "concat bss = map ikv es" and "ikey_sorted (map ikv es)"
    and "seqs_ok es" and "table_bloom_ok t es"
  shows "SSTable_Get env t k snap = Some (get_result (newest_visible es k snap))"
proof -
  have may: "BloomFilter_MayMatch (sst_bloom t) k = Some (bloom_has (sst_bloom t) k)"
    using assms(5) MayMatch_iff by (simp add: table_bloom_ok_def)
  obtain it where it: "SSTIter_Seek env (SSTable_NewIterator t) (SeekInternalKey k) = Some it"
      "sst_on env t bss it (dropWhile (ikey_below (SeekInternalKey k)) (map ikv es))"
    using SSTIter_Seek_on [of env "SSTable_NewIterator t" bss "SeekInternalKey k"] assms(1-3)
    by (auto simp: SSTable_NewIterator_def)
  have b: "ikey_below (SeekInternalKey k) (ikv e) \<longleftrightarrow> user_of e < k" for e
    by (cases e) (simp add: SeekInternalKey_below)
  then have "dropWhile (ikey_below (SeekInternalKey k)) (map ikv es) = map ikv (dropWhile (\<lambda>e. user_of e < k) es)"
    by (simp add: dropWhile_map comp_def)
  moreover have "seqs_ok (dropWhile (\<lambda>e. user_of e < k) es)"
    using assms(4) by (auto simp: seqs_ok_def dest: set_dropWhileD)
  ultimately have loop: "SSTable_Get_loop env k snap it = Some (get_result (newest_visible es k snap))"
    using SSTable_Get_loop_on [of env t bss it "dropWhile (\<lambda>e. user_of e < k) es"] it(2)
      newest_visible_dropWhile [OF ikey_sorted_user_sorted [OF assms(3)]] by simp
  show ?thesis
  proof (cases "sst_handles t \<noteq> [] \<and> \<not> bloom_has (sst_bloom t) k")
    case True
    then have "newest_visible es k snap = None"
      using assms(5) by (auto simp: table_bloom_ok_def newest_visible_def find_None_iff)
    with True may show ?thesis by (simp add: SSTable_Get_def)
  next
    case False
    then show ?thesis using may it(1) loop by (auto simp: SSTable_Get_def)
  qed
qed

subsection \<open>Opening the file that \<open>TableBuilder\<close> wrote\<close>

lemma TableFooter_roundtrip:
  "TableFooter_DecodeFrom (TableFooter_EncodeTo f []) = (Status_OK, Some f)"
proof -
  let ?a = "EncodeFixed64 (index_block_handle_offset f)" and ?b = "EncodeFixed64 (meta_index_block_handle_offset f)"
  have e: "TableFooter_EncodeTo f [] = ?a @ ?b @ kMagic"
    by (simp add: TableFooter_EncodeTo_def PutFixed64_def EncodeFixed64_def)
  have k: "length kMagic = 8" by (simp add: kMagic_def)
  have "DecodeFixed64 (?a @ ?b @ kMagic) 0 = index_block_handle_offset f"
    by (rule DecodeFixed64_at) simp
  moreover have "DecodeFixed64 (?a @ ?b @ kMagic) 8 = meta_index_block_handle_offset f"
    using holds_at_self [of ?a ?b kMagic] by (intro DecodeFixed64_at) simp
  ultimately show ?thesis
    by (simp add: TableFooter_DecodeFrom_def e k Let_def memcmp_eq_0_iff)
qed

lemma FileReader_Read_at:
  assumes "holds_at (fr_data r) off xs" and "off + length xs \<le> length (fr_data r)"
    and "length (fr_data r) < 2 ^ 63"
  shows "FileReader_Read r (word_of_nat off) (word_of_nat (length xs)) = Some (Status_OK, xs)"
proof -
  have u: "unat (word_of_nat n :: u64) = n" if "n < 2 ^ 63" for n
    using that by (simp add: unsigned_of_nat take_bit_nat_eq_self)
  have "\<not> FileReader_FileSize r < word_of_nat off + word_of_nat (length xs)"
    using assms(2,3) u [of "off + length xs"] u [of "length (fr_data r)"]
    by (simp add: FileReader_FileSize_def word_less_nat_alt del: of_nat_add flip: of_nat_add)
  moreover have "unat (word_of_nat off :: u64) = off" "unat (word_of_nat (length xs) :: u64) = length xs"
    using assms(2,3) by (auto intro!: u)
  ultimately show ?thesis
    using assms(1,2) by (auto simp: FileReader_Read_def holds_at_def)
qed

text \<open>A bound on the bytes a table needs, in terms of its entries: all offsets and sizes stay
  far below the widths the code uses.\<close>

definition table_size :: "(bytes \<times> bytes) list \<Rightarrow> nat" where
  "table_size kvs = sum_list (map (\<lambda>(k, v). 2 * length k + length v + 100) kvs) + 8192"

definition plain :: "Env \<Rightarrow> Options \<Rightarrow> bool" where
  "plain env opts \<longleftrightarrow> env_lz4 env = None \<or> compression opts = kNoCompression"

lemma data_block_out_plain:
  "plain env opts \<Longrightarrow> data_block_out env opts kvs = (False, build_block (block_size opts) kvs)"
  by (auto simp: plain_def data_block_out_def compress_block_def split: option.splits)

lemma length_build_block:
  assumes "entries_size kvs + 12 < 2 ^ 32"
  shows "0 < length (build_block n kvs) \<and> length (build_block n kvs) \<le> entries_size kvs + 12"
proof -
  have "builder_has (BlockBuilder_Add_all (BlockBuilder_new n) kvs) kvs"
    using builder_has_Add_all [OF builder_has_new assms] .
  then show ?thesis
    unfolding build_block_def
    by (subst (1 2) BlockBuilder_Finish_eq) (auto simp: builder_has_def length_concat_EncodeFixed32)
qed

lemma build_block_block_ok:
  assumes "entries_size kvs + 12 < 2 ^ 32"
  shows "block_ok (build_block n kvs) kvs"
  unfolding block_ok_def
proof (intro allI conjI)
  fix v
  show "iterates (Block_NewIterator (Block_new (build_block n kvs) v)) kvs" using build_block_ok(1) [OF assms] .
  show "checksum_ok (Block_new (build_block n kvs) v)"
    using build_block_ok(2) [OF assms, of n] by (cases v) (simp_all add: Block_new_def)
qed

lemma entries_size_concat:
  "kvs \<in> set bss \<Longrightarrow> entries_size kvs \<le> entries_size (concat bss)"
  by (induction bss) (auto simp: entries_size_def)

lemma entries_size_table: "entries_size kvs + 12 \<le> table_size kvs"
proof -
  have "entries_size kvs \<le> sum_list (map (\<lambda>(k, v). 2 * length k + length v + 100) kvs)"
    unfolding entries_size_def by (intro sum_list_mono) auto
  then show ?thesis by (simp add: table_size_def)
qed

lemma block_size_bound:
  assumes "table_size (concat bss) < 2 ^ 32" and "kvs \<in> set bss"
  shows "entries_size kvs + 12 < 2 ^ 32"
  using assms entries_size_concat [OF assms(2)] entries_size_table [of "concat bss"] by linarith

lemma length_BlockHandle_EncodeTo: "length (BlockHandle_EncodeTo h []) \<le> 21"
  using length_varint64_le_10 [of "bh_offset h"] length_varint64_le_10 [of "bh_size h"]
  unfolding BlockHandle_EncodeTo_eq by simp

lemma index_entries_size_aux:
  assumes "[] \<notin> set bss" and "length hs = length bss"
  shows "entries_size (map2 (\<lambda>kvs h. (fst (last kvs), BlockHandle_EncodeTo h [])) bss hs)
    \<le> sum_list (map (\<lambda>(k, v). length k + 40) (concat bss))"
  using assms
proof (induction bss arbitrary: hs)
  case (Cons kvs bss)
  obtain h hs' where hs: "hs = h # hs'" "length hs' = length bss" using Cons.prems(2) by (cases hs) auto
  have "last kvs \<in> set kvs" using Cons.prems(1) by auto
  then have "(\<lambda>(k, v). length k + 40) (last kvs) \<le> sum_list (map (\<lambda>(k, v). length k + 40) kvs)"
    by (intro member_le_sum_list) simp_all
  then have "length (fst (last kvs)) + length (BlockHandle_EncodeTo h []) + 19
      \<le> sum_list (map (\<lambda>(k, v). length k + 40) kvs)"
    using length_BlockHandle_EncodeTo [of h] by (simp add: case_prod_beta)
  moreover have "entries_size (map2 (\<lambda>kvs h. (fst (last kvs), BlockHandle_EncodeTo h [])) bss hs')
      \<le> sum_list (map (\<lambda>(k, v). length k + 40) (concat bss))"
    using Cons.IH [OF _ hs(2)] Cons.prems(1) by simp
  ultimately show ?case by (simp add: hs(1) entries_size_def)
qed (simp add: entries_size_def)

lemma data_section_size:
  assumes "plain env opts" and "[] \<notin> set bss" and "\<forall>kvs \<in> set bss. entries_size kvs + 12 < 2 ^ 32"
  shows "length (data_section env opts bss) \<le> sum_list (map (\<lambda>(k, v). length k + length v + 31) (concat bss))"
  using assms(2,3)
proof (induction bss)
  case (Cons kvs bss)
  have "length (build_block (block_size opts) kvs) \<le> entries_size kvs + 12"
    using length_build_block Cons.prems(2) by simp
  also have "\<dots> \<le> entries_size kvs + 12 * length kvs" using Cons.prems(1) by (cases kvs) auto
  also have "\<dots> = sum_list (map (\<lambda>(k, v). length k + length v + 31) kvs)"
    by (induction kvs) (auto simp: entries_size_def)
  finally show ?case
    using Cons by (simp add: data_section_def data_block_out_plain [OF assms(1)])
qed (simp add: data_section_def)

lemma entry_weights:
  "sum_list (map (\<lambda>(k, v). length k + length v + 31) kvs) + sum_list (map (\<lambda>(k, v). length k + 40) kvs)
   \<le> sum_list (map (\<lambda>(k, v). 2 * length k + length v + 100) kvs)"
  by (induction kvs) auto

lemma table_file_sizes:
  assumes "plain env opts" and "[] \<notin> set bss" and "table_size (concat bss) < 2 ^ 32"
    and "length (bloom_bits bloom) = 1024"
  shows "length (table_file env opts bloom bss) < 2 ^ 32"
    and "entries_size (index_entries env opts bss) + 12 < 2 ^ 32"
proof -
  let ?s = "\<lambda>f. sum_list (map f (concat bss))"
  have d: "length (data_section env opts bss) \<le> ?s (\<lambda>(k, v). length k + length v + 31)"
    using data_section_size [OF assms(1,2)] block_size_bound [OF assms(3)] by blast
  have i: "entries_size (index_entries env opts bss) \<le> ?s (\<lambda>(k, v). length k + 40)"
    using index_entries_size_aux [OF assms(2)] by (simp add: index_entries_def)
  have s: "?s (\<lambda>(k, v). length k + length v + 31) + ?s (\<lambda>(k, v). length k + 40) + 8192 \<le> table_size (concat bss)"
    unfolding table_size_def using entry_weights [of "concat bss"] by simp
  show e: "entries_size (index_entries env opts bss) + 12 < 2 ^ 32"
    using i s assms(3) by linarith
  have "length (index_section env opts bss) \<le> entries_size (index_entries env opts bss) + 12"
    using length_build_block [OF e] by (simp add: index_section_def)
  moreover have "length (footer_section a b) = 24" for a b
    by (simp add: footer_section_def TableFooter_EncodeTo_def PutFixed64_def kMagic_def)
  ultimately show "length (table_file env opts bloom bss) < 2 ^ 32"
    using d i s assms(3,4) by (simp add: table_file_def Let_def)
qed

lemma block_handles_nth:
  "i < length bss \<Longrightarrow> block_handles env opts off bss ! i =
     block_handle_at env opts (off + length (data_section env opts (take i bss))) (bss ! i)"
proof (induction bss arbitrary: off i)
  case (Cons kvs bss)
  then show ?case by (cases i) (auto simp: data_section_def add.assoc)
qed simp

lemma data_section_split:
  "i < length bss \<Longrightarrow> data_section env opts bss = data_section env opts (take i bss)
     @ snd (data_block_out env opts (bss ! i)) @ data_section env opts (drop (Suc i) bss)"
proof (induction bss arbitrary: i)
  case (Cons kvs bss)
  then show ?case by (cases i) (simp_all add: data_section_def)
qed simp

lemma SSTable_Open_index_on:
  assumes "block_on idx it (map2 (\<lambda>kvs h. (fst (last kvs), BlockHandle_EncodeTo h [])) bss hs)"
    and "length hs = length bss"
  shows "\<exists>lk. SSTable_Open_index it t = Some (Status_OK, t\<lparr>sst_largest := lk, sst_handles := sst_handles t @ hs\<rparr>)"
  using assms
proof (induction bss arbitrary: it t hs)
  case Nil
  then have "\<not> BlockIter_Valid it" using BlockIter_Valid_on by force
  with Nil show ?case
    by (intro exI [of _ "sst_largest t"]) (subst SSTable_Open_index.simps, simp)
next
  case (Cons kvs bss)
  obtain h hs' where hs: "hs = h # hs'" "length hs' = length bss" using Cons.prems(2) by (cases hs) auto
  have on: "block_on idx it ((fst (last kvs), BlockHandle_EncodeTo h [])
      # map2 (\<lambda>kvs h. (fst (last kvs), BlockHandle_EncodeTo h [])) bss hs')"
    using Cons.prems(1) hs(1) by simp
  obtain it' where it': "BlockIter_Next it = Some it'"
      "block_on idx it' (map2 (\<lambda>kvs h. (fst (last kvs), BlockHandle_EncodeTo h [])) bss hs')"
    using BlockIter_Next_on [OF on] by blast
  let ?t = "t\<lparr>sst_largest := ExtractUserKey (BlockIter_key it), sst_handles := sst_handles t @ [h]\<rparr>"
  obtain lk where lk: "SSTable_Open_index it' ?t
      = Some (Status_OK, ?t\<lparr>sst_largest := lk, sst_handles := sst_handles ?t @ hs'\<rparr>)"
    using Cons.IH [OF it'(2) hs(2)] by blast
  have "BlockIter_Valid it" using BlockIter_Valid_on [OF on] by simp
  then have "SSTable_Open_index it t = SSTable_Open_index it' ?t"
    using BlockIter_value_on [OF on] it'(1) by (subst SSTable_Open_index.simps) simp
  with lk hs(1) show ?case by (intro exI [of _ lk]) simp
qed

text \<open>The data block behind each handle.\<close>

lemma read_data_block:
  assumes "plain env opts" and "fr_data r = data_section env opts bss @ rest" and "length (fr_data r) < 2 ^ 63"
    and "i < length bss"
  shows "FileReader_Read r (bh_offset (block_handles env opts 0 bss ! i)) (bh_size (block_handles env opts 0 bss ! i))
    = Some (Status_OK, build_block (block_size opts) (bss ! i))"
proof -
  let ?out = "build_block (block_size opts) (bss ! i)"
  have out: "data_block_out env opts (bss ! i) = (False, ?out)" using data_block_out_plain [OF assms(1)] .
  let ?off = "length (data_section env opts (take i bss))"
  have f: "fr_data r = data_section env opts (take i bss) @ ?out @ data_section env opts (drop (Suc i) bss) @ rest"
    using assms(2) data_section_split [OF assms(4), of env opts] out by simp
  then have "FileReader_Read r (word_of_nat ?off) (word_of_nat (length ?out)) = Some (Status_OK, ?out)"
    using assms(3) by (intro FileReader_Read_at) (simp_all add: f)
  then show ?thesis
    using assms(4) by (simp add: block_handles_nth block_handle_at_def out)
qed

lemma block_handles_plain:
  "plain env opts \<Longrightarrow> i < length bss \<Longrightarrow> \<not> is_compressed (block_handles env opts 0 bss ! i)"
  by (simp add: block_handles_nth block_handle_at_def data_block_out_plain)

lemma block_handles_distinct:
  assumes "plain env opts" and "length (data_section env opts bss) < 2 ^ 63"
    and "\<forall>kvs \<in> set bss. entries_size kvs + 12 < 2 ^ 32"
  shows "distinct (map (\<lambda>h. (bh_offset h, bh_size h)) (block_handles env opts 0 bss))"
proof -
  let ?off = "\<lambda>i. length (data_section env opts (take i bss))"
  have le: "?off i \<le> length (data_section env opts bss)" if "i < length bss" for i
    using data_section_split [OF that, of env opts] by simp
  have less: "?off i < ?off j" if "i < j" "j < length bss" for i j
  proof -
    have i: "i < length (take j bss)" using that by simp
    have "data_section env opts (take j bss) = data_section env opts (take i bss)
        @ snd (data_block_out env opts (bss ! i)) @ data_section env opts (drop (Suc i) (take j bss))"
      using data_section_split [OF i, of env opts] that by (simp add: min_def)
    moreover have "0 < length (snd (data_block_out env opts (bss ! i)))"
      using assms(3) that length_build_block [of "bss ! i" "block_size opts"] data_block_out_plain [OF assms(1)]
      by simp
    ultimately show ?thesis by simp
  qed
  have u: "unat (word_of_nat n :: u64) = n" if "n < 2 ^ 63" for n
    using that by (simp add: unsigned_of_nat take_bit_nat_eq_self)
  have lt: "word_of_nat (?off i) \<noteq> (word_of_nat (?off j) :: u64)" if "i < j" "j < length bss" for i j
    using less [OF that] le [of i] le [of j] u [of "?off i"] u [of "?off j"] that assms(2) by force
  have "word_of_nat (?off i) \<noteq> (word_of_nat (?off j) :: u64)"
    if "i \<noteq> j" "i < length bss" "j < length bss" for i j
    using lt that by (metis nat_neq_iff)
  then show ?thesis
    unfolding distinct_conv_nth by (auto simp: block_handles_nth block_handle_at_def)
qed

lemma SSTable_first_key_on:
  assumes "FileReader_Read r (bh_offset (hd (sst_handles t))) (bh_size (hd (sst_handles t)))
      = Some (Status_OK, data)"
    and "block_ok data kvs" and "kvs \<noteq> []"
  shows "SSTable_first_key t r = Some (t\<lparr>sst_smallest := ExtractUserKey (fst (hd kvs))\<rparr>)"
proof -
  obtain it where it: "BlockIter_SeekToFirst (Block_NewIterator (Block_new data (paranoid_checks (sst_options t)))) = Some it"
      "block_on kvs it kvs"
    using assms(2) BlockIter_SeekToFirst_on unfolding block_ok_def by blast
  obtain k v rest where kvs: "kvs = (k, v) # rest" using assms(3) by (cases kvs) auto
  have "BlockIter_Valid it" "BlockIter_key it = k"
    using BlockIter_Valid_on [OF it(2)] bi.on_key it(2) kvs by auto
  then show ?thesis using assms(1) it(1) kvs by (simp add: SSTable_first_key_def)
qed

lemma SSTable_last_key_on:
  assumes "FileReader_Read r (bh_offset (last (sst_handles t))) (bh_size (last (sst_handles t)))
      = Some (Status_OK, data)"
    and "block_ok data kvs" and "kvs \<noteq> []"
  shows "SSTable_last_key t r = Some (t\<lparr>sst_largest := ExtractUserKey (fst (last kvs))\<rparr>)"
proof -
  obtain it where it: "BlockIter_SeekToLast (Block_NewIterator (Block_new data (paranoid_checks (sst_options t)))) = Some it"
      "block_on kvs it [last kvs]"
    using assms(2,3) BlockIter_SeekToLast_on unfolding block_ok_def by blast
  obtain k v where kv: "last kvs = (k, v)" by force
  have "BlockIter_Valid it" "BlockIter_key it = k"
    using BlockIter_Valid_on [OF it(2)] bi.on_key it(2) kv by auto
  then show ?thesis using assms(1) it(1) kv by (simp add: SSTable_last_key_def)
qed

lemma length_footer_section [simp]: "length (footer_section a b) = 24"
  by (simp add: footer_section_def TableFooter_EncodeTo_def PutFixed64_def kMagic_def)

text \<open>The three reads of \<open>Open\<close> find footer, filter and index.\<close>

lemma table_file_reads:
  assumes "fr_data r = table_file env opts bloom bss" and "length (fr_data r) < 2 ^ 32"
  defines "d \<equiv> length (data_section env opts bss)" and "bl \<equiv> BloomFilter_data bloom"
    and "idx \<equiv> index_section env opts bss"
  shows "FileReader_Read r (FileReader_FileSize r - 24) 24 = Some (Status_OK, footer_section (d + length bl) d)"
    and "FileReader_Read r (word_of_nat d) (word_of_nat (d + length bl) - word_of_nat d) = Some (Status_OK, bl)"
    and "FileReader_Read r (word_of_nat (d + length bl))
      (FileReader_FileSize r - 24 - word_of_nat (d + length bl)) = Some (Status_OK, idx)"
proof -
  let ?D = "data_section env opts bss" and ?F = "footer_section (d + length bl) d"
  have f: "fr_data r = ?D @ bl @ idx @ ?F"
    using assms(1) by (simp add: table_file_def Let_def d_def bl_def idx_def)
  have len: "length (fr_data r) < 2 ^ 63" using assms(2) by simp
  have size: "FileReader_FileSize r = word_of_nat (d + length bl + length idx) + 24"
    by (simp add: FileReader_FileSize_def f d_def)
  have F: "holds_at (fr_data r) (d + length bl + length idx) ?F"
    using holds_at_self [of "?D @ bl @ idx" ?F "[]"] by (simp add: f d_def add.assoc)
  show "FileReader_Read r (FileReader_FileSize r - 24) 24 = Some (Status_OK, ?F)"
    using FileReader_Read_at [OF F _ len] by (simp add: size) (simp add: f d_def)
  have B: "holds_at (fr_data r) d bl" by (simp add: f d_def)
  show "FileReader_Read r (word_of_nat d) (word_of_nat (d + length bl) - word_of_nat d) = Some (Status_OK, bl)"
    using FileReader_Read_at [OF B _ len] by simp (simp add: f d_def)
  have I: "holds_at (fr_data r) (d + length bl) idx"
    using holds_at_self [of "?D @ bl" idx ?F] by (simp add: f d_def)
  show "FileReader_Read r (word_of_nat (d + length bl))
      (FileReader_FileSize r - 24 - word_of_nat (d + length bl)) = Some (Status_OK, idx)"
    using FileReader_Read_at [OF I _ len] by (simp add: size) (simp add: f d_def)
qed

lemma block_handles_Nil_iff [simp]: "block_handles env opts off bss = [] \<longleftrightarrow> bss = []"
  by (cases bss) auto

text \<open>A table object whose fields come from the file has the blocks of the file.\<close>

lemma table_of_opened:
  assumes "plain env opts" and "[] \<notin> set bss" and "table_size (concat bss) < 2 ^ 32"
    and "length (bloom_bits bloom) = 1024"
    and "sst_reader t = Some r" and "fr_data r = table_file env opts bloom bss"
    and "sst_handles t = block_handles env opts 0 bss"
    and "sst_index_block t = Block_new (index_section env opts bss) verify"
  shows "table_of env t bss"
proof -
  note sizes = table_file_sizes [OF assms(1-4)]
  have len: "length (fr_data r) < 2 ^ 63" using sizes(1) assms(6) by simp
  have f: "fr_data r = data_section env opts bss @ BloomFilter_data bloom @ index_section env opts bss
      @ footer_section (length (data_section env opts bss) + length (BloomFilter_data bloom))
          (length (data_section env opts bss))"
    using assms(6) by (simp add: table_file_def Let_def)
  have blk: "SSTable_ReadBlock env t (sst_handles t ! i) = Some (Status_OK, build_block (block_size opts) (bss ! i))
      \<and> block_ok (build_block (block_size opts) (bss ! i)) (bss ! i)" if i: "i < length bss" for i
    using read_data_block [OF assms(1) f len i] block_handles_plain [OF assms(1) i] assms(5,7)
      build_block_block_ok [OF block_size_bound [OF assms(3) nth_mem [OF i]]]
    by (auto simp: SSTable_ReadBlock_def split: option.split)
  have "distinct (map (\<lambda>h. (bh_offset h, bh_size h)) (sst_handles t))"
    using block_handles_distinct [OF assms(1)] block_size_bound [OF assms(3)] len f assms(7) by simp
  moreover have "iterates (Block_NewIterator (sst_index_block t)) (index_entries env opts bss)"
    using build_block_block_ok [OF sizes(2)] assms(8) by (simp add: index_section_def block_ok_def)
  ultimately show ?thesis
    using blk assms(2,7) by (auto simp: table_of_def index_entries_def)
qed

lemma SSTable_Open_range:
  assumes "plain env opts" and "[] \<notin> set bss" and "table_size (concat bss) < 2 ^ 32"
    and "bss \<noteq> []" and "length (fr_data r) < 2 ^ 63" and "fr_data r = data_section env opts bss @ rest"
    and "sst_handles t = block_handles env opts 0 bss"
  shows "SSTable_first_key t r = Some (t\<lparr>sst_smallest := ExtractUserKey (fst (hd (hd bss)))\<rparr>)"
    and "SSTable_last_key t r = Some (t\<lparr>sst_largest := ExtractUserKey (fst (last (last bss)))\<rparr>)"
proof -
  have ok: "block_ok (build_block (block_size opts) (bss ! i)) (bss ! i)" "bss ! i \<noteq> []" if "i < length bss" for i
    using build_block_block_ok [OF block_size_bound [OF assms(3) nth_mem [OF that]]] assms(2) nth_mem [OF that]
    by auto
  note rd = read_data_block [OF assms(1,6,5)]
  have hd: "hd (sst_handles t) = block_handles env opts 0 bss ! 0" "hd bss = bss ! 0"
      "last (sst_handles t) = block_handles env opts 0 bss ! (length bss - 1)" "last bss = bss ! (length bss - 1)"
    using assms(4,7) by (simp_all add: hd_conv_nth last_conv_nth)
  have i: "0 < length bss" "length bss - 1 < length bss" using assms(4) by auto
  show "SSTable_first_key t r = Some (t\<lparr>sst_smallest := ExtractUserKey (fst (hd (hd bss)))\<rparr>)"
    using SSTable_first_key_on [OF _ ok [OF i(1)], of r t] rd [OF i(1)] by (simp add: hd)
  show "SSTable_last_key t r = Some (t\<lparr>sst_largest := ExtractUserKey (fst (last (last bss)))\<rparr>)"
    using SSTable_last_key_on [OF _ ok [OF i(2)], of r t] rd [OF i(2)] by (simp add: hd)
qed

lemma SSTable_Open_on:
  assumes "plain env opts" and "[] \<notin> set bss" and "table_size (concat bss) < 2 ^ 32"
    and bloom: "length (bloom_bits bloom) = 1024" "bloom_k bloom = bloom_num_hashes (bits_per_key bloom)"
      "bits_per_key bloom = int (bloom_bits_per_key opts)"
    and "fs name = Some (table_file env opts bloom bss)" and "env_mmap env name (length (table_file env opts bloom bss))"
  shows "\<exists>t. SSTable_Open env fs (SSTable_new opts name fid) = Some (Status_OK, t)
    \<and> table_of env t bss \<and> sst_bloom t = bloom
    \<and> sst_smallest t = (if bss = [] then [] else ExtractUserKey (fst (hd (hd bss))))
    \<and> (bss \<noteq> [] \<longrightarrow> sst_largest t = ExtractUserKey (fst (last (last bss))))"
proof -
  let ?r = "\<lparr>fr_name = name, fr_data = table_file env opts bloom bss\<rparr>"
  let ?idx = "index_entries env opts bss" and ?hs = "block_handles env opts 0 bss"
  let ?bl = "BloomFilter_data bloom"
  let ?t0 = "(SSTable_new opts name fid)\<lparr>sst_reader := Some ?r, sst_bloom := bloom,
      sst_index_block := Block_new (index_section env opts bss) (paranoid_checks opts)\<rparr>"
  have fo: "FileReader_Open env fs name = Some ?r" using assms(7,8) by (simp add: FileReader_Open_def)
  note sizes = table_file_sizes [OF assms(1-3) bloom(1)]
  have len: "length (fr_data ?r) < 2 ^ 32" using sizes(1) by simp
  note reads = table_file_reads [OF _ len, of env opts bloom bss, simplified]
  have f: "fr_data ?r = data_section env opts bss @ drop (length (data_section env opts bss)) (fr_data ?r)"
    by (simp add: table_file_def Let_def)
  have iok: "block_ok (index_section env opts bss) ?idx"
    using build_block_block_ok [OF sizes(2)] by (simp add: index_section_def)
  obtain it where it: "BlockIter_SeekToFirst (Block_NewIterator (sst_index_block ?t0)) = Some it" "block_on ?idx it ?idx"
    using iok BlockIter_SeekToFirst_on unfolding block_ok_def by fastforce
  obtain lk where lk: "SSTable_Open_index it ?t0 = Some (Status_OK, ?t0\<lparr>sst_largest := lk, sst_handles := ?hs\<rparr>)"
    using SSTable_Open_index_on [of ?idx it bss ?hs ?t0] it(2)
    by (auto simp: index_entries_def SSTable_new_def)
  let ?t1 = "?t0\<lparr>sst_largest := lk, sst_handles := ?hs\<rparr>"
  have bl: "BloomFilter_of_data (words_of_bytes (length ?bl div 4) ?bl) (int (bloom_bits_per_key opts)) = bloom"
    "bloom_bits bloom \<noteq> []"
    using BloomFilter_of_data_roundtrip [OF bloom(2)] bloom(1,3) by auto
  have ne: "?bl \<noteq> []"
    using length_BloomFilter_data [of bloom] bloom(1) by (cases "?bl = []") simp_all
  have cs: "checksum_ok (Block_new (index_section env opts bss) (paranoid_checks opts))"
    using iok by (simp add: block_ok_def)
  have nm: "sst_filename (SSTable_new opts name fid) = name" "sst_options (SSTable_new opts name fid) = opts"
    by (simp_all add: SSTable_new_def)
  have opened: "SSTable_Open env fs (SSTable_new opts name fid) =
      (if ?hs = [] then Some (Status_OK, ?t1)
       else do { t \<leftarrow> SSTable_first_key ?t1 ?r; t \<leftarrow> SSTable_last_key t ?r; Some (Status_OK, t) })"
    using it(1) lk cs bl ne reads
    by (simp add: SSTable_Open_def Let_def fo nm kEncodedLength_def footer_section_def TableFooter_roundtrip)
  have t1: "sst_handles ?t1 = ?hs" "sst_reader ?t1 = Some ?r"
      "sst_index_block ?t1 = Block_new (index_section env opts bss) (paranoid_checks opts)" "sst_bloom ?t1 = bloom"
      "sst_smallest ?t1 = []"
    by (simp_all add: SSTable_new_def)
  note tab = table_of_opened [OF assms(1-3) bloom(1)]
  have len63: "length (fr_data ?r) < 2 ^ 63" using len by simp
  show ?thesis
  proof (cases "bss = []")
    case True
    then show ?thesis using opened tab [of ?t1 ?r "paranoid_checks opts"] t1 by simp
  next
    case False
    let ?t2 = "?t1\<lparr>sst_smallest := ExtractUserKey (fst (hd (hd bss)))\<rparr>"
    let ?t3 = "?t2\<lparr>sst_largest := ExtractUserKey (fst (last (last bss)))\<rparr>"
    have k: "SSTable_first_key ?t1 ?r = Some ?t2" "SSTable_last_key ?t2 ?r = Some ?t3"
      using SSTable_Open_range [OF assms(1-3) False len63 f] t1(1) by simp_all
    have "SSTable_Open env fs (SSTable_new opts name fid) = Some (Status_OK, ?t3)"
      using False by (simp only: opened k bind.simps block_handles_Nil_iff if_False)
    moreover have "table_of env ?t3 bss" using tab [of ?t3 ?r "paranoid_checks opts"] t1(1-3) by simp
    ultimately show ?thesis using False t1(4) by (intro exI [of _ ?t3]) simp
  qed
qed

subsection \<open>Tables end to end\<close>

lemma newest_visible_SomeD:
  assumes "newest_visible es k snap = Some (u, s, t, v)"
  shows "u = k" "(k, s, t, v) \<in> set es" "s \<le> snap"
  using assms by (auto simp: newest_visible_def find_Some_iff in_set_conv_nth)

lemma newest_visible_None: "newest_visible es k snap = None \<longleftrightarrow> (\<forall>s t v. (k, s, t, v) \<in> set es \<longrightarrow> \<not> s \<le> snap)"
  by (auto simp: newest_visible_def find_None_iff)

text \<open>In internal-key order the first visible version of a key is its newest.\<close>

lemma newest_visible_max:
  assumes "ikey_sorted (map ikv es)" and "seqs_ok es" and "k \<noteq> []"
    and "newest_visible es k snap = Some (u, s, t, v)" and "(k, s', t', v') \<in> set es" and "s' \<le> snap"
  shows "s' \<le> s"
proof -
  obtain i where i: "i < length es" "es ! i = (u, s, t, v)" "\<forall>j < i. \<not> (\<lambda>(u, s, t, v). u = k \<and> s \<le> snap) (es ! j)"
    using assms(4) by (auto simp: newest_visible_def find_Some_iff)
  obtain j where j: "j < length es" "es ! j = (k, s', t', v')" using assms(5) by (auto simp: in_set_conv_nth)
  have "u = k" using newest_visible_SomeD [OF assms(4)] by simp
  have "\<not> j < i" using i(3) j(2) assms(6) by auto
  moreover have "s' \<le> s" if "i < j"
  proof -
    have "CompareInternalKeys (fst (ikv (es ! i))) (fst (ikv (es ! j))) \<le> 0"
      using assms(1) that j(1) by (auto simp: ikey_sorted_def sorted_wrt_iff_nth_less)
    then have "\<not> PackInternalTrailer s' t' < PackInternalTrailer s t"
      using i(2) j(2) \<open>u = k\<close> assms(3) by (auto simp: CompareInternalKeys_rank split: if_splits)
    moreover have "unat s < 2 ^ 56" "unat s' < 2 ^ 56"
      using assms(2) nth_mem [OF i(1)] nth_mem [OF j(1)] i(2) j(2) by (auto simp: seqs_ok_def)
    ultimately show ?thesis using PackInternalTrailer_less [of s' s t' t] by auto
  qed
  moreover have "s' \<le> s" if "i = j" using that i(2) j(2) by simp
  ultimately show ?thesis by (metis linorder_less_linear)
qed

lemma concat_ends:
  assumes "[] \<notin> set bss" and "bss \<noteq> []"
  shows "hd (hd bss) = hd (concat bss)" "last (last bss) = last (concat bss)"
proof -
  obtain x xs where "bss = x # xs" "x \<noteq> []" using assms by (cases bss) auto
  then show "hd (hd bss) = hd (concat bss)" by simp
  obtain ys y where "bss = ys @ [y]" "y \<noteq> []" using assms by (cases bss rule: rev_cases) auto
  then show "last (last bss) = last (concat bss)" by simp
qed

text \<open>Everything a reader of a finished table relies on.\<close>

lemma table_written_and_opened:
  assumes "pwrite_ok env" and "plain env opts" and "table_size (map ikv es) < 2 ^ 32"
    and "TableBuilder_Add_all env (TableBuilder_new env opts name) es = Some b"
    and "TableBuilder_Finish env b = (s, b')" and "ok s"
    and "fs name = Some (fw_file (tb_writer b'))" and "env_mmap env name (length (fw_file (tb_writer b')))"
  shows "\<exists>t bss. SSTable_Open env fs (SSTable_new opts name fid) = Some (Status_OK, t)
    \<and> table_of env t bss \<and> concat bss = map ikv es \<and> table_bloom_ok t es
    \<and> (es \<noteq> [] \<longrightarrow> sst_smallest t = user_of (hd es) \<and> sst_largest t = user_of (last es))"
proof -
  let ?b0 = "TableBuilder_new env opts name"
  have ob: "tb_options ?b0 = opts" by (simp add: TableBuilder_new_def split_beta)
  have okb: "ok (tb_status b)"
    using assms(5,6) by (cases "ok (tb_status b)") (auto simp: TableBuilder_Finish_def split: if_splits)
  have "ok (tb_status ?b0)"
    using TableBuilder_Add_all_sticky [of ?b0 env es] assms(4) okb by (cases "ok (tb_status ?b0)") auto
  then obtain bss0 cur where "tb_has env b es bss0 cur" "tb_options b = opts"
    using TableBuilder_Add_all_ok [OF tb_has_new assms(1,4) okb] ob by auto
  from TableBuilder_Finish_ok [OF this(1) assms(1,5,6)] this(2) obtain bss
    where bss: "concat bss = map ikv es" "[] \<notin> set bss"
      "fw_file (tb_writer b') = table_file env opts (tb_bloom b') bss"
      "BloomFilter_Add_all (BloomFilter_new (int (bloom_bits_per_key opts))) (map user_of es) = Some (tb_bloom b')"
    by auto
  let ?new = "BloomFilter_new (int (bloom_bits_per_key opts))"
  have bl: "length (bloom_bits (tb_bloom b')) = 1024"
      "bloom_k (tb_bloom b') = bloom_num_hashes (bits_per_key (tb_bloom b'))"
      "bits_per_key (tb_bloom b') = int (bloom_bits_per_key opts)" "bloom_wf (tb_bloom b')"
      "\<forall>e \<in> set es. bloom_has (tb_bloom b') (user_of e)"
    using Add_all_wf [OF BloomFilter_new_wf, of "int (bloom_bits_per_key opts)" "map user_of es"] bss(4)
    by (auto simp: BloomFilter_new_def)
  obtain t where t: "SSTable_Open env fs (SSTable_new opts name fid) = Some (Status_OK, t)" "table_of env t bss"
      "sst_bloom t = tb_bloom b'" "sst_smallest t = (if bss = [] then [] else ExtractUserKey (fst (hd (hd bss))))"
      "bss \<noteq> [] \<longrightarrow> sst_largest t = ExtractUserKey (fst (last (last bss)))"
    using SSTable_Open_on [OF assms(2) bss(2) _ bl(1-3), of fs name fid] assms(3,7,8) bss(1,3) by auto
  have "sst_smallest t = user_of (hd es) \<and> sst_largest t = user_of (last es)" if "es \<noteq> []"
  proof -
    have ne: "bss \<noteq> []" using that bss(1) by auto
    have "hd (hd bss) = hd (concat bss)" "last (last bss) = last (concat bss)"
      using concat_ends [OF bss(2) ne] by simp_all
    then have "hd (hd bss) = ikv (hd es)" "last (last bss) = ikv (last es)"
      using bss(1) that by (simp_all add: hd_map last_map)
    moreover have "ExtractUserKey (fst (ikv e)) = user_of e" for e by (cases e) simp
    ultimately show ?thesis using t(4,5) ne by simp
  qed
  then show ?thesis using t bss(1) bl(4,5) by (auto simp: table_bloom_ok_def)
qed

lemma table_build_ok:
  assumes "env_works env" and "pwrite_ok env" and "ikey_increasing es"
  shows "\<exists>b. TableBuilder_Add_all env (TableBuilder_new env opts name) es = Some b
    \<and> ok (fst (TableBuilder_Finish env b))"
proof -
  let ?b0 = "TableBuilder_new env opts name"
  have b0: "ok (tb_status ?b0)" "fw_open (tb_writer ?b0)"
    using assms(1) by (simp_all add: TableBuilder_new_def FileWriter_Open_def FileWriter_new_def env_works_def)
  obtain b where b: "TableBuilder_Add_all env ?b0 es = Some b" "ok (tb_status b)" "fw_open (tb_writer b)"
    using TableBuilder_Add_all_works [OF assms(1,2) tb_has_new [OF b0(1)], of es] assms(3) b0(2) by auto
  have "\<not> tb_finished b"
    using TableBuilder_Add_all_ok [OF tb_has_new [OF b0(1)] assms(2) b(1,2)] by (auto simp: tb_has_def)
  then show ?thesis using TableBuilder_Finish_works [OF assms(1) b(2) _ b(3)] b(1) by blast
qed

text \<open>A table of three versions of two keys, for the examples.\<close>

definition demo_entries :: "entry list" where
  "demo_entries = [([0x61], 7, kTypeDeletion, []), ([0x61], 5, kTypeValue, [1]), ([0x62], 6, kTypeValue, [2, 3])]"

lemma demo_entries_ok:
  "table_size (map ikv demo_entries) < 2 ^ 32" "ikey_sorted (map ikv demo_entries)" "seqs_ok demo_entries"
  "ikey_increasing demo_entries"
  by (simp_all add: demo_entries_def table_size_def ikey_sorted_def ikey_increasing_def seqs_ok_def
      CompareInternalKeys_rank PackInternalTrailer_less)

lemma plain_good: "plain Env_good opts"
  by (simp add: plain_def Env_good_def)





text \<open>C27: Building a table makes progress: when no system call fails (writes may still be short),
  adding entries in strictly increasing internal-key order never stops the program, even in
  paranoid mode, and \<open>Finish\<close> reports OK.\<close>

theorem table_build_succeeds:
  assumes "env_works env" and "pwrite_ok env" and "ikey_increasing es"
  shows "\<exists>b. TableBuilder_Add_all env (TableBuilder_new env opts name) es = Some b
    \<and> ok (fst (TableBuilder_Finish env b))"
  by (rule table_build_ok [OF assms])

theorem table_build_succeeds_witness:
  "\<exists>b. TableBuilder_Add_all Env_good (TableBuilder_new Env_good Options_default ''t'') demo_entries = Some b
    \<and> ok (fst (TableBuilder_Finish Env_good b))"
  by (rule table_build_succeeds [OF Env_good_works Env_good_pwrite_ok demo_entries_ok(4)])

subsection \<open>Damaged files\<close>

text \<open>\<open>SSTable::Open\<close> on a non-empty file shorter than the footer reads outside the mapping:
  \<open>FileSize() - kEncodedLength\<close> wraps around, and the range check of \<open>FileReader::Read\<close>
  wraps back, so it passes.\<close>

theorem sstable_open_short_file:
  assumes "fs name = Some data" and "data \<noteq> []" and "length data < 24" and "env_mmap env name (length data)"
  shows "SSTable_Open env fs (SSTable_new opts name fid) = None"
proof -
  let ?n = "word_of_nat (length data) :: u64"
  have u: "unat ?n = length data" using assms(3) by (simp add: unsigned_of_nat take_bit_nat_eq_self)
  then have "?n < 24" using assms(3) by (simp add: word_less_nat_alt)
  then have "?n < ?n - 24"
    by (simp add: word_less_nat_alt unat_sub_if' u)
  then have big: "length data < unat (?n - 24)" using u by (simp add: word_less_nat_alt)
  have "FileReader_Read \<lparr>fr_name = name, fr_data = data\<rparr> (?n - 24) 24 = None"
    using assms(2) big by (simp add: FileReader_Read_def FileReader_FileSize_def)
  then show ?thesis
    using assms by (simp add: SSTable_Open_def FileReader_Open_def SSTable_new_def FileReader_FileSize_def
        kEncodedLength_def Let_def)
qed

theorem sstable_open_short_file_witness:
  "SSTable_Open Env_good [''t'' \<mapsto> [0]] (SSTable_new Options_default ''t'' 1) = None"
  using sstable_open_short_file [of "[''t'' \<mapsto> [0]]" "''t''" "[0]" Env_good] by (simp add: Env_good_def)

end
