(* ===== verification/Lkv_Wal.thy ===== *)
theory Lkv_Wal
  imports Lkv_Crc Lkv_Options "HOL-Library.Monad_Syntax"
begin

section \<open>The write-ahead log (wal.h, wal.cpp)\<close>

text \<open>
  A log file is a sequence of records, each \<open>crc(4) length(4) payload\<close>, followed by the zeros
  of the preallocated space. \<open>WALWriter\<close> stores through a shared mapping of the file:
  \<open>ww_file\<close> is the content of the file, \<open>ww_mapped\<close> says that \<open>mmap_base_\<close> is not null,
  \<open>ww_fd\<close> that the descriptor is open, and \<open>ww_synced\<close> is a ghost field, the length of the
  prefix that a successful \<open>msync\<close> and \<open>fsync\<close> made durable. A store outside the mapping is
  undefined behaviour: the operation has no result (\<open>None\<close>). \<open>WALReader\<close> reads a file
  until the first record that is incomplete or fails its checksum.

  The lemmas show that what was appended is what is read back, after a close and after a crash
  with the file at its preallocated size; that a file cut at any byte yields exactly the records
  that lie in it completely (so a batch, one record, is replayed as a whole or not at all); and
  that everything appended before a successful \<open>Sync\<close> is read back from every file that agrees
  with the log on the synchronised prefix.
\<close>

subsection \<open>Records\<close>

definition WALRecord_kTypeValue :: byte where "WALRecord_kTypeValue = 1"
definition WALRecord_kTypeDeletion :: byte where "WALRecord_kTypeDeletion = 2"
definition WALRecord_kTypeRangeDeletion :: byte where "WALRecord_kTypeRangeDeletion = 3"
definition WALRecord_kTypeBatch :: byte where "WALRecord_kTypeBatch = 4"

lemmas WALRecord_types = WALRecord_kTypeValue_def WALRecord_kTypeDeletion_def
  WALRecord_kTypeRangeDeletion_def WALRecord_kTypeBatch_def

record BatchOp =
  bo_type :: byte
  bo_key :: bytes
  bo_value :: bytes
  bo_begin_key :: bytes
  bo_end_key :: bytes

record WALRecord =
  rec_seq :: u64
  rec_type :: byte
  rec_key :: bytes
  rec_value :: bytes
  rec_begin_key :: bytes
  rec_end_key :: bytes
  rec_batch_ops :: "BatchOp list"

definition BatchOp_new :: BatchOp where
  "BatchOp_new = \<lparr>bo_type = 0, bo_key = [], bo_value = [], bo_begin_key = [], bo_end_key = []\<rparr>"

definition WALRecord_new :: WALRecord where
  "WALRecord_new = \<lparr>rec_seq = 0, rec_type = 0, rec_key = [], rec_value = [], rec_begin_key = [],
     rec_end_key = [], rec_batch_ops = []\<rparr>"

subsection \<open>The writer\<close>

definition kInitialFileSize :: nat where "kInitialFileSize = 64 * 1024 * 1024"
definition kBlockSize :: nat where "kBlockSize = 4096"

record WALWriter =
  ww_filename :: string
  ww_fd :: bool
  ww_mapped :: bool
  ww_file_size :: nat
  ww_write_pos :: nat
  ww_file :: bytes
  ww_synced :: nat

definition WALWriter_new :: "string \<Rightarrow> WALWriter" where
  "WALWriter_new filename = \<lparr>ww_filename = filename, ww_fd = False, ww_mapped = False,
     ww_file_size = kInitialFileSize, ww_write_pos = 0, ww_file = [], ww_synced = 0\<rparr>"

definition errno_text :: "Env \<Rightarrow> string" where
  "errno_text env = ''(errno='' @ to_string (env_errno env) @ '' '' @ env_strerror env (env_errno env) @ '')''"

definition WALWriter_Open :: "Env \<Rightarrow> WALWriter \<Rightarrow> Status \<times> WALWriter" where
  "WALWriter_Open env w =
     (if \<not> env_open env (ww_filename w)
      then (Status_IOError (''cannot open WAL file: '' @ ww_filename w @ '' '' @ errno_text env), w\<lparr>ww_fd := False\<rparr>)
      else if \<not> env_ftruncate env (ww_filename w) (ww_file_size w)
      then (Status_IOError ''cannot truncate WAL file'', w\<lparr>ww_fd := False, ww_file := []\<rparr>)
      else if \<not> env_mmap env (ww_filename w) (ww_file_size w)
      then (Status_IOError ''cannot mmap WAL file'',
            w\<lparr>ww_fd := False, ww_mapped := False, ww_file := set_size (ww_file_size w) []\<rparr>)
      else (Status_OK, w\<lparr>ww_fd := True, ww_mapped := True, ww_file := set_size (ww_file_size w) []\<rparr>))"

text \<open>A file of size 0 cannot be mapped.\<close>

definition WALWriter_GrowFile :: "Env \<Rightarrow> WALWriter \<Rightarrow> Status \<times> WALWriter" where
  "WALWriter_GrowFile env w =
     (let new_size = ww_file_size w * 2
      in if \<not> ww_fd w \<or> \<not> env_ftruncate env (ww_filename w) new_size
         then (Status_IOError ''cannot grow WAL file'', w\<lparr>ww_mapped := False\<rparr>)
         else if new_size = 0 \<or> \<not> env_mmap env (ww_filename w) new_size
         then (Status_IOError ''cannot remap WAL file'',
               w\<lparr>ww_mapped := False, ww_file := set_size new_size (ww_file w)\<rparr>)
         else (Status_OK, w\<lparr>ww_mapped := True, ww_file_size := new_size,
                             ww_file := set_size new_size (ww_file w)\<rparr>))"

text \<open>The common part of the three append operations: make room (once), store the payload behind
  the place of the header, compute the checksum over the \<open>record_len\<close> bytes stored, store the
  header, advance. \<open>record_len\<close> and \<open>total\<close> are 32-bit.\<close>

definition WALWriter_put :: "Env \<Rightarrow> WALWriter \<Rightarrow> u32 \<Rightarrow> bytes \<Rightarrow> (Status \<times> WALWriter) option" where
  "WALWriter_put env w record_len payload =
     (let total = 8 + record_len;
          (s, w) = (if ww_file_size w \<le> ww_write_pos w + unat total + kBlockSize
                    then WALWriter_GrowFile env w else (Status_OK, w))
      in if \<not> ok s then Some (s, w)
         else if \<not> ww_mapped w \<or> ww_file_size w < ww_write_pos w + 8 + length payload then None
         else let file = write_at (ww_file w) (ww_write_pos w + 8) payload;
                  crc = Crc32cExtend 0 (take (unat record_len) (drop (ww_write_pos w + 8) file));
                  file = write_at file (ww_write_pos w) (EncodeFixed32 crc);
                  file = write_at file (ww_write_pos w + 4) (EncodeFixed32 record_len)
              in Some (Status_OK, w\<lparr>ww_file := file, ww_write_pos := ww_write_pos w + unat total\<rparr>))"

definition put_string :: "bytes \<Rightarrow> bytes" where
  "put_string s = (let n = word_of_nat (length s) in EncodeVarint32 n @ take (unat n) s)"

definition string_len :: "bytes \<Rightarrow> u32" where
  "string_len s = (let n = word_of_nat (length s) in word_of_nat (VarintLength n) + n)"

definition WALWriter_Append ::
  "Env \<Rightarrow> WALWriter \<Rightarrow> u64 \<Rightarrow> byte \<Rightarrow> bytes \<Rightarrow> bytes \<Rightarrow> (Status \<times> WALWriter) option" where
  "WALWriter_Append env w seq type key value =
     WALWriter_put env w (1 + string_len key + string_len value + 8)
       ([type] @ put_string key @ put_string value @ EncodeFixed64 seq)"

definition WALWriter_AppendRangeDelete ::
  "Env \<Rightarrow> WALWriter \<Rightarrow> u64 \<Rightarrow> bytes \<Rightarrow> bytes \<Rightarrow> (Status \<times> WALWriter) option" where
  "WALWriter_AppendRangeDelete env w seq begin_key end_key =
     WALWriter_put env w (1 + string_len begin_key + string_len end_key + 8)
       ([WALRecord_kTypeRangeDeletion] @ put_string begin_key @ put_string end_key @ EncodeFixed64 seq)"

definition batch_op_len :: "BatchOp \<Rightarrow> u32" where
  "batch_op_len op = 1 + string_len (bo_key op) +
     (if bo_type op = WALRecord_kTypeRangeDeletion
      then string_len (bo_begin_key op) + string_len (bo_end_key op) else string_len (bo_value op))"

definition batch_op_bytes :: "BatchOp \<Rightarrow> bytes" where
  "batch_op_bytes op = [bo_type op] @ put_string (bo_key op) @
     (if bo_type op = WALRecord_kTypeRangeDeletion
      then put_string (bo_begin_key op) @ put_string (bo_end_key op) else put_string (bo_value op))"

definition WALWriter_AppendBatch ::
  "Env \<Rightarrow> WALWriter \<Rightarrow> u64 \<Rightarrow> BatchOp list \<Rightarrow> (Status \<times> WALWriter) option" where
  "WALWriter_AppendBatch env w seq ops =
     (if ops = [] then Some (Status_OK, w)
      else let count = word_of_nat (length ops) :: u32
           in WALWriter_put env w
                (foldl (\<lambda>n op. n + batch_op_len op) (1 + word_of_nat (VarintLength count)) ops + 8)
                ([WALRecord_kTypeBatch] @ EncodeVarint32 count @ concat (map batch_op_bytes ops)
                  @ EncodeFixed64 seq))"

text \<open>The results of \<open>msync\<close> and \<open>fsync\<close> are ignored.\<close>

definition WALWriter_Sync :: "Env \<Rightarrow> WALWriter \<Rightarrow> Status \<times> WALWriter" where
  "WALWriter_Sync env w =
     (if \<not> ww_mapped w then (Status_OK, w)
      else let upto = ww_write_pos w
           in if (upto = 0 \<or> env_msync env (ww_filename w) upto) \<and> env_fsync env (ww_filename w)
              then (Status_OK, w\<lparr>ww_synced := upto\<rparr>) else (Status_OK, w))"

definition WALWriter_Close :: "Env \<Rightarrow> WALWriter \<Rightarrow> WALWriter" where
  "WALWriter_Close env w =
     (let w = (if ww_mapped w then (snd (WALWriter_Sync env w))\<lparr>ww_mapped := False\<rparr> else w)
      in if ww_fd w
         then (if env_ftruncate env (ww_filename w) (ww_write_pos w)
               then w\<lparr>ww_file := set_size (ww_write_pos w) (ww_file w)\<rparr> else w)\<lparr>ww_fd := False\<rparr>
         else w)"

definition WALWriter_Truncate :: "Env \<Rightarrow> WALWriter \<Rightarrow> Status \<times> WALWriter" where
  "WALWriter_Truncate env w =
     (if \<not> ww_fd w then (Status_IOError ''WAL not open'', w)
      else let w = (snd (WALWriter_Sync env w))\<lparr>ww_mapped := False\<rparr>;
               written = ww_write_pos w;
               new_size = (if written \<noteq> 0 then written else kBlockSize)
           in if \<not> env_ftruncate env (ww_filename w) new_size
              then (Status_IOError (''failed to truncate WAL to '' @ to_string new_size @ '' bytes '' @ errno_text env),
                    w\<lparr>ww_file_size := 0\<rparr>)
              else let w = w\<lparr>ww_file := set_size new_size (ww_file w)\<rparr>
                   in if \<not> env_mmap env (ww_filename w) new_size
                      then (Status_IOError ''failed to remap WAL after truncate'', w\<lparr>ww_file_size := 0\<rparr>)
                      else (Status_OK, w\<lparr>ww_file_size := new_size, ww_mapped := True\<rparr>))"

subsection \<open>The reader\<close>

text \<open>\<open>wr_base\<close> is the mapped file; its length is \<open>file_size_\<close>.\<close>

record WALReader =
  wr_base :: bytes
  wr_read_pos :: nat

definition WALReader_Open :: "Env \<Rightarrow> (string \<rightharpoonup> bytes) \<Rightarrow> string \<Rightarrow> Status \<times> WALReader" where
  "WALReader_Open env fs filename =
     (case fs filename of
        None \<Rightarrow> (Status_IOError ''cannot open WAL file for reading'', \<lparr>wr_base = [], wr_read_pos = 0\<rparr>)
      | Some data \<Rightarrow>
          if length data > 0 \<and> \<not> env_mmap env filename (length data)
          then (Status_IOError ''cannot mmap WAL for reading'', \<lparr>wr_base = [], wr_read_pos = 0\<rparr>)
          else (Status_OK, \<lparr>wr_base = data, wr_read_pos = 0\<rparr>))"

text \<open>A string is read by \<open>GetVarint32\<close>, the check that it ends inside the record, and an
  assignment: \<open>GetLengthPrefixedSlice\<close>, written out at each place. The loop over the
  operations of a batch returns the operations decoded and the cursor, \<open>None\<close> where the
  source returns false.\<close>

definition ReadBatchOp :: "bytes \<Rightarrow> nat \<Rightarrow> nat \<Rightarrow> (BatchOp \<times> nat) option" where
  "ReadBatchOp base p record_end =
     (if record_end \<le> p then None
      else do {
        let op = BatchOp_new\<lparr>bo_type := base ! p\<rparr>;
        (key, p) \<leftarrow> GetLengthPrefixedSlice base (p + 1) record_end;
        let op = op\<lparr>bo_key := key\<rparr>;
        if bo_type op = WALRecord_kTypeRangeDeletion
        then do {
          (begin_key, p) \<leftarrow> GetLengthPrefixedSlice base p record_end;
          (end_key, p) \<leftarrow> GetLengthPrefixedSlice base p record_end;
          Some (op\<lparr>bo_begin_key := begin_key, bo_end_key := end_key\<rparr>, p)
        }
        else do {
          (value, p) \<leftarrow> GetLengthPrefixedSlice base p record_end;
          Some (op\<lparr>bo_value := value\<rparr>, p)
        }
      })"

fun ReadBatchOps :: "nat \<Rightarrow> bytes \<Rightarrow> nat \<Rightarrow> nat \<Rightarrow> BatchOp list \<Rightarrow> BatchOp list \<times> nat option" where
  "ReadBatchOps 0 base p record_end ops = (ops, Some p)"
| "ReadBatchOps (Suc n) base p record_end ops =
     (case ReadBatchOp base p record_end of
        None \<Rightarrow> (ops, None)
      | Some (op, p) \<Rightarrow> ReadBatchOps n base p record_end (ops @ [op]))"

text \<open>The three branches of \<open>ReadRecord\<close>: the fields assigned so far, and the cursor.\<close>

definition ReadRecord_body :: "bytes \<Rightarrow> nat \<Rightarrow> nat \<Rightarrow> WALRecord \<Rightarrow> WALRecord \<times> nat option" where
  "ReadRecord_body base p record_end record =
     (if rec_type record = WALRecord_kTypeRangeDeletion
      then case GetLengthPrefixedSlice base p record_end of
             None \<Rightarrow> (record, None)
           | Some (begin_key, p) \<Rightarrow>
               (case GetLengthPrefixedSlice base p record_end of
                  None \<Rightarrow> (record\<lparr>rec_begin_key := begin_key\<rparr>, None)
                | Some (end_key, p) \<Rightarrow>
                    (record\<lparr>rec_begin_key := begin_key, rec_end_key := end_key\<rparr>, Some p))
      else if rec_type record = WALRecord_kTypeBatch
      then case GetVarint32 base p record_end of
             None \<Rightarrow> (record, None)
           | Some (count, p) \<Rightarrow>
               (let (ops, q) = ReadBatchOps (unat count) base p record_end []
                in (record\<lparr>rec_batch_ops := ops\<rparr>, q))
      else case GetLengthPrefixedSlice base p record_end of
             None \<Rightarrow> (record, None)
           | Some (key, p) \<Rightarrow>
               (case GetLengthPrefixedSlice base p record_end of
                  None \<Rightarrow> (record\<lparr>rec_key := key\<rparr>, None)
                | Some (value, p) \<Rightarrow> (record\<lparr>rec_key := key, rec_value := value\<rparr>, Some p)))"

text \<open>The outer \<open>None\<close> is a read outside the mapping: the type byte of an empty record at
  the end of the file, or the sequence number, whose eight bytes are not checked.\<close>

definition WALReader_ReadRecord :: "WALReader \<Rightarrow> WALRecord \<Rightarrow> (bool \<times> WALRecord \<times> WALReader) option" where
  "WALReader_ReadRecord r record =
     (let base = wr_base r; file_size = length base; read_pos = wr_read_pos r
      in if file_size < read_pos + 8 then Some (False, record, r)
         else let crc = DecodeFixed32 base read_pos;
                  len = unat (DecodeFixed32 base (read_pos + 4))
              in if file_size < read_pos + 8 + len then Some (False, record, r)
                 else let record_start = read_pos + 8;
                          record_end = record_start + len;
                          actual_crc = Crc32cExtend 0 (take len (drop record_start base))
                      in if crc \<noteq> actual_crc then Some (False, record, r)
                         else if file_size \<le> record_start then None
                         else let record = record\<lparr>rec_type := base ! record_start\<rparr>
                              in case ReadRecord_body base (record_start + 1) record_end record of
                                   (record, None) \<Rightarrow> Some (False, record, r\<lparr>wr_read_pos := read_pos + 8\<rparr>)
                                 | (record, Some p) \<Rightarrow>
                                     if file_size < p + 8 then None
                                     else Some (True, record\<lparr>rec_seq := DecodeFixed64 base p\<rparr>,
                                                r\<lparr>wr_read_pos := read_pos + 8 + len\<rparr>))"

lemma ReadRecord_advances:
  assumes "WALReader_ReadRecord r record = Some (True, record', r')"
  shows "wr_base r' = wr_base r \<and> wr_read_pos r < wr_read_pos r' \<and> wr_read_pos r' \<le> length (wr_base r)"
  using assms unfolding WALReader_ReadRecord_def
  by (auto simp: Let_def split: if_splits prod.splits option.splits)

text \<open>The loop of the recovery, \<open>while (reader.ReadRecord(&record))\<close>, with what it hands to the
  body of the loop: the record after each successful read. Every iteration moves the cursor
  forward inside the file, so it ends.\<close>

function read_records :: "WALReader \<Rightarrow> WALRecord \<Rightarrow> (WALRecord list \<times> WALReader) option" where
  "read_records r record =
     (case WALReader_ReadRecord r record of
        None \<Rightarrow> None
      | Some (found, record, r) \<Rightarrow>
          if found then (case read_records r record of
                          None \<Rightarrow> None
                        | Some (records, r) \<Rightarrow> Some (record # records, r))
          else Some ([], r))"
  by pat_completeness auto
termination
proof (relation "measure (\<lambda>(r, record). length (wr_base r) - wr_read_pos r)", goal_cases)
  case (2 r rec x2 found y rec' r')
  then show ?case using ReadRecord_advances [of r rec rec' r'] by auto
qed simp

declare read_records.simps [simp del]

subsection \<open>What a log holds\<close>

text \<open>The operations of the writer as values, the bytes each adds to the file, and the operation
  that the recovery loop sees in a record. A batch operation is logged without the fields that
  its type does not use.\<close>

datatype wal_op =
    LogRecord u64 byte bytes bytes
  | LogRange u64 bytes bytes
  | LogBatch u64 "BatchOp list"

fun WALWriter_log :: "Env \<Rightarrow> WALWriter \<Rightarrow> wal_op \<Rightarrow> (Status \<times> WALWriter) option" where
  "WALWriter_log env w (LogRecord seq type key value) = WALWriter_Append env w seq type key value"
| "WALWriter_log env w (LogRange seq begin_key end_key) = WALWriter_AppendRangeDelete env w seq begin_key end_key"
| "WALWriter_log env w (LogBatch seq ops) = WALWriter_AppendBatch env w seq ops"

fun wal_payload :: "wal_op \<Rightarrow> bytes" where
  "wal_payload (LogRecord seq type key value) =
     [type] @ length_prefixed key @ length_prefixed value @ EncodeFixed64 seq"
| "wal_payload (LogRange seq begin_key end_key) =
     [WALRecord_kTypeRangeDeletion] @ length_prefixed begin_key @ length_prefixed end_key @ EncodeFixed64 seq"
| "wal_payload (LogBatch seq ops) =
     [WALRecord_kTypeBatch] @ EncodeVarint32 (word_of_nat (length ops)) @ concat (map batch_op_bytes ops)
       @ EncodeFixed64 seq"

definition wal_frame :: "bytes \<Rightarrow> bytes" where
  "wal_frame payload =
     EncodeFixed32 (Crc32cExtend 0 payload) @ EncodeFixed32 (word_of_nat (length payload)) @ payload"

abbreviation wal_bytes :: "wal_op \<Rightarrow> bytes" where
  "wal_bytes op \<equiv> wal_frame (wal_payload op)"

definition wal_file :: "wal_op list \<Rightarrow> bytes" where
  "wal_file ops = concat (map wal_bytes ops)"

fun wal_op_ok :: "wal_op \<Rightarrow> bool" where
  "wal_op_ok (LogRecord seq type key value) \<longleftrightarrow>
     type \<noteq> WALRecord_kTypeRangeDeletion \<and> type \<noteq> WALRecord_kTypeBatch \<and> length key + length value < 2 ^ 31"
| "wal_op_ok (LogRange seq begin_key end_key) \<longleftrightarrow> length begin_key + length end_key < 2 ^ 31"
| "wal_op_ok (LogBatch seq ops) \<longleftrightarrow>
     ops \<noteq> [] \<and> sum_list (map (\<lambda>op. 16 + length (bo_key op) + length (bo_value op) + length (bo_begin_key op)
                                   + length (bo_end_key op)) ops) < 2 ^ 31"

definition batch_op_logged :: "BatchOp \<Rightarrow> BatchOp" where
  "batch_op_logged op =
     (if bo_type op = WALRecord_kTypeRangeDeletion then op\<lparr>bo_value := []\<rparr>
      else op\<lparr>bo_begin_key := [], bo_end_key := []\<rparr>)"

fun wal_op_logged :: "wal_op \<Rightarrow> wal_op" where
  "wal_op_logged (LogBatch seq ops) = LogBatch seq (map batch_op_logged ops)"
| "wal_op_logged op = op"

definition record_op :: "WALRecord \<Rightarrow> wal_op" where
  "record_op record =
     (if rec_type record = WALRecord_kTypeRangeDeletion
      then LogRange (rec_seq record) (rec_begin_key record) (rec_end_key record)
      else if rec_type record = WALRecord_kTypeBatch then LogBatch (rec_seq record) (rec_batch_ops record)
      else LogRecord (rec_seq record) (rec_type record) (rec_key record) (rec_value record))"

subsection \<open>Appending adds one record\<close>

lemma put_string_small [simp]: "length s < 2 ^ 32 \<Longrightarrow> put_string s = length_prefixed s"
  by (simp add: put_string_def length_prefixed_def unat_length_u32 Let_def)

lemma length_put_string: "string_len s = word_of_nat (length (put_string s))"
proof -
  have "unat (word_of_nat (length s) :: u32) \<le> length s"
    by (simp add: unat_of_nat)
  then show ?thesis by (simp add: string_len_def put_string_def Let_def min_absorb2)
qed

lemma batch_op_len_eq: "batch_op_len op = word_of_nat (length (batch_op_bytes op))"
  by (simp add: batch_op_len_def batch_op_bytes_def length_put_string)

lemma batch_len_eq:
  "foldl (\<lambda>n op. n + batch_op_len op) a ops = a + word_of_nat (length (concat (map batch_op_bytes ops)))"
  by (induction ops arbitrary: a) (simp_all add: batch_op_len_eq)

lemma length_batch_op_bytes:
  "length (batch_op_bytes op) \<le> 16 + length (bo_key op) + length (bo_value op) + length (bo_begin_key op)
     + length (bo_end_key op)"
proof -
  have *: "length (put_string s) \<le> 5 + length s" for s
    using VarintLength_le_5 [of "word_of_nat (length s)"] by (auto simp: put_string_def Let_def)
  show ?thesis
    using * [of "bo_key op"] * [of "bo_value op"] * [of "bo_begin_key op"] * [of "bo_end_key op"]
    by (auto simp: batch_op_bytes_def)
qed

lemma length_length_prefixed_le: "length (length_prefixed s) \<le> 5 + length s"
  using VarintLength_le_5 [of "word_of_nat (length s)"] by (simp add: length_prefixed_def)

lemma length_wal_payload: "wal_op_ok op \<Longrightarrow> length (wal_payload op) < 2 ^ 31 + 32"
proof (cases op)
  case (LogRecord seq t k v)
  assume "wal_op_ok op"
  then show ?thesis using LogRecord length_length_prefixed_le [of k] length_length_prefixed_le [of v]
    by simp
next
  case (LogRange seq b e)
  assume "wal_op_ok op"
  then show ?thesis using LogRange length_length_prefixed_le [of b] length_length_prefixed_le [of e]
    by simp
next
  case (LogBatch seq ops)
  assume "wal_op_ok op"
  moreover have "length (concat (map batch_op_bytes ops)) \<le>
      sum_list (map (\<lambda>op. 16 + length (bo_key op) + length (bo_value op) + length (bo_begin_key op)
                          + length (bo_end_key op)) ops)"
    unfolding length_concat map_map comp_def by (rule sum_list_mono) (rule length_batch_op_bytes)
  ultimately show ?thesis using LogBatch VarintLength_le_5 [of "word_of_nat (length ops)"] by simp
qed

lemma length_wal_payload_pos: "9 \<le> length (wal_payload op)"
  by (cases op) (simp_all)

lemma length_wal_frame [simp, length_simps]: "length (wal_frame payload) = 8 + length payload"
  by (simp add: wal_frame_def)

lemma WALWriter_log_eq:
  assumes "wal_op_ok op"
  shows "WALWriter_log env w op = WALWriter_put env w (word_of_nat (length (wal_payload op))) (wal_payload op)"
proof (cases op)
  case (LogBatch seq ops)
  then show ?thesis using assms
    by (simp add: WALWriter_AppendBatch_def batch_len_eq Let_def algebra_simps)
qed (use assms in \<open>simp_all add: WALWriter_Append_def WALWriter_AppendRangeDelete_def length_put_string algebra_simps\<close>)

text \<open>The state of a writer after \<open>ops\<close>: the records lie at the start of the file, zeros follow,
  and a block of space is left.\<close>

definition wal_has :: "WALWriter \<Rightarrow> wal_op list \<Rightarrow> bool" where
  "wal_has w ops \<longleftrightarrow> ww_fd w \<and> ww_mapped w \<and> ww_write_pos w = length (wal_file ops)
     \<and> ww_write_pos w + kBlockSize < ww_file_size w \<and> kInitialFileSize \<le> ww_file_size w
     \<and> ww_file w = wal_file ops @ replicate (ww_file_size w - length (wal_file ops)) 0"

lemma WALWriter_Open_has:
  assumes "WALWriter_Open env (WALWriter_new name) = (s, w)" and "ok s"
  shows "wal_has w []"
  using assms
  by (auto simp: WALWriter_Open_def WALWriter_new_def wal_has_def wal_file_def kInitialFileSize_def kBlockSize_def
      set_size_def ok_def status_simps split: if_splits)

lemma wal_file_snoc: "wal_file (ops @ [op]) = wal_file ops @ wal_bytes op"
  by (simp add: wal_file_def)

lemma write_frame:
  fixes pre :: bytes
  assumes "8 + length payload \<le> n"
  defines "a \<equiv> length pre"
  defines "f1 \<equiv> write_at (pre @ replicate n 0) (a + 8) payload"
  shows "take (length payload) (drop (a + 8) f1) = payload"
    and "write_at (write_at f1 a (EncodeFixed32 crc)) (a + 4) (EncodeFixed32 len)
           = pre @ EncodeFixed32 crc @ EncodeFixed32 len @ payload @ replicate (n - (8 + length payload)) 0"
proof -
  have "pre @ replicate n (0 :: byte) = (pre @ replicate 8 0) @ replicate (length payload) 0 @ replicate (n - (8 + length payload)) 0"
    using assms(1) by (simp flip: replicate_add)
  then have f1: "f1 = pre @ replicate 8 0 @ payload @ replicate (n - (8 + length payload)) 0"
    using write_at_inside [of "pre @ replicate 8 0" "replicate (length payload) 0" "replicate (n - (8 + length payload)) 0" payload]
    by (simp add: f1_def a_def)
  then show "take (length payload) (drop (a + 8) f1) = payload" by (simp add: a_def)
  let ?t = "replicate 4 0 @ payload @ replicate (n - (8 + length payload)) 0"
  have f1': "f1 = pre @ replicate 4 0 @ ?t" using f1 by (simp add: eval_nat_numeral)
  have "write_at f1 a (EncodeFixed32 crc) = (pre @ EncodeFixed32 crc) @ replicate 4 0 @ payload @ replicate (n - (8 + length payload)) 0"
    unfolding f1' a_def by (subst write_at_inside) simp
  then show "write_at (write_at f1 a (EncodeFixed32 crc)) (a + 4) (EncodeFixed32 len)
           = pre @ EncodeFixed32 crc @ EncodeFixed32 len @ payload @ replicate (n - (8 + length payload)) 0"
    using write_at_inside [of "pre @ EncodeFixed32 crc" "replicate 4 0" "payload @ replicate (n - (8 + length payload)) 0" "EncodeFixed32 len"]
    by (simp add: a_def)
qed

text \<open>\<open>GrowFile\<close> keeps the content and leaves room for the record.\<close>

lemma WALWriter_GrowFile_has:
  assumes "wal_has w ops" and "WALWriter_GrowFile env w = (s, w')" and "ok s"
  shows "wal_has w' ops \<and> ww_file_size w' = 2 * ww_file_size w"
proof -
  let ?n = "ww_file_size w"
  have "?n * 2 > 0" using assms(1) by (simp add: wal_has_def)
  then have w': "w' = w\<lparr>ww_mapped := True, ww_file_size := ?n * 2, ww_file := set_size (?n * 2) (ww_file w)\<rparr>"
    using assms(2,3) by (auto simp: WALWriter_GrowFile_def Let_def ok_def status_simps split: if_splits)
  have "set_size (?n * 2) (ww_file w) = wal_file ops @ replicate (?n * 2 - length (wal_file ops)) 0"
    using assms(1) by (simp add: wal_has_def set_size_zeros)
  then show ?thesis using assms(1) by (simp add: w' wal_has_def)
qed

text \<open>A record that fits the space (in particular every one smaller than the initial file less a
  block, \<open>put_has_small\<close>) is stored behind the others.\<close>

lemma unat_total:
  assumes "wal_op_ok op"
  shows "unat (word_of_nat (length (wal_payload op)) :: u32) = length (wal_payload op)"
    and "unat (8 + word_of_nat (length (wal_payload op)) :: u32) = 8 + length (wal_payload op)"
proof -
  have l: "8 + length (wal_payload op) < 2 ^ 32" using length_wal_payload [OF assms] by simp
  then show "unat (word_of_nat (length (wal_payload op)) :: u32) = length (wal_payload op)"
    by (simp add: unat_of_nat)
  have "(8 + word_of_nat (length (wal_payload op)) :: u32) = word_of_nat (8 + length (wal_payload op))"
    by simp
  then show "unat (8 + word_of_nat (length (wal_payload op)) :: u32) = 8 + length (wal_payload op)"
    using l by (simp only: unat_of_nat) simp
qed

lemma put_stores:
  assumes has: "wal_has w ops" and ok: "wal_op_ok op"
    and fits: "ww_write_pos w + (8 + length (wal_payload op)) + kBlockSize < ww_file_size w"
  shows "\<exists>w'. WALWriter_put env w (word_of_nat (length (wal_payload op))) (wal_payload op) = Some (Status_OK, w')
           \<and> wal_has w' (ops @ [op]) \<and> ww_synced w' = ww_synced w \<and> ww_filename w' = ww_filename w"
proof -
  let ?pl = "wal_payload op" and ?n = "ww_file_size w - length (wal_file ops)"
  have f: "ww_file w = wal_file ops @ replicate ?n 0" and p: "ww_write_pos w = length (wal_file ops)"
    and m: "ww_mapped w" using has by (simp_all add: wal_has_def)
  have n: "8 + length ?pl \<le> ?n" using fits p by simp
  let ?f = "wal_file ops @ wal_bytes op @ replicate (?n - (8 + length ?pl)) 0"
  let ?w' = "w\<lparr>ww_file := ?f, ww_write_pos := ww_write_pos w + (8 + length ?pl)\<rparr>"
  have "WALWriter_put env w (word_of_nat (length ?pl)) ?pl = Some (Status_OK, ?w')"
    using fits m n by (simp add: WALWriter_put_def Let_def unat_total [OF ok] f p wal_frame_def write_frame [OF n, of "wal_file ops"])
  moreover have "wal_has ?w' (ops @ [op])"
    using has fits by (simp add: wal_has_def wal_file_snoc)
  ultimately show ?thesis by auto
qed

lemma put_grows:
  assumes "ww_file_size w \<le> ww_write_pos w + (8 + length (wal_payload op)) + kBlockSize"
    and "WALWriter_GrowFile env w = (s, w')" and "wal_op_ok op" and "ok s"
    and "ww_write_pos w' + (8 + length (wal_payload op)) + kBlockSize < ww_file_size w'"
  shows "WALWriter_put env w (word_of_nat (length (wal_payload op))) (wal_payload op)
           = WALWriter_put env w' (word_of_nat (length (wal_payload op))) (wal_payload op)"
  using assms by (simp add: WALWriter_put_def Let_def unat_total [OF assms(3)])

definition wal_op_small :: "wal_op \<Rightarrow> bool" where
  "wal_op_small op \<longleftrightarrow> 8 + length (wal_payload op) + kBlockSize \<le> kInitialFileSize"

lemma log_has:
  assumes has: "wal_has w ops" and ok: "wal_op_ok op" "wal_op_small op"
  obtains (stored) w' where "WALWriter_log env w op = Some (Status_OK, w')" "wal_has w' (ops @ [op])"
    "ww_synced w' = ww_synced w" "ww_filename w' = ww_filename w"
  | (failed) s w' where "WALWriter_log env w op = Some (s, w')" "\<not> ok s"
    "\<exists>n. \<not> env_ftruncate env (ww_filename w) n \<or> \<not> env_mmap env (ww_filename w) n"
proof (cases "ww_write_pos w + (8 + length (wal_payload op)) + kBlockSize < ww_file_size w")
  case True
  then show thesis using put_stores [OF has ok(1)] stored by (auto simp: WALWriter_log_eq [OF ok(1)])
next
  case False
  obtain s w1 where g: "WALWriter_GrowFile env w = (s, w1)" by fastforce
  show thesis
  proof (cases "Lkv_Slice.ok s")
    case True
    have w1: "wal_has w1 ops" "ww_file_size w1 = 2 * ww_file_size w"
      using WALWriter_GrowFile_has [OF has g True] by auto
    have i: "ww_synced w1 = ww_synced w" "ww_filename w1 = ww_filename w"
      using g by (auto simp: WALWriter_GrowFile_def Let_def split: if_splits)
    have "ww_write_pos w1 + (8 + length (wal_payload op)) + kBlockSize < ww_file_size w1"
      using has w1 ok(2) by (simp add: wal_has_def wal_op_small_def)
    then show thesis
      using put_stores [OF w1(1) ok(1)] put_grows [OF _ g ok(1) True] False stored i
      by (fastforce simp: WALWriter_log_eq [OF ok(1)])
  next
    case bad: False
    have "WALWriter_log env w op = Some (s, w1)"
      using False g bad by (simp add: WALWriter_log_eq [OF ok(1)] WALWriter_put_def unat_total [OF ok(1)] Let_def)
    moreover have "ww_fd w" "ww_file_size w \<noteq> 0" using has by (auto simp: wal_has_def)
    then have "\<exists>n. \<not> env_ftruncate env (ww_filename w) n \<or> \<not> env_mmap env (ww_filename w) n"
      using g bad by (auto simp: WALWriter_GrowFile_def Let_def ok_def Status_OK_def split: if_splits)
    ultimately show thesis using failed bad by blast
  qed
qed

text \<open>A sequence of appends, stopping at the first one that fails.\<close>

fun WALWriter_log_all :: "Env \<Rightarrow> WALWriter \<Rightarrow> wal_op list \<Rightarrow> (Status \<times> WALWriter) option" where
  "WALWriter_log_all env w [] = Some (Status_OK, w)"
| "WALWriter_log_all env w (op # ops) =
     (case WALWriter_log env w op of
        None \<Rightarrow> None
      | Some (s, w) \<Rightarrow> if ok s then WALWriter_log_all env w ops else Some (s, w))"

lemma log_all_has:
  assumes "wal_has w ops0" and "list_all wal_op_ok ops" and "list_all wal_op_small ops"
  shows "\<exists>s w'. WALWriter_log_all env w ops = Some (s, w') \<and>
     (if ok s then wal_has w' (ops0 @ ops) \<and> ww_synced w' = ww_synced w \<and> ww_filename w' = ww_filename w
      else \<exists>n. \<not> env_ftruncate env (ww_filename w) n \<or> \<not> env_mmap env (ww_filename w) n)"
  using assms
proof (induction ops arbitrary: w ops0)
  case Nil
  then show ?case by (simp add: ok_def Status_OK_def)
next
  case (Cons op ops)
  have ok: "wal_op_ok op" "wal_op_small op" using Cons.prems by auto
  show ?case
  proof (cases rule: log_has [OF Cons.prems(1) ok, of env])
    case (1 w')
    obtain s w2 where "WALWriter_log_all env w' ops = Some (s, w2)"
        "if ok s then wal_has w2 ((ops0 @ [op]) @ ops) \<and> ww_synced w2 = ww_synced w' \<and> ww_filename w2 = ww_filename w'
         else \<exists>n. \<not> env_ftruncate env (ww_filename w') n \<or> \<not> env_mmap env (ww_filename w') n"
      using Cons.IH [OF 1(2)] Cons.prems by auto
    then show ?thesis using 1 by (intro exI [of _ s] exI [of _ w2]) auto
  next
    case (2 s w')
    then show ?thesis by auto
  qed
qed

subsection \<open>Reading a record that lies at the cursor\<close>

lemma ReadBatchOp_at:
  assumes "holds_at base p (batch_op_bytes op)" and "p + length (batch_op_bytes op) \<le> record_end"
    and "length (bo_key op) + length (bo_value op) + length (bo_begin_key op) + length (bo_end_key op) < 2 ^ 32"
  shows "ReadBatchOp base p record_end = Some (batch_op_logged op, p + length (batch_op_bytes op))"
proof (cases "bo_type op = WALRecord_kTypeRangeDeletion")
  case True
  then have "holds_at base (Suc p) (length_prefixed (bo_key op))"
      "holds_at base (Suc p + length (length_prefixed (bo_key op))) (length_prefixed (bo_begin_key op))"
      "holds_at base (Suc p + length (length_prefixed (bo_key op)) + length (length_prefixed (bo_begin_key op)))
         (length_prefixed (bo_end_key op))" "base ! p = bo_type op"
    using assms by (simp_all add: batch_op_bytes_def holds_at_append holds_at_Cons)
  then show ?thesis
    using assms True
    by (simp add: ReadBatchOp_def batch_op_logged_def batch_op_bytes_def GetLengthPrefixedSlice_at BatchOp_new_def
        algebra_simps)
next
  case False
  then have "holds_at base (Suc p) (length_prefixed (bo_key op))"
      "holds_at base (Suc p + length (length_prefixed (bo_key op))) (length_prefixed (bo_value op))"
      "base ! p = bo_type op"
    using assms by (simp_all add: batch_op_bytes_def holds_at_append holds_at_Cons)
  then show ?thesis
    using assms False
    by (simp add: ReadBatchOp_def batch_op_logged_def batch_op_bytes_def GetLengthPrefixedSlice_at BatchOp_new_def
        algebra_simps)
qed

lemma ReadBatchOps_at:
  assumes "holds_at base p (concat (map batch_op_bytes ops))"
    and "p + length (concat (map batch_op_bytes ops)) \<le> record_end"
    and "sum_list (map (\<lambda>op. 16 + length (bo_key op) + length (bo_value op) + length (bo_begin_key op)
            + length (bo_end_key op)) ops) < 2 ^ 31"
  shows "ReadBatchOps (length ops) base p record_end acc
           = (acc @ map batch_op_logged ops, Some (p + length (concat (map batch_op_bytes ops))))"
  using assms
proof (induction ops arbitrary: p acc)
  case (Cons op ops)
  have "ReadBatchOp base p record_end = Some (batch_op_logged op, p + length (batch_op_bytes op))"
    using Cons.prems by (intro ReadBatchOp_at) (auto simp: holds_at_append)
  then show ?case using Cons by (simp add: holds_at_append add.assoc)
qed simp

lemma length_ops_bound:
  "length ops \<le> sum_list (map (\<lambda>op. 16 + length (bo_key op) + length (bo_value op) + length (bo_begin_key op)
            + length (bo_end_key op)) ops)"
  by (induction ops) auto

text \<open>The payload without its first byte and its last eight.\<close>

lemma ReadRecord_body_at:
  assumes at: "holds_at base p (wal_payload op)" and ok: "wal_op_ok op"
    and e: "record_end = p + length (wal_payload op)"
  shows "\<exists>rec'. ReadRecord_body base (p + 1) record_end (rec\<lparr>rec_type := base ! p\<rparr>)
           = (rec', Some (record_end - 8))
         \<and> record_op (rec'\<lparr>rec_seq := DecodeFixed64 base (record_end - 8)\<rparr>) = wal_op_logged op"
proof (cases op)
  case (LogRecord seq t k v)
  let ?k = "length_prefixed k" and ?v = "length_prefixed v"
  have h: "base ! p = t" "holds_at base (Suc p) ?k" "holds_at base (Suc p + length ?k) ?v"
      "holds_at base (Suc p + length ?k + length ?v) (EncodeFixed64 seq)"
    using at LogRecord by (simp_all add: holds_at_append holds_at_Cons)
  have l: "length k < 2 ^ 32" "length v < 2 ^ 32" and t: "t \<noteq> 3" "t \<noteq> 4"
    using ok LogRecord by (simp_all add: WALRecord_types)
  have "ReadRecord_body base (p + 1) record_end (rec\<lparr>rec_type := base ! p\<rparr>)
      = (rec\<lparr>rec_type := t, rec_key := k, rec_value := v\<rparr>, Some (record_end - 8))"
    using GetLengthPrefixedSlice_at [OF h(2) _ l(1), of record_end]
      GetLengthPrefixedSlice_at [OF h(3) _ l(2), of record_end] t
    by (simp add: ReadRecord_body_def h(1) WALRecord_types e LogRecord)
  then show ?thesis using t DecodeFixed64_at [OF h(4)] by (simp add: record_op_def WALRecord_types e LogRecord add.assoc)
next
  case (LogRange seq k v)
  let ?k = "length_prefixed k" and ?v = "length_prefixed v"
  have h: "base ! p = 3" "holds_at base (Suc p) ?k" "holds_at base (Suc p + length ?k) ?v"
      "holds_at base (Suc p + length ?k + length ?v) (EncodeFixed64 seq)"
    using at LogRange by (simp_all add: holds_at_append holds_at_Cons WALRecord_types)
  have l: "length k < 2 ^ 32" "length v < 2 ^ 32"
    using ok LogRange by simp_all
  have "ReadRecord_body base (p + 1) record_end (rec\<lparr>rec_type := base ! p\<rparr>)
      = (rec\<lparr>rec_type := 3, rec_begin_key := k, rec_end_key := v\<rparr>, Some (record_end - 8))"
    using GetLengthPrefixedSlice_at [OF h(2) _ l(1), of record_end]
      GetLengthPrefixedSlice_at [OF h(3) _ l(2), of record_end]
    by (simp add: ReadRecord_body_def h(1) WALRecord_types e LogRange)
  then show ?thesis using DecodeFixed64_at [OF h(4)] by (simp add: record_op_def WALRecord_types e LogRange add.assoc)
next
  case (LogBatch seq ops)
  let ?c = "word_of_nat (length ops) :: u32" and ?b = "concat (map batch_op_bytes ops)"
  have h: "base ! p = 4" "holds_at base (Suc p) (EncodeVarint32 ?c)" "holds_at base (Suc p + VarintLength ?c) ?b"
      "holds_at base (Suc p + VarintLength ?c + length ?b) (EncodeFixed64 seq)"
    using at LogBatch by (simp_all add: holds_at_append holds_at_Cons WALRecord_types)
  have c: "unat ?c = length ops" using ok LogBatch length_ops_bound [of ops] by (intro unat_length_u32) simp
  have r: "ReadBatchOps (length ops) base (Suc p + VarintLength ?c) record_end []
      = (map batch_op_logged ops, Some (Suc p + VarintLength ?c + length ?b))"
    using ReadBatchOps_at [OF h(3), of record_end "[]"] ok LogBatch e by simp
  have "GetVarint32 base (Suc p) record_end = Some (?c, Suc p + VarintLength ?c)"
    using GetVarint32_at [OF h(2), of record_end] e LogBatch by simp
  then have "ReadRecord_body base (p + 1) record_end (rec\<lparr>rec_type := base ! p\<rparr>)
      = (rec\<lparr>rec_type := 4, rec_batch_ops := map batch_op_logged ops\<rparr>, Some (record_end - 8))"
    using r c by (simp add: ReadRecord_body_def h(1) WALRecord_types e LogBatch)
  then show ?thesis using DecodeFixed64_at [OF h(4)] by (simp add: record_op_def WALRecord_types e LogBatch add.assoc)
qed

lemma ReadRecord_at:
  assumes at: "holds_at (wr_base r) (wr_read_pos r) (wal_bytes op)" and ok: "wal_op_ok op"
  shows "\<exists>rec'. WALReader_ReadRecord r rec
           = Some (True, rec', r\<lparr>wr_read_pos := wr_read_pos r + length (wal_bytes op)\<rparr>)
         \<and> record_op rec' = wal_op_logged op"
proof -
  let ?base = "wr_base r" and ?p = "wr_read_pos r" and ?pl = "wal_payload op"
  have h: "DecodeFixed32 ?base ?p = Crc32cExtend 0 ?pl" "DecodeFixed32 ?base (?p + 4) = word_of_nat (length ?pl)"
      "holds_at ?base (?p + 8) ?pl"
    using at by (simp_all add: wal_frame_def holds_at_append DecodeFixed32_at add.commute)
  have n: "unat (word_of_nat (length ?pl) :: u32) = length ?pl" by (rule unat_total [OF ok])
  have l: "?p + 8 + length ?pl \<le> length ?base" "9 \<le> length ?pl"
    using holds_at_length [OF h(3)] length_wal_payload_pos [of op] by (cases "wal_payload op", auto)
  obtain rec' where b: "ReadRecord_body ?base (?p + 8 + 1) (?p + 8 + length ?pl) (rec\<lparr>rec_type := ?base ! (?p + 8)\<rparr>)
           = (rec', Some (?p + 8 + length ?pl - 8))"
      and o: "record_op (rec'\<lparr>rec_seq := DecodeFixed64 ?base (?p + 8 + length ?pl - 8)\<rparr>) = wal_op_logged op"
    using ReadRecord_body_at [OF h(3) ok refl, of rec] by blast
  have "WALReader_ReadRecord r rec = Some (True, rec'\<lparr>rec_seq := DecodeFixed64 ?base (?p + 8 + length ?pl - 8)\<rparr>,
      r\<lparr>wr_read_pos := ?p + length (wal_bytes op)\<rparr>)"
    using l b holds_at_slice [OF h(3)] unfolding WALReader_ReadRecord_def Let_def h(1,2) n by simp
  with o show ?thesis by blast
qed

subsection \<open>Reading a whole file\<close>

text \<open>The loop cut after \<open>n\<close> records, for files whose rest is arbitrary.\<close>

fun read_upto :: "nat \<Rightarrow> WALReader \<Rightarrow> WALRecord \<Rightarrow> (WALRecord list \<times> WALRecord \<times> WALReader) option" where
  "read_upto 0 r rec = Some ([], rec, r)"
| "read_upto (Suc n) r rec =
     (case WALReader_ReadRecord r rec of
        Some (True, rec, r) \<Rightarrow>
          (case read_upto n r rec of
             None \<Rightarrow> None
           | Some (recs, rec', r) \<Rightarrow> Some (rec # recs, rec', r))
      | _ \<Rightarrow> None)"

lemma read_upto_file:
  assumes "holds_at (wr_base r) (wr_read_pos r) (wal_file ops)" and "list_all wal_op_ok ops"
  shows "\<exists>recs rec'. read_upto (length ops) r rec
           = Some (recs, rec', r\<lparr>wr_read_pos := wr_read_pos r + length (wal_file ops)\<rparr>)
         \<and> map record_op recs = map wal_op_logged ops"
  using assms
proof (induction ops arbitrary: r rec)
  case Nil
  then show ?case by (simp add: wal_file_def)
next
  case (Cons op ops)
  have f: "wal_file (op # ops) = wal_bytes op @ wal_file ops" by (simp add: wal_file_def)
  let ?r = "r\<lparr>wr_read_pos := wr_read_pos r + length (wal_bytes op)\<rparr>"
  obtain rec1 where r1: "WALReader_ReadRecord r rec = Some (True, rec1, ?r)" "record_op rec1 = wal_op_logged op"
    using ReadRecord_at [of r op rec] Cons.prems by (auto simp: f holds_at_append)
  obtain recs rec' where "read_upto (length ops) ?r rec1
        = Some (recs, rec', ?r\<lparr>wr_read_pos := wr_read_pos ?r + length (wal_file ops)\<rparr>)"
      "map record_op recs = map wal_op_logged ops"
    using Cons.IH [of ?r rec1] Cons.prems by (auto simp: f holds_at_append)
  then show ?case using r1 by (auto simp: f add.assoc)
qed

lemma read_records_upto:
  "read_upto n r rec = Some (recs, rec', r') \<Longrightarrow>
   read_records r rec = (case read_records r' rec' of None \<Rightarrow> None | Some (rs, q) \<Rightarrow> Some (recs @ rs, q))"
proof (induction n arbitrary: r rec recs)
  case 0
  then show ?case by (auto split: option.splits)
next
  case (Suc n)
  then show ?case
    by (subst read_records.simps) (auto split: option.splits prod.splits bool.splits)
qed

lemma read_records_stop:
  "WALReader_ReadRecord r rec = Some (False, rec', r') \<Longrightarrow> read_records r rec = Some ([], r')"
  by (subst read_records.simps) simp

lemma read_records_file:
  assumes "list_all wal_op_ok ops" and "file = wal_file ops @ rest"
    and stop: "\<And>rec. \<exists>rec' r'. WALReader_ReadRecord \<lparr>wr_base = file, wr_read_pos = length (wal_file ops)\<rparr> rec
                 = Some (False, rec', r')"
  shows "\<exists>recs r'. read_records \<lparr>wr_base = file, wr_read_pos = 0\<rparr> rec = Some (recs, r')
           \<and> map record_op recs = map wal_op_logged ops"
proof -
  obtain recs rec' where "read_upto (length ops) \<lparr>wr_base = file, wr_read_pos = 0\<rparr> rec
           = Some (recs, rec', \<lparr>wr_base = file, wr_read_pos = length (wal_file ops)\<rparr>)"
      and "map record_op recs = map wal_op_logged ops"
    using read_upto_file [of "\<lparr>wr_base = file, wr_read_pos = 0\<rparr>" ops rec] assms(1,2) by auto
  moreover obtain rec2 r2 where
      "WALReader_ReadRecord \<lparr>wr_base = file, wr_read_pos = length (wal_file ops)\<rparr> rec' = Some (False, rec2, r2)"
    using stop by blast
  ultimately show ?thesis by (auto simp: read_records_upto dest!: read_records_stop)
qed

text \<open>Where the loop stops: at the end of the file, in the zeros of the preallocated space (at
  least nine of them: an empty record that ends the file is followed out of the mapping), and at a
  record that is cut.\<close>

lemma ReadRecord_end: "length (wr_base r) < wr_read_pos r + 8 \<Longrightarrow> WALReader_ReadRecord r rec = Some (False, rec, r)"
  by (simp add: WALReader_ReadRecord_def)

lemma DecodeFixed32_zeros:
  assumes "holds_at base p (replicate 4 0)" shows "DecodeFixed32 base p = 0"
proof -
  have "replicate 4 (0 :: byte) = EncodeFixed32 0" by (simp add: EncodeFixed32_def eval_nat_numeral)
  then show ?thesis using assms DecodeFixed32_at by simp
qed

lemma ReadRecord_zeros:
  assumes "8 < n"
  shows "WALReader_ReadRecord \<lparr>wr_base = pre @ replicate n 0, wr_read_pos = length pre\<rparr> rec
    = Some (False, rec\<lparr>rec_type := 0\<rparr>, \<lparr>wr_base = pre @ replicate n 0, wr_read_pos = length pre + 8\<rparr>)"
proof -
  let ?base = "pre @ replicate n 0"
  have z: "holds_at ?base (length pre + k) (replicate 4 0)" if "k + 4 \<le> n" for k
    using that by (simp add: holds_at_shift) (simp add: holds_at_def)
  have d: "DecodeFixed32 ?base (length pre) = 0" "DecodeFixed32 ?base (length pre + 4) = 0"
    using DecodeFixed32_zeros [OF z, of 0] DecodeFixed32_zeros [OF z, of 4] assms by simp_all
  have "?base ! (length pre + 8) = 0" using assms by (simp add: nth_append)
  then show ?thesis using assms d
    by (simp add: WALReader_ReadRecord_def Let_def Crc32cExtend_def ReadRecord_body_def WALRecord_types
        GetLengthPrefixedSlice_def GetVarint32_def eval_nat_numeral)
qed

lemma ReadRecord_torn:
  fixes pre :: bytes
  assumes "wal_op_ok op" and "m < length (wal_bytes op)"
  defines "base \<equiv> pre @ take m (wal_bytes op)"
  shows "WALReader_ReadRecord \<lparr>wr_base = base, wr_read_pos = length pre\<rparr> rec
    = Some (False, rec, \<lparr>wr_base = base, wr_read_pos = length pre\<rparr>)"
proof (cases "m < 8")
  case True
  then show ?thesis by (intro ReadRecord_end) (simp add: base_def)
next
  case False
  let ?pl = "wal_payload op" and ?crc = "EncodeFixed32 (Crc32cExtend 0 (wal_payload op))"
  let ?len = "EncodeFixed32 (word_of_nat (length ?pl))"
  have "base = (pre @ ?crc) @ ?len @ take (m - 8) ?pl"
    using False by (simp add: base_def wal_frame_def)
  then have "holds_at base (length (pre @ ?crc)) ?len" by (metis holds_at_self)
  then have "DecodeFixed32 base (length pre + 4) = word_of_nat (length ?pl)"
    using DecodeFixed32_at by fastforce
  moreover have "length base < length pre + 8 + length ?pl" using assms by (simp add: base_def)
  ultimately show ?thesis
    by (simp add: WALReader_ReadRecord_def Let_def unat_total [OF assms(1)])
qed

text \<open>The number of records that lie completely in the first \<open>m\<close> bytes of the file.\<close>

fun whole_records :: "nat \<Rightarrow> wal_op list \<Rightarrow> nat" where
  "whole_records m [] = 0"
| "whole_records m (op # ops) =
     (if length (wal_bytes op) \<le> m then Suc (whole_records (m - length (wal_bytes op)) ops) else 0)"

lemma take_wal_file:
  obtains "m \<ge> length (wal_file ops)" "whole_records m ops = length ops" "take m (wal_file ops) = wal_file ops"
  | op k where "op \<in> set ops" "k < length (wal_bytes op)"
      "take m (wal_file ops) = wal_file (take (whole_records m ops) ops) @ take k (wal_bytes op)"
proof (induction ops arbitrary: m thesis)
  case Nil
  then show ?case by (simp add: wal_file_def)
next
  case (Cons op ops)
  have f: "wal_file (op # xs) = wal_bytes op @ wal_file xs" for xs by (simp add: wal_file_def)
  show ?case
  proof (cases "length (wal_bytes op) \<le> m")
    case False
    then show ?thesis using Cons.prems(2) [of op m] by (simp add: f wal_file_def)
  next
    case True
    show ?thesis
    proof (rule Cons.IH [of "m - length (wal_bytes op)"])
      assume "length (wal_file ops) \<le> m - length (wal_bytes op)"
        "whole_records (m - length (wal_bytes op)) ops = length ops"
        "take (m - length (wal_bytes op)) (wal_file ops) = wal_file ops"
      then show ?thesis using True by (intro Cons.prems(1)) (auto simp: f)
    next
      fix op' k assume "op' \<in> set ops" "k < length (wal_bytes op')"
        "take (m - length (wal_bytes op)) (wal_file ops)
          = wal_file (take (whole_records (m - length (wal_bytes op)) ops) ops) @ take k (wal_bytes op')"
      then show ?thesis using True by (intro Cons.prems(2) [of op' k]) (auto simp: f)
    qed
  qed
qed

lemma read_records_torn:
  assumes "list_all wal_op_ok ops"
  shows "\<exists>recs r'. read_records \<lparr>wr_base = take m (wal_file ops), wr_read_pos = 0\<rparr> rec = Some (recs, r')
           \<and> map record_op recs = map wal_op_logged (take (whole_records m ops) ops)"
proof (cases rule: take_wal_file [of ops m])
  case 1
  then show ?thesis using read_records_file [OF assms, of "wal_file ops" "[]"] by (simp add: ReadRecord_end)
next
  case (2 op k)
  have "wal_op_ok op" using 2(1) assms by (simp add: list_all_iff)
  moreover have "list_all wal_op_ok (take (whole_records m ops) ops)"
    using assms by (auto simp: list_all_iff dest: in_set_takeD)
  ultimately show ?thesis
    using read_records_file [of "take (whole_records m ops) ops" "take m (wal_file ops)" "take k (wal_bytes op)"]
      ReadRecord_torn [OF _ 2(2)] 2(3) by metis
qed

subsection \<open>From the writer to the reader\<close>

lemma wal_written:
  assumes "env_open env name" and "\<And>n. env_ftruncate env name n \<and> env_mmap env name n"
    and "list_all wal_op_ok ops" and "list_all wal_op_small ops"
  obtains w0 s w where "WALWriter_Open env (WALWriter_new name) = (Status_OK, w0)"
    "WALWriter_log_all env w0 ops = Some (s, w)" "ok s" "wal_has w ops" "ww_filename w = name" "ww_synced w = 0"
proof -
  obtain w0 where w0: "WALWriter_Open env (WALWriter_new name) = (Status_OK, w0)"
      "ww_filename w0 = name" "ww_synced w0 = 0"
    using assms(1,2) by (simp add: WALWriter_Open_def WALWriter_new_def)
  have "wal_has w0 []" using WALWriter_Open_has [OF w0(1)] by simp
  then obtain s w where l: "WALWriter_log_all env w0 ops = Some (s, w)"
      "if ok s then wal_has w ([] @ ops) \<and> ww_synced w = ww_synced w0 \<and> ww_filename w = ww_filename w0
       else \<exists>n. \<not> env_ftruncate env (ww_filename w0) n \<or> \<not> env_mmap env (ww_filename w0) n"
    using log_all_has [of w0 "[]" ops env] assms(3,4) by blast
  then have "ok s" using assms(2) w0 by (auto split: if_splits)
  then show thesis using that [OF w0(1) l(1)] l(2) w0 by simp
qed

lemma Close_file:
  assumes "wal_has w ops" and "env_ftruncate env (ww_filename w) (ww_write_pos w)"
  shows "ww_file (WALWriter_Close env w) = wal_file ops"
  using assms by (auto simp: WALWriter_Close_def WALWriter_Sync_def wal_has_def set_size_def Let_def)

lemma read_records_has:
  assumes "wal_has w ops" and "list_all wal_op_ok ops"
  shows "\<exists>recs r'. read_records \<lparr>wr_base = ww_file w, wr_read_pos = 0\<rparr> rec = Some (recs, r')
           \<and> map record_op recs = map wal_op_logged ops"
proof -
  let ?n = "ww_file_size w - length (wal_file ops)"
  have f: "ww_file w = wal_file ops @ replicate ?n 0" and n: "8 < ?n"
    using assms(1) by (auto simp: wal_has_def kBlockSize_def)
  show ?thesis
    using read_records_file [OF assms(2) f] ReadRecord_zeros [OF n, of "wal_file ops"] unfolding f by blast
qed

subsection \<open>Properties\<close>

text \<open>C3: Whatever sequence of records, range deletions and batches is appended to a fresh log, every
  append succeeds (when the file can be sized and mapped), and the recovery loop reads the same
  operations back in order, both from the closed file and from the file a crash leaves behind at
  its preallocated size.\<close>

theorem wal_roundtrip:
  assumes "env_open env name" and "\<And>n. env_ftruncate env name n \<and> env_mmap env name n"
    and "list_all wal_op_ok ops" and "list_all wal_op_small ops"
  shows "\<exists>w0 s w. WALWriter_Open env (WALWriter_new name) = (Status_OK, w0)
    \<and> WALWriter_log_all env w0 ops = Some (s, w) \<and> ok s
    \<and> list_all (\<lambda>file. \<exists>recs r. read_records \<lparr>wr_base = file, wr_read_pos = 0\<rparr> WALRecord_new = Some (recs, r)
          \<and> map record_op recs = map wal_op_logged ops)
        [ww_file w, ww_file (WALWriter_Close env w)]"
proof -
  obtain w0 s w where w: "WALWriter_Open env (WALWriter_new name) = (Status_OK, w0)"
    "WALWriter_log_all env w0 ops = Some (s, w)" "ok s" "wal_has w ops" "ww_filename w = name"
    using wal_written [OF assms] by metis
  have "ww_file (WALWriter_Close env w) = take (length (wal_file ops)) (wal_file ops)"
    using Close_file [OF w(4)] assms(2) w(5) by simp
  moreover have "whole_records (length (wal_file ops)) ops = length ops"
    by (induction ops) (simp_all add: wal_file_def)
  ultimately show ?thesis
    using w read_records_has [OF w(4) assms(3), of WALRecord_new]
      read_records_torn [OF assms(3), of "length (wal_file ops)" WALRecord_new] by auto
qed

definition demo_ops :: "wal_op list" where
  "demo_ops = [LogRecord 1 1 [107] [118], LogRange 2 [97] [99],
     LogBatch 3 [\<lparr>bo_type = 1, bo_key = [107], bo_value = [119], bo_begin_key = [], bo_end_key = []\<rparr>,
                 \<lparr>bo_type = 2, bo_key = [108], bo_value = [], bo_begin_key = [], bo_end_key = []\<rparr>]]"

lemma demo_ops_ok: "list_all wal_op_ok demo_ops" "list_all wal_op_small demo_ops"
  by (simp_all add: demo_ops_def WALRecord_types wal_op_small_def kInitialFileSize_def kBlockSize_def
      length_prefixed_def EncodeVarint32.simps VarintLength.simps batch_op_bytes_def put_string_def)

theorem wal_roundtrip_witness:
  "\<exists>w0 s w. WALWriter_Open Env_good (WALWriter_new ''w'') = (Status_OK, w0)
    \<and> WALWriter_log_all Env_good w0 demo_ops = Some (s, w) \<and> ok s
    \<and> list_all (\<lambda>file. \<exists>recs r. read_records \<lparr>wr_base = file, wr_read_pos = 0\<rparr> WALRecord_new = Some (recs, r)
          \<and> map record_op recs = map wal_op_logged demo_ops)
        [ww_file w, ww_file (WALWriter_Close Env_good w)]"
  by (rule wal_roundtrip) (use demo_ops_ok in \<open>simp_all add: Env_good_def\<close>)



text \<open>C9: Everything appended before a \<open>Sync\<close> whose system calls succeed survives: whatever is
  appended later and whatever a crash does to the rest of the file, a file that agrees with the log
  on the synchronised prefix starts with the records of those operations.\<close>

theorem wal_sync_durable:
  assumes "env_open env name" and "\<And>n. env_ftruncate env name n \<and> env_mmap env name n"
    and "\<And>n. env_msync env name n \<and> env_fsync env name"
    and "list_all wal_op_ok (ops @ ops')" and "list_all wal_op_small (ops @ ops')"
  shows "\<exists>w0 s1 w1 w2 s3 w3. WALWriter_Open env (WALWriter_new name) = (Status_OK, w0)
    \<and> WALWriter_log_all env w0 ops = Some (s1, w1) \<and> WALWriter_Sync env w1 = (Status_OK, w2)
    \<and> WALWriter_log_all env w2 ops' = Some (s3, w3)
    \<and> (\<forall>file. take (ww_synced w3) file = take (ww_synced w3) (ww_file w3) \<longrightarrow>
         (\<exists>recs rec' r. read_upto (length ops) \<lparr>wr_base = file, wr_read_pos = 0\<rparr> rec = Some (recs, rec', r)
            \<and> map record_op recs = map wal_op_logged ops))"
proof -
  obtain w0 s1 w1 where w: "WALWriter_Open env (WALWriter_new name) = (Status_OK, w0)"
    "WALWriter_log_all env w0 ops = Some (s1, w1)" "wal_has w1 ops" "ww_filename w1 = name"
    using wal_written [of env name ops] assms by (metis list_all_append)
  let ?w2 = "w1\<lparr>ww_synced := length (wal_file ops)\<rparr>"
  have w2: "WALWriter_Sync env w1 = (Status_OK, ?w2)"
    using w(3,4) assms(3) by (simp add: WALWriter_Sync_def wal_has_def)
  have "wal_has ?w2 ops" using w(3) by (simp add: wal_has_def)
  then obtain s3 w3 where l: "WALWriter_log_all env ?w2 ops' = Some (s3, w3)"
      and "if ok s3 then wal_has w3 (ops @ ops') \<and> ww_synced w3 = ww_synced ?w2 \<and> ww_filename w3 = ww_filename ?w2
       else \<exists>n. \<not> env_ftruncate env (ww_filename ?w2) n \<or> \<not> env_mmap env (ww_filename ?w2) n"
    using log_all_has [of ?w2 ops ops' env] assms(4,5) by (auto simp del: WALWriter_log_all.simps)
  then have w3: "wal_has w3 (ops @ ops')" "ww_synced w3 = length (wal_file ops)"
    using assms(2) w(4) by (auto split: if_splits)
  then have p: "take (ww_synced w3) (ww_file w3) = wal_file ops"
    by (simp add: wal_has_def wal_file_def)
  have "\<exists>recs rec' r. read_upto (length ops) \<lparr>wr_base = image, wr_read_pos = 0\<rparr> rec = Some (recs, rec', r)
            \<and> map record_op recs = map wal_op_logged ops"
    if "take (ww_synced w3) image = take (ww_synced w3) (ww_file w3)" for image
    using read_upto_file [of "\<lparr>wr_base = image, wr_read_pos = 0\<rparr>" ops rec] that p w3(2) assms(4)
    by (auto simp: holds_at_def)
  then show ?thesis using w w2 l by blast
qed

theorem wal_sync_durable_witness:
  "\<exists>w0 s1 w1 w2 s3 w3. WALWriter_Open Env_good (WALWriter_new ''w'') = (Status_OK, w0)
    \<and> WALWriter_log_all Env_good w0 demo_ops = Some (s1, w1) \<and> WALWriter_Sync Env_good w1 = (Status_OK, w2)
    \<and> WALWriter_log_all Env_good w2 demo_ops = Some (s3, w3)
    \<and> (\<exists>recs rec' r. read_upto 3 \<lparr>wr_base = ww_file w3, wr_read_pos = 0\<rparr> WALRecord_new = Some (recs, rec', r)
          \<and> map record_op recs = map wal_op_logged demo_ops)"
proof -
  have "env_open Env_good ''w''" "\<And>n. env_ftruncate Env_good ''w'' n \<and> env_mmap Env_good ''w'' n"
    "\<And>n. env_msync Env_good ''w'' n \<and> env_fsync Env_good ''w''"
    by (simp_all add: Env_good_def)
  moreover have "length demo_ops = 3" by (simp add: demo_ops_def)
  ultimately show ?thesis
    using wal_sync_durable [of Env_good "''w''" demo_ops demo_ops WALRecord_new] demo_ops_ok
    by (auto simp del: WALWriter_log_all.simps)
qed

text \<open>C38: The space for a record is made by doubling the file once. A record that does not fit into
  twice the current size is stored past the end of the mapping: the append has no result.\<close>

theorem wal_append_overruns:
  assumes "ww_fd w" and "0 < ww_file_size w"
    and "\<And>n. env_ftruncate env (ww_filename w) n \<and> env_mmap env (ww_filename w) n"
    and "wal_op_ok op" and "2 * ww_file_size w < ww_write_pos w + 8 + length (wal_payload op)"
  shows "WALWriter_log env w op = None"
  using assms
  by (auto simp: WALWriter_log_eq WALWriter_put_def WALWriter_GrowFile_def unat_total Let_def ok_def status_simps)

theorem wal_append_overruns_witness:
  "\<exists>w0. WALWriter_Open Env_good (WALWriter_new ''w'') = (Status_OK, w0)
     \<and> WALWriter_log Env_good w0 (LogRecord 1 1 [107] (replicate (128 * 1024 * 1024) 0)) = None"
proof -
  let ?op = "LogRecord 1 1 [107] (replicate (128 * 1024 * 1024) 0)"
  obtain w0 where w0: "WALWriter_Open Env_good (WALWriter_new ''w'') = (Status_OK, w0)"
      "ww_fd w0" "ww_file_size w0 = kInitialFileSize"
    by (simp add: WALWriter_Open_def WALWriter_new_def Env_good_def)
  have "wal_op_ok ?op" by (simp add: WALRecord_types)
  moreover have "2 * ww_file_size w0 < ww_write_pos w0 + 8 + length (wal_payload ?op)"
    using w0(3) by (simp add: kInitialFileSize_def length_prefixed_def)
  moreover have "0 < ww_file_size w0" using w0(3) by (simp add: kInitialFileSize_def)
  moreover have "\<And>n. env_ftruncate Env_good (ww_filename w0) n \<and> env_mmap Env_good (ww_filename w0) n"
    by (simp add: Env_good_def)
  ultimately have "WALWriter_log Env_good w0 ?op = None"
    using wal_append_overruns [OF w0(2)] by blast
  with w0(1) show ?thesis by blast
qed

end
