(* ===== verification/Lkv_Manifest.thy ===== *)
theory Lkv_Manifest
  imports Lkv_Options Lkv_Encoding "HOL-Library.Monad_Syntax"
begin

section \<open>The manifest (manifest.h, manifest.cpp)\<close>

text \<open>
  The manifest names the live table files of every level and the sequence counters. It is a file
  \<open>MANIFEST\<close>: a snapshot, followed by frames appended by later updates; older directories hold
  a text format, which is still read. \<open>files\<close> and \<open>pending_adds_\<close>, arrays of vectors in
  the source, are lists of lists here; files on disk are a map from paths to bytes.

  The lemmas show that a snapshot and the frames behind it read back to the counters and the
  files they were written from, for every sequence of edits and updates that the engine performs,
  updates that fail included.
\<close>

subsection \<open>Numbers in the text format\<close>

fun ParseU64_loop :: "bytes \<Rightarrow> u64 \<Rightarrow> u64 option" where
  "ParseU64_loop [] v = Some v"
| "ParseU64_loop (c # s) v =
     (if c < 48 \<or> 57 < c then None
      else let d = ucast (c - 48)
           in if (- 1 - d) div 10 < v then None else ParseU64_loop s (v * 10 + d))"

definition ParseU64 :: "bytes \<Rightarrow> u64 option" where
  "ParseU64 s = (if s = [] then None else ParseU64_loop s 0)"

fun ParseI32_loop :: "bytes \<Rightarrow> int \<Rightarrow> int option" where
  "ParseI32_loop [] v = Some v"
| "ParseI32_loop (c # s) v =
     (if c < 48 \<or> 57 < c then None
      else let v = v * 10 + uint (c - 48) in if 2147483648 < v then None else ParseI32_loop s v)"

definition ParseI32 :: "bytes \<Rightarrow> int option" where
  "ParseI32 s =
     (case s of
        [] \<Rightarrow> None
      | c # t \<Rightarrow>
          let neg = (c = 45); digits = (if neg then t else s)
          in if neg \<and> t = [] then None
             else map_option (\<lambda>v. sint (word_of_int (if neg then - v else v) :: 32 word)) (ParseI32_loop digits 0))"

text \<open>\<open>line.find(label, from)\<close>.\<close>

definition find_at :: "bytes \<Rightarrow> bytes \<Rightarrow> nat \<Rightarrow> nat option" where
  "find_at line label from =
     find (\<lambda>i. take (length label) (drop i line) = label) [from..<Suc (length line) - length label]"

definition substr :: "bytes \<Rightarrow> nat \<Rightarrow> nat \<Rightarrow> bytes" where
  "substr s start n = take n (drop start s)"

definition is_digit :: "byte \<Rightarrow> bool" where
  "is_digit c \<longleftrightarrow> 48 \<le> c \<and> c \<le> 57"

definition ParseU64After :: "bytes \<Rightarrow> bytes \<Rightarrow> u64 option" where
  "ParseU64After line label =
     (case find_at line label 0 of
        None \<Rightarrow> None
      | Some at \<Rightarrow> ParseU64 (takeWhile is_digit (drop (at + length label) line)))"

record FileMetaData =
  fm_file_id :: u64
  fm_level :: int
  fm_smallest_key :: bytes
  fm_largest_key :: bytes
  fm_file_size :: u64

definition ParseLegacyFileLine :: "bytes \<Rightarrow> int \<Rightarrow> FileMetaData option" where
  "ParseLegacyFileLine line level =
     (case find_at line (bytes_of ''file: '') 0 of
        None \<Rightarrow> None
      | Some file_at \<Rightarrow>
          let digits = takeWhile is_digit (drop (file_at + 6) line); i = file_at + 6 + length digits
          in case ParseU64 digits of
               None \<Rightarrow> None
             | Some file_id \<Rightarrow>
                 (case find_at line (bytes_of ''['') i of
                    None \<Rightarrow> None
                  | Some open_at \<Rightarrow>
                      (case find_at line (bytes_of '','') open_at of
                         None \<Rightarrow> None
                       | Some comma \<Rightarrow>
                           (case find_at line (bytes_of '']'') comma of
                              None \<Rightarrow> None
                            | Some close_at \<Rightarrow>
                                let smallest = substr line (open_at + 1) (comma - open_at - 1);
                                    large_begin = (if comma + 1 < length line \<and> line ! (comma + 1) = 32
                                                   then comma + 2 else comma + 1);
                                    largest = substr line large_begin (close_at - large_begin)
                                in case ParseU64After line (bytes_of ''size: '') of
                                     None \<Rightarrow> None
                                   | Some sz \<Rightarrow> Some \<lparr>fm_file_id = file_id, fm_level = level, fm_smallest_key = smallest,
                                                     fm_largest_key = largest, fm_file_size = sz\<rparr>))))"

text \<open>\<open>std::getline\<close> in a loop: no token follows a final delimiter.\<close>

function SplitString :: "bytes \<Rightarrow> byte \<Rightarrow> bytes list" where
  "SplitString s delim =
     (if s = [] then []
      else takeWhile (\<lambda>c. c \<noteq> delim) s # SplitString (tl (dropWhile (\<lambda>c. c \<noteq> delim) s)) delim)"
  by pat_completeness auto
termination
proof (relation "measure (\<lambda>(s, delim). length s)", goal_cases)
  case (2 s delim)
  then have "length (tl (dropWhile (\<lambda>c. c \<noteq> delim) s)) < length s"
    using length_dropWhile_le [of "\<lambda>c. c \<noteq> delim" s] by (cases s) (auto simp: le_imp_less_Suc)
  then show ?case by simp
qed simp

declare SplitString.simps [simp del]

subsection \<open>State and edits\<close>

record Manifest =
  mf_format_version :: u32
  mf_last_seq :: u64
  mf_flushed_seq :: u64
  mf_next_file_id :: u64
  mf_files :: "FileMetaData list list"
  mf_pending_adds :: "FileMetaData list list"
  mf_pending_removals :: "(int \<times> u64) list"
  mf_appended_records :: nat
  mf_replayed_records :: nat

definition no_files :: "FileMetaData list list" where
  "no_files = replicate kNumLevels []"

definition Manifest_new :: Manifest where
  "Manifest_new = \<lparr>mf_format_version = 2, mf_last_seq = 0, mf_flushed_seq = 0, mf_next_file_id = 1,
     mf_files = no_files, mf_pending_adds = no_files, mf_pending_removals = [],
     mf_appended_records = 0, mf_replayed_records = 0\<rparr>"

definition push_file :: "nat \<Rightarrow> FileMetaData \<Rightarrow> FileMetaData list list \<Rightarrow> FileMetaData list list" where
  "push_file level meta fss = fss[level := fss ! level @ [meta]]"

definition erase_file :: "nat \<Rightarrow> u64 \<Rightarrow> FileMetaData list list \<Rightarrow> FileMetaData list list" where
  "erase_file level file_id fss = fss[level := filter (\<lambda>m. fm_file_id m \<noteq> file_id) (fss ! level)]"

definition Manifest_RecordAdd :: "Manifest \<Rightarrow> int \<Rightarrow> u64 \<Rightarrow> bytes \<Rightarrow> bytes \<Rightarrow> u64 \<Rightarrow> Manifest" where
  "Manifest_RecordAdd m level file_id smallest largest file_size =
     m\<lparr>mf_pending_adds := push_file (nat level)
         \<lparr>fm_file_id = file_id, fm_level = level, fm_smallest_key = smallest, fm_largest_key = largest,
          fm_file_size = file_size\<rparr> (mf_pending_adds m)\<rparr>"

definition Manifest_RecordRemove :: "Manifest \<Rightarrow> int \<Rightarrow> u64 \<Rightarrow> Manifest" where
  "Manifest_RecordRemove m level file_id =
     m\<lparr>mf_pending_removals := mf_pending_removals m @ [(level, file_id)]\<rparr>"

definition Manifest_AddFile :: "Manifest \<Rightarrow> int \<Rightarrow> u64 \<Rightarrow> bytes \<Rightarrow> bytes \<Rightarrow> u64 \<Rightarrow> Manifest" where
  "Manifest_AddFile m level file_id smallest largest file_size =
     (if level < 0 \<or> int kNumLevels \<le> level then m
      else let meta = \<lparr>fm_file_id = file_id, fm_level = level, fm_smallest_key = smallest,
                       fm_largest_key = largest, fm_file_size = file_size\<rparr>;
               m = m\<lparr>mf_files := push_file (nat level) meta (mf_files m)\<rparr>
           in Manifest_RecordAdd m level file_id smallest largest file_size)"

definition Manifest_RemoveFile :: "Manifest \<Rightarrow> int \<Rightarrow> u64 \<Rightarrow> Manifest" where
  "Manifest_RemoveFile m level file_id =
     (if level < 0 \<or> int kNumLevels \<le> level then m
      else let m = m\<lparr>mf_files := erase_file (nat level) file_id (mf_files m)\<rparr>
           in Manifest_RecordRemove m level file_id)"

definition Manifest_RemoveFileDirect :: "Manifest \<Rightarrow> int \<Rightarrow> u64 \<Rightarrow> Manifest" where
  "Manifest_RemoveFileDirect m level file_id =
     (if level < 0 \<or> int kNumLevels \<le> level then m
      else m\<lparr>mf_files := erase_file (nat level) file_id (mf_files m)\<rparr>)"

definition Manifest_DropStagedRecords :: "Manifest \<Rightarrow> Manifest" where
  "Manifest_DropStagedRecords m =
     m\<lparr>mf_pending_adds := no_files, mf_pending_removals := [], mf_appended_records := 0\<rparr>"

definition kMinAppendRecords :: nat where "kMinAppendRecords = 64"
definition kAppendRecordsPerFile :: nat where "kAppendRecordsPerFile = 4"
definition kMaxAppendRecords :: nat where "kMaxAppendRecords = 2 ^ 20"

definition Manifest_LiveFileCount :: "Manifest \<Rightarrow> nat" where
  "Manifest_LiveFileCount m = sum_list (map length (mf_files m))"

definition Manifest_FoldThreshold :: "Manifest \<Rightarrow> nat" where
  "Manifest_FoldThreshold m =
     (let scaled = Manifest_LiveFileCount m div kAppendRecordsPerFile;
          threshold = (if kMinAppendRecords < scaled then scaled else kMinAppendRecords)
      in if kMaxAppendRecords < threshold then kMaxAppendRecords else threshold)"

subsection \<open>Writing\<close>

definition kAppendMagic :: bytes where "kAppendMagic = bytes_of ''LMV1''"
definition kTagAdd :: byte where "kTagAdd = 1"
definition kTagDel :: byte where "kTagDel = 2"
definition kTagSeq :: byte where "kTagSeq = 3"
definition kTagSnapshot :: byte where "kTagSnapshot = 4"

definition Put32 :: "u32 \<Rightarrow> bytes" where "Put32 v = le_bytes 4 v"
definition Put64 :: "u64 \<Rightarrow> bytes" where "Put64 v = le_bytes 8 v"
definition PutBytes :: "bytes \<Rightarrow> bytes" where "PutBytes s = Put32 (word_of_nat (length s)) @ s"

definition put_counters :: "Manifest \<Rightarrow> bytes" where
  "put_counters m = Put64 (mf_last_seq m) @ Put64 (mf_flushed_seq m) @ Put64 (mf_next_file_id m)"

definition put_removal :: "int \<times> u64 \<Rightarrow> bytes" where
  "put_removal = (\<lambda>(level, file_id). [kTagDel] @ Put32 (word_of_int level) @ Put64 file_id)"

definition put_meta :: "FileMetaData \<Rightarrow> bytes" where
  "put_meta f = Put64 (fm_file_id f) @ Put64 (fm_file_size f) @ PutBytes (fm_smallest_key f)
     @ PutBytes (fm_largest_key f)"

definition append_frame :: "Manifest \<Rightarrow> bytes" where
  "append_frame m =
     [kTagSeq] @ put_counters m @ concat (map put_removal (mf_pending_removals m))
     @ concat (map (\<lambda>level. concat (map (\<lambda>f. [kTagAdd] @ Put32 (word_of_nat level) @ put_meta f)
                                       (mf_pending_adds m ! level))) [0..<kNumLevels])"

definition put_level :: "nat \<Rightarrow> FileMetaData list \<Rightarrow> bytes" where
  "put_level level fs =
     (if fs = [] then []
      else Put32 (word_of_nat level) @ Put32 (word_of_nat (length fs)) @ concat (map put_meta fs))"

definition snapshot_content :: "Manifest \<Rightarrow> bytes" where
  "snapshot_content m =
     kAppendMagic @ [kTagSnapshot] @ put_counters m
     @ concat (map (\<lambda>level. put_level level (mf_files m ! level)) [0..<kNumLevels])
     @ Put32 0 @ Put32 0"

text \<open>The write of the file \<open>CURRENT\<close>, which nothing reads back, is left out of the files.\<close>

definition Manifest_WriteToFile :: "Env \<Rightarrow> fs \<Rightarrow> Manifest \<Rightarrow> string \<Rightarrow> Status \<times> Manifest \<times> fs" where
  "Manifest_WriteToFile env fs m dir =
     (let manifest_path = dir @ ''/MANIFEST''; tmp_path = dir @ ''/MANIFEST.tmp'';
          content = snapshot_content m
      in if \<not> env_open env tmp_path then (Status_IOError ''cannot create MANIFEST.tmp'', m, fs)
         else let (written, tmp) = write_all env tmp_path [] content 0
              in if \<not> written then (Status_IOError ''failed to write MANIFEST'', m, fs(tmp_path := None))
                 else if \<not> env_rename env tmp_path manifest_path
                 then (Status_IOError (''failed to rename MANIFEST ('' @ to_string (env_errno env) @ '' ''
                         @ env_strerror env (env_errno env) @ '')''), m, fs(tmp_path := None))
                 else (Status_OK, Manifest_DropStagedRecords m, fs(tmp_path := None, manifest_path \<mapsto> tmp)))"

definition Manifest_AppendChanges :: "Env \<Rightarrow> fs \<Rightarrow> Manifest \<Rightarrow> string \<Rightarrow> Status \<times> Manifest \<times> fs" where
  "Manifest_AppendChanges env fs m dir =
     (let manifest_path = dir @ ''/MANIFEST''
      in if Manifest_FoldThreshold m \<le> mf_appended_records m then Manifest_WriteToFile env fs m dir
         else if \<not> env_open env manifest_path then (Status_IOError ''cannot open MANIFEST for append'', m, fs)
         else let old = (case fs manifest_path of None \<Rightarrow> [] | Some f \<Rightarrow> f);
                  n = env_pwrite env manifest_path (length old) 4
              in if old = [] \<and> n \<noteq> 4
                 then (Status_IOError ''failed to append to MANIFEST'', m,
                       fs(manifest_path \<mapsto> old @ take (nat n) kAppendMagic))
                 else let old = (if old = [] then kAppendMagic else old);
                          (written, f) = write_all env manifest_path old (append_frame m) 0
                      in if \<not> written
                         then (Status_IOError ''failed to append to MANIFEST'', m, fs(manifest_path \<mapsto> f))
                         else (Status_OK, m\<lparr>mf_pending_adds := no_files, mf_pending_removals := [],
                                            mf_appended_records := mf_appended_records m + 1\<rparr>,
                               fs(manifest_path \<mapsto> f)))"

subsection \<open>Reading\<close>

text \<open>The bounds-checked cursor \<open>Reader\<close>: a value and the new position, \<open>None\<close> for false.\<close>

definition Reader_Read8 :: "bytes \<Rightarrow> nat \<Rightarrow> (byte \<times> nat) option" where
  "Reader_Read8 p pos = (if length p - pos < 1 then None else Some (p ! pos, pos + 1))"

definition Reader_Read32 :: "bytes \<Rightarrow> nat \<Rightarrow> (u32 \<times> nat) option" where
  "Reader_Read32 p pos = (if length p - pos < 4 then None else Some (le_val (take 4 (drop pos p)), pos + 4))"

definition Reader_Read64 :: "bytes \<Rightarrow> nat \<Rightarrow> (u64 \<times> nat) option" where
  "Reader_Read64 p pos = (if length p - pos < 8 then None else Some (le_val (take 8 (drop pos p)), pos + 8))"

definition Reader_ReadBytes :: "bytes \<Rightarrow> nat \<Rightarrow> (bytes \<times> nat) option" where
  "Reader_ReadBytes p pos =
     (case Reader_Read32 p pos of
        None \<Rightarrow> None
      | Some (len, pos) \<Rightarrow>
          if length p - pos < unat len then None else Some (take (unat len) (drop pos p), pos + unat len))"

text \<open>\<open>!r.Read64(&last_seq) || !r.Read64(&flushed_seq) || !r.Read64(&next_file_id)\<close>: the fields
  read before the end of the log keep their new values.\<close>

definition read_counters :: "bytes \<Rightarrow> nat \<Rightarrow> Manifest \<Rightarrow> Manifest \<times> nat option" where
  "read_counters log pos m =
     (case Reader_Read64 log pos of
        None \<Rightarrow> (m, None)
      | Some (v, pos) \<Rightarrow>
          let m = m\<lparr>mf_last_seq := v\<rparr>
          in case Reader_Read64 log pos of
               None \<Rightarrow> (m, None)
             | Some (v, pos) \<Rightarrow>
                 (let m = m\<lparr>mf_flushed_seq := v\<rparr>
                  in case Reader_Read64 log pos of
                       None \<Rightarrow> (m, None)
                     | Some (v, pos) \<Rightarrow> (m\<lparr>mf_next_file_id := v\<rparr>, Some pos)))"

definition read_meta :: "bytes \<Rightarrow> nat \<Rightarrow> u32 \<Rightarrow> (FileMetaData \<times> nat) option" where
  "read_meta log pos level = do {
     (file_id, pos) \<leftarrow> Reader_Read64 log pos;
     (file_size, pos) \<leftarrow> Reader_Read64 log pos;
     (smallest_key, pos) \<leftarrow> Reader_ReadBytes log pos;
     (largest_key, pos) \<leftarrow> Reader_ReadBytes log pos;
     Some (\<lparr>fm_file_id = file_id, fm_level = int (unat level), fm_smallest_key = smallest_key,
            fm_largest_key = largest_key, fm_file_size = file_size\<rparr>, pos)
   }"

fun read_level_files :: "nat \<Rightarrow> bytes \<Rightarrow> nat \<Rightarrow> u32 \<Rightarrow> Manifest \<Rightarrow> Manifest \<times> nat option" where
  "read_level_files 0 log pos level m = (m, Some pos)"
| "read_level_files (Suc k) log pos level m =
     (case read_meta log pos level of
        None \<Rightarrow> (m, None)
      | Some (meta, pos) \<Rightarrow>
          read_level_files k log pos level (m\<lparr>mf_files := push_file (unat level) meta (mf_files m)\<rparr>))"

lemma Reader_advances:
  "Reader_Read8 p pos = Some (v8, q) \<Longrightarrow> pos < q \<and> q \<le> length p"
  "Reader_Read32 p pos = Some (v32, q) \<Longrightarrow> pos < q \<and> q \<le> length p"
  "Reader_Read64 p pos = Some (v64, q) \<Longrightarrow> pos < q \<and> q \<le> length p"
  "Reader_ReadBytes p pos = Some (s, q) \<Longrightarrow> pos < q \<and> q \<le> length p"
  by (auto simp: Reader_Read8_def Reader_Read32_def Reader_Read64_def Reader_ReadBytes_def
      split: if_splits option.splits)

lemma read_counters_advances: "read_counters log pos m = (m', Some q) \<Longrightarrow> pos < q \<and> q \<le> length log"
  by (fastforce simp: read_counters_def Let_def dest: Reader_advances split: option.splits prod.splits)

lemma read_meta_advances: "read_meta log pos level = Some (meta, q) \<Longrightarrow> pos < q \<and> q \<le> length log"
  by (fastforce simp: read_meta_def Let_def dest: Reader_advances split: Option.bind_splits prod.splits)

lemma read_level_files_advances:
  "read_level_files k log pos level m = (m', Some q) \<Longrightarrow> pos \<le> q"
  by (induction k log pos level m rule: read_level_files.induct)
    (fastforce dest: read_meta_advances split: option.splits)+

text \<open>The loop over the levels of a snapshot ends at a count of 0. Every iteration reads at least
  eight bytes.\<close>

function read_levels :: "bytes \<Rightarrow> nat \<Rightarrow> Manifest \<Rightarrow> Manifest \<times> nat option" where
  "read_levels log pos m =
     (case Reader_Read32 log pos of
        None \<Rightarrow> (m, None)
      | Some (level, pos1) \<Rightarrow>
          (case Reader_Read32 log pos1 of
             None \<Rightarrow> (m, None)
           | Some (count, pos2) \<Rightarrow>
               if count = 0 then (m, Some pos2)
               else if word_of_nat kNumLevels \<le> level then (m, None)
               else (case read_level_files (unat count) log pos2 level m of
                       (m, None) \<Rightarrow> (m, None)
                     | (m, Some pos3) \<Rightarrow> read_levels log pos3 m)))"
  by pat_completeness auto
termination
proof (relation "measure (\<lambda>(log, pos, m). length log - pos)", goal_cases)
  case (2 log pos m x2 level pos1 x2a count pos2 m' q pos3)
  then have "pos < pos1" "pos1 < pos2" "pos2 \<le> length log" "pos2 \<le> pos3"
    using Reader_advances(2) [of log pos level pos1] Reader_advances(2) [of log pos1 count pos2]
      read_level_files_advances [of "unat count" log pos2 level m m' pos3] by auto
  then show ?case by simp
qed simp

declare read_levels.simps [simp del]

lemma read_levels_advances: "read_levels log pos m = (m', Some q) \<Longrightarrow> pos < q"
proof (induction log pos m rule: read_levels.induct)
  case (1 log pos m)
  obtain level pos1 count pos2 where r: "Reader_Read32 log pos = Some (level, pos1)"
      "Reader_Read32 log pos1 = Some (count, pos2)"
    using "1.prems" by (subst (asm) read_levels.simps) (auto split: option.splits prod.splits)
  then have lt: "pos < pos1" "pos1 < pos2" by (auto dest: Reader_advances)
  show ?case
  proof (cases "count = 0")
    case True
    then show ?thesis using "1.prems" r lt by (simp add: read_levels.simps [of log pos])
  next
    case False
    then obtain m1 pos3 where f: "\<not> word_of_nat kNumLevels \<le> level"
        "read_level_files (unat count) log pos2 level m = (m1, Some pos3)" "read_levels log pos3 m1 = (m', Some q)"
      using "1.prems" r by (subst (asm) read_levels.simps) (auto split: option.splits prod.splits if_splits)
    have "pos3 < q" using "1.IH" [OF r(1) refl r(2) refl False f(1) f(2) [symmetric] refl] f(3) by blast
    then show ?thesis using lt read_level_files_advances [OF f(2)] by simp
  qed
qed

function Manifest_ReplayLog_loop :: "bytes \<Rightarrow> nat \<Rightarrow> Manifest \<Rightarrow> bool \<times> Manifest" where
  "Manifest_ReplayLog_loop log pos m =
     (case Reader_Read8 log pos of
        None \<Rightarrow> (True, m)
      | Some (tag, pos) \<Rightarrow>
          if tag = kTagSnapshot
          then (case read_counters log pos (m\<lparr>mf_files := no_files\<rparr>) of
                  (m, None) \<Rightarrow> (False, m)
                | (m, Some pos) \<Rightarrow>
                    (case read_levels log pos m of
                       (m, None) \<Rightarrow> (False, m)
                     | (m, Some pos) \<Rightarrow> Manifest_ReplayLog_loop log pos m))
          else let m = m\<lparr>mf_replayed_records := mf_replayed_records m + 1\<rparr>
               in if tag = kTagDel
                  then (case Reader_Read32 log pos of
                          None \<Rightarrow> (False, m)
                        | Some (level, pos) \<Rightarrow>
                            (case Reader_Read64 log pos of
                               None \<Rightarrow> (False, m)
                             | Some (file_id, pos) \<Rightarrow>
                                 Manifest_ReplayLog_loop log pos
                                   (if level < word_of_nat kNumLevels
                                    then Manifest_RemoveFileDirect m (int (unat level)) file_id else m)))
                  else if tag = kTagAdd
                  then (case Reader_Read32 log pos of
                          None \<Rightarrow> (False, m)
                        | Some (level, pos) \<Rightarrow>
                            (case read_meta log pos level of
                               None \<Rightarrow> (False, m)
                             | Some (meta, pos) \<Rightarrow>
                                 Manifest_ReplayLog_loop log pos
                                   (if level < word_of_nat kNumLevels
                                    then m\<lparr>mf_files := push_file (unat level) meta (mf_files m)\<rparr> else m)))
                  else if tag = kTagSeq
                  then (case read_counters log pos m of
                          (m, None) \<Rightarrow> (False, m)
                        | (m, Some pos) \<Rightarrow> Manifest_ReplayLog_loop log pos m)
                  else (False, m))"
  by pat_completeness auto
termination
  by (relation "measure (\<lambda>(log, pos, m). length log - pos)")
    (auto dest!: Reader_advances read_counters_advances [OF sym] read_levels_advances [OF sym] read_meta_advances)

declare Manifest_ReplayLog_loop.simps [simp del]

definition Manifest_ReplayLog :: "Manifest \<Rightarrow> bytes \<Rightarrow> bool \<times> Manifest" where
  "Manifest_ReplayLog m log = Manifest_ReplayLog_loop log 0 (m\<lparr>mf_replayed_records := 0\<rparr>)"

definition has_prefix :: "string \<Rightarrow> bytes \<Rightarrow> bool" where
  "has_prefix s line \<longleftrightarrow> take (length s) line = bytes_of s"

text \<open>The text format, line by line.\<close>

fun ReadLegacy :: "bytes list \<Rightarrow> bool \<Rightarrow> int \<Rightarrow> Manifest \<Rightarrow> Status \<times> Manifest" where
  "ReadLegacy [] in_files current_level m = (Status_OK, m)"
| "ReadLegacy (line # lines) in_files current_level m =
     (if line = [] then ReadLegacy lines in_files current_level m
      else if line = bytes_of ''---'' then ReadLegacy lines True current_level m
      else if \<not> in_files
      then if has_prefix ''format_version: '' line
           then (case ParseU64 (drop 16 line) of
                   None \<Rightarrow> (Status_Corruption ''bad format_version in MANIFEST'', m)
                 | Some v \<Rightarrow> ReadLegacy lines in_files current_level (m\<lparr>mf_format_version := ucast v\<rparr>))
           else if has_prefix ''last_seq: '' line
           then (case ParseU64 (drop 10 line) of
                   None \<Rightarrow> (Status_Corruption ''bad last_seq in MANIFEST'', m)
                 | Some v \<Rightarrow> ReadLegacy lines in_files current_level (m\<lparr>mf_last_seq := v\<rparr>))
           else if has_prefix ''flushed_seq: '' line
           then (case ParseU64 (drop 13 line) of
                   None \<Rightarrow> (Status_Corruption ''bad flushed_seq in MANIFEST'', m)
                 | Some v \<Rightarrow> ReadLegacy lines in_files current_level (m\<lparr>mf_flushed_seq := v\<rparr>))
           else if has_prefix ''next_file_id: '' line
           then (case ParseU64 (drop 14 line) of
                   None \<Rightarrow> (Status_Corruption ''bad next_file_id in MANIFEST'', m)
                 | Some v \<Rightarrow> ReadLegacy lines in_files current_level (m\<lparr>mf_next_file_id := v\<rparr>))
           else ReadLegacy lines in_files current_level m
      else if has_prefix ''Level '' line \<and> last line = 58
      then (case ParseI32 (substr line 6 (length line - 7)) of
              None \<Rightarrow> (Status_Corruption ''bad level header in MANIFEST'', m)
            | Some lvl \<Rightarrow>
                if lvl < 0 \<or> int kNumLevels \<le> lvl then (Status_Corruption ''level out of range'', m)
                else ReadLegacy lines in_files lvl m)
      else if \<not> has_prefix ''  file: '' line \<or> current_level < 0
      then ReadLegacy lines in_files current_level m
      else (case ParseLegacyFileLine line current_level of
              None \<Rightarrow> (Status_Corruption ''bad file entry in MANIFEST'', m)
            | Some meta \<Rightarrow>
                ReadLegacy lines in_files current_level
                  (m\<lparr>mf_files := push_file (nat current_level) meta (mf_files m)\<rparr>)))"

definition Manifest_ReadFromFile :: "Env \<Rightarrow> fs \<Rightarrow> Manifest \<Rightarrow> string \<Rightarrow> Status \<times> Manifest" where
  "Manifest_ReadFromFile env fs m dir =
     (case fs (dir @ ''/MANIFEST'') of
        None \<Rightarrow> (Status_IOError ''cannot open MANIFEST'', m)
      | Some data \<Rightarrow>
          let rd = (if 0 < length data then env_read env (dir @ ''/MANIFEST'') (length data) else 0)
          in if rd < 0 then (Status_IOError ''failed to read MANIFEST'', m)
             else let content = take (nat rd) data; m = m\<lparr>mf_files := no_files\<rparr>
                  in if 4 \<le> length content \<and> take 4 content = kAppendMagic
                     then let (replayed, m) = Manifest_ReplayLog m (drop 4 content)
                          in if \<not> replayed then (Status_Corruption ''truncated MANIFEST'', m)
                             else (Status_OK, m\<lparr>mf_appended_records := mf_replayed_records m\<rparr>)
                     else ReadLegacy (SplitString content 10) False (- 1) m)"

subsection \<open>The updates of the engine (DBImpl::UpdateManifest)\<close>

text \<open>The manifest with the two flags the engine keeps beside it, and the files on disk.\<close>

record ManifestState =
  dm_manifest :: Manifest
  dm_written :: bool
  dm_dirty :: bool
  dm_fs :: fs

definition DBImpl_WriteManifestSnapshotLocked :: "Env \<Rightarrow> string \<Rightarrow> ManifestState \<Rightarrow> Status \<times> ManifestState" where
  "DBImpl_WriteManifestSnapshotLocked env dir d =
     (let (s, m, fs) = Manifest_WriteToFile env (dm_fs d) (dm_manifest d) dir;
          d = d\<lparr>dm_manifest := m, dm_fs := fs\<rparr>
      in if \<not> ok s then (s, d) else (Status_OK, d\<lparr>dm_written := True, dm_dirty := False\<rparr>))"

definition DBImpl_UpdateManifest :: "Env \<Rightarrow> string \<Rightarrow> u64 \<Rightarrow> u64 \<Rightarrow> ManifestState \<Rightarrow> Status \<times> ManifestState" where
  "DBImpl_UpdateManifest env dir last_seq next_file_id d =
     (let d = d\<lparr>dm_manifest := (dm_manifest d)\<lparr>mf_last_seq := last_seq, mf_next_file_id := next_file_id\<rparr>\<rparr>
      in if \<not> dm_written d \<or> dm_dirty d then DBImpl_WriteManifestSnapshotLocked env dir d
         else let (s, m, fs) = Manifest_AppendChanges env (dm_fs d) (dm_manifest d) dir;
                  d = d\<lparr>dm_manifest := m, dm_fs := fs\<rparr>
              in if \<not> ok s then DBImpl_WriteManifestSnapshotLocked env dir (d\<lparr>dm_dirty := True\<rparr>)
                 else (s, d))"

subsection \<open>Reading what was written\<close>

lemma length_Put [simp, length_simps]: "length (Put32 v) = 4" "length (Put64 w) = 8"
  by (simp_all add: Put32_def Put64_def)

lemma Put_not_Nil [simp]: "Put32 v \<noteq> []" "Put64 w \<noteq> []"
  by (metis length_Put list.size(3) zero_neq_numeral)+

lemma Reader_Read32_at: "holds_at p pos (Put32 v) \<Longrightarrow> Reader_Read32 p pos = Some (v, pos + 4)"
  using holds_at_length [of p pos "Put32 v"] holds_at_slice [of p pos "Put32 v"]
  by (simp add: Reader_Read32_def) (simp add: Put32_def)

lemma Reader_Read64_at: "holds_at p pos (Put64 v) \<Longrightarrow> Reader_Read64 p pos = Some (v, pos + 8)"
  using holds_at_length [of p pos "Put64 v"] holds_at_slice [of p pos "Put64 v"]
  by (simp add: Reader_Read64_def) (simp add: Put64_def)

lemma Reader_ReadBytes_at:
  assumes "holds_at p pos (PutBytes s)" and "length s < 2 ^ 32"
  shows "Reader_ReadBytes p pos = Some (s, pos + length (PutBytes s))"
proof -
  have h: "holds_at p pos (Put32 (word_of_nat (length s)))" "holds_at p (pos + 4) s"
    using assms(1) by (auto simp: PutBytes_def holds_at_append)
  have "\<not> length p - (pos + 4) < length s" using holds_at_length [OF h(2)] by (cases s) auto
  then show ?thesis
    using Reader_Read32_at [OF h(1)] holds_at_slice [OF h(2)] assms(2)
    by (simp add: Reader_ReadBytes_def PutBytes_def unat_length_u32)
qed

lemmas reader_at = Reader_Read32_at Reader_Read64_at Reader_ReadBytes_at

lemma length_put_counters [simp]: "length (put_counters m) = 24"
  by (simp add: put_counters_def)

lemma read_counters_at:
  assumes "holds_at log pos (put_counters m0)"
  shows "read_counters log pos m = (m\<lparr>mf_last_seq := mf_last_seq m0, mf_flushed_seq := mf_flushed_seq m0,
           mf_next_file_id := mf_next_file_id m0\<rparr>, Some (pos + 24))"
proof -
  have "holds_at log pos (Put64 (mf_last_seq m0))" "holds_at log (pos + 8) (Put64 (mf_flushed_seq m0))"
      "holds_at log (pos + 8 + 8) (Put64 (mf_next_file_id m0))"
    using assms unfolding put_counters_def holds_at_append by simp_all
  then show ?thesis by (simp add: Reader_Read64_at read_counters_def)
qed

definition meta_ok :: "nat \<Rightarrow> FileMetaData \<Rightarrow> bool" where
  "meta_ok level f \<longleftrightarrow> fm_level f = int level \<and> length (fm_smallest_key f) < 2 ^ 32 \<and> length (fm_largest_key f) < 2 ^ 32"

lemma kNumLevels_7: "kNumLevels = 7"
  by (simp add: kNumLevels_def)

lemma unat_level: "level < kNumLevels \<Longrightarrow> unat (word_of_nat level :: u32) = level"
  by (simp add: kNumLevels_7 unat_of_nat)

lemma read_meta_at:
  assumes "holds_at log pos (put_meta f)" and "meta_ok level f" and "level < kNumLevels"
  shows "read_meta log pos (word_of_nat level) = Some (f, pos + length (put_meta f))"
proof -
  let ?s = "PutBytes (fm_smallest_key f)"
  have "holds_at log pos (Put64 (fm_file_id f))" "holds_at log (pos + 8) (Put64 (fm_file_size f))"
      "holds_at log (pos + 8 + 8) ?s" "holds_at log (pos + 8 + 8 + length ?s) (PutBytes (fm_largest_key f))"
    using assms(1) unfolding put_meta_def holds_at_append by simp_all
  note h = Reader_Read64_at [OF this(1)] Reader_Read64_at [OF this(2)] Reader_ReadBytes_at [OF this(3)]
    Reader_ReadBytes_at [OF this(4)]
  show ?thesis
    using assms(2,3) h unfolding read_meta_def meta_ok_def
    by (simp add: unat_level put_meta_def add.assoc)
qed

definition append_files :: "nat \<Rightarrow> FileMetaData list \<Rightarrow> FileMetaData list list \<Rightarrow> FileMetaData list list" where
  "append_files level fs fss = fss[level := fss ! level @ fs]"

lemma push_file_eq: "push_file level f fss = append_files level [f] fss"
  by (simp add: push_file_def append_files_def)

lemma append_files_append:
  "append_files level gs (append_files level fs fss) = append_files level (fs @ gs) fss"
  by (cases "level < length fss") (simp_all add: append_files_def list_update_beyond linorder_not_less)

lemma length_append_files [simp]: "length (append_files level fs fss) = length fss"
  by (simp add: append_files_def)

lemma append_files_Nil [simp]: "append_files level [] fss = fss"
  by (simp add: append_files_def)

lemma read_level_files_at:
  assumes "holds_at log pos (concat (map put_meta fs))" and "list_all (meta_ok level) fs" and "level < kNumLevels"
  shows "read_level_files (length fs) log pos (word_of_nat level) m
    = (m\<lparr>mf_files := append_files level fs (mf_files m)\<rparr>, Some (pos + length (concat (map put_meta fs))))"
  using assms
proof (induction fs arbitrary: pos m)
  case (Cons f fs)
  have "read_meta log pos (word_of_nat level) = Some (f, pos + length (put_meta f))"
    using Cons.prems by (intro read_meta_at) (auto simp: holds_at_append)
  then show ?case using Cons
    by (simp add: holds_at_append unat_level push_file_eq append_files_append add.assoc)
qed simp

lemma word_level_less: "level < kNumLevels \<Longrightarrow> (word_of_nat level :: u32) < word_of_nat kNumLevels"
  by (simp add: word_less_nat_alt unat_of_nat kNumLevels_7)

lemma read_levels_at:
  assumes "holds_at log pos (concat (map (\<lambda>l. put_level l (F l)) ls) @ Put32 0 @ Put32 0)"
    and "\<And>l. l \<in> set ls \<Longrightarrow> l < kNumLevels \<and> list_all (meta_ok l) (F l) \<and> length (F l) < 2 ^ 32"
  shows "read_levels log pos m = (m\<lparr>mf_files := fold (\<lambda>l. append_files l (F l)) ls (mf_files m)\<rparr>,
           Some (pos + length (concat (map (\<lambda>l. put_level l (F l)) ls) @ Put32 0 @ Put32 0)))"
  using assms
proof (induction ls arbitrary: pos m)
  case Nil
  then have "holds_at log pos (Put32 0)" "holds_at log (pos + 4) (Put32 0)" by (simp_all add: holds_at_append)
  then show ?case by (subst read_levels.simps) (simp add: Reader_Read32_at)
next
  case (Cons l ls)
  show ?case
  proof (cases "F l = []")
    case True
    then show ?thesis using Cons by (simp add: put_level_def)
  next
    case False
    have l: "l < kNumLevels" "list_all (meta_ok l) (F l)" "length (F l) < 2 ^ 32" using Cons.prems(2) by auto
    let ?c = "concat (map put_meta (F l))" and ?n = "word_of_nat (length (F l)) :: u32"
    have h: "holds_at log pos (Put32 (word_of_nat l))" "holds_at log (pos + 4) (Put32 ?n)" "holds_at log (pos + 8) ?c"
        "holds_at log (pos + 8 + length ?c) (concat (map (\<lambda>l. put_level l (F l)) ls) @ Put32 0 @ Put32 0)"
      using Cons.prems(1) False by (simp_all add: put_level_def holds_at_append add.assoc)
    have n: "unat ?n = length (F l)" using l(3) by (simp add: unat_length_u32)
    then have "?n \<noteq> 0" using False by (metis length_0_conv unat_0)
    moreover have "\<not> word_of_nat kNumLevels \<le> (word_of_nat l :: u32)" using word_level_less [OF l(1)] by simp
    ultimately have "read_levels log pos m
        = read_levels log (pos + 8 + length ?c) (m\<lparr>mf_files := append_files l (F l) (mf_files m)\<rparr>)"
      using read_level_files_at [OF h(3) l(2,1)] Reader_Read32_at [OF h(1)] Reader_Read32_at [OF h(2)] n
      by (subst read_levels.simps) (simp del: of_nat_numeral add: add.assoc)
    also have "\<dots> = (m\<lparr>mf_files := fold (\<lambda>l. append_files l (F l)) ls (append_files l (F l) (mf_files m))\<rparr>,
        Some (pos + 8 + length ?c + length (concat (map (\<lambda>l. put_level l (F l)) ls) @ Put32 0 @ Put32 0)))"
      using Cons.IH [OF h(4)] Cons.prems(2) by simp
    finally show ?thesis using False by (simp add: put_level_def)
  qed
qed

text \<open>What a manifest describes: the counters and the files of each level.\<close>

definition manifest_view :: "Manifest \<Rightarrow> u64 \<times> u64 \<times> u64 \<times> FileMetaData list list" where
  "manifest_view m = (mf_last_seq m, mf_flushed_seq m, mf_next_file_id m, mf_files m)"

definition levels_ok :: "FileMetaData list list \<Rightarrow> bool" where
  "levels_ok fss \<longleftrightarrow> length fss = kNumLevels \<and> (\<forall>l < kNumLevels. list_all (meta_ok l) (fss ! l))"

definition small_levels :: "FileMetaData list list \<Rightarrow> bool" where
  "small_levels fss \<longleftrightarrow> list_all (\<lambda>fs. length fs < 2 ^ 32) fss"

text \<open>The bytes \<open>log\<close>, at the start of any log, replay to the description.\<close>

definition replays :: "bytes \<Rightarrow> u64 \<times> u64 \<times> u64 \<times> FileMetaData list list \<Rightarrow> bool" where
  "replays log v \<longleftrightarrow> (\<forall>rest.
     \<exists>m'. Manifest_ReplayLog_loop (log @ rest) 0 Manifest_new = Manifest_ReplayLog_loop (log @ rest) (length log) m'
        \<and> manifest_view m' = v)"

lemma Manifest_ReplayLog_end: "Manifest_ReplayLog_loop log (length log) m = (True, m)"
  by (subst Manifest_ReplayLog_loop.simps) (simp add: Reader_Read8_def)

lemma replays_ReadFromFile:
  assumes "replays log v" and "fs (dir @ ''/MANIFEST'') = Some (kAppendMagic @ log)"
    and "env_read env (dir @ ''/MANIFEST'') (length (kAppendMagic @ log)) = int (length (kAppendMagic @ log))"
  shows "\<exists>m. Manifest_ReadFromFile env fs Manifest_new dir = (Status_OK, m) \<and> manifest_view m = v"
proof -
  have l: "length kAppendMagic = 4" by (simp add: kAppendMagic_def bytes_of_def)
  have n: "Manifest_new\<lparr>mf_files := no_files, mf_replayed_records := 0\<rparr> = Manifest_new" by (simp add: Manifest_new_def)
  obtain m' where "Manifest_ReplayLog_loop log 0 Manifest_new = (True, m')" "manifest_view m' = v"
    using assms(1) [unfolded replays_def, rule_format, of "[]"] Manifest_ReplayLog_end by auto
  then show ?thesis using assms(2,3) l n
    by (simp add: Manifest_ReadFromFile_def Manifest_ReplayLog_def manifest_view_def)
qed

lemma fold_levels: "length fss = kNumLevels \<Longrightarrow> fold (\<lambda>l. append_files l (fss ! l)) [0..<kNumLevels] no_files = fss"
  by (cases fss rule: list.exhaust, simp)
    (auto simp: kNumLevels_7 no_files_def append_files_def upt_rec length_Suc_conv numeral_eq_Suc)

lemma snapshot_replays:
  assumes "levels_ok (mf_files m0)" and "small_levels (mf_files m0)"
  shows "\<exists>log. snapshot_content m0 = kAppendMagic @ log \<and> replays log (manifest_view m0)"
proof (intro exI conjI)
  let ?F = "\<lambda>l. mf_files m0 ! l"
  let ?lv = "concat (map (\<lambda>l. put_level l (?F l)) [0..<kNumLevels]) @ Put32 0 @ Put32 0"
  let ?log = "[kTagSnapshot] @ put_counters m0 @ ?lv"
  show "snapshot_content m0 = kAppendMagic @ ?log" by (simp add: snapshot_content_def)
  show "replays ?log (manifest_view m0)"
    unfolding replays_def
  proof (intro allI)
    fix rest
    let ?m = Manifest_new
    let ?l = "?log @ rest"
    let ?m1 = "?m\<lparr>mf_files := no_files, mf_last_seq := mf_last_seq m0, mf_flushed_seq := mf_flushed_seq m0,
           mf_next_file_id := mf_next_file_id m0\<rparr>"
    have "holds_at ?l 0 ?log" by (rule holds_at_prefix)
    then have h: "holds_at ?l 1 (put_counters m0)" "holds_at ?l 25 ?lv"
      unfolding holds_at_append by simp_all
    have "Reader_Read8 ?l 0 = Some (kTagSnapshot, 1)" by (simp add: Reader_Read8_def)
    moreover have "read_counters ?l 1 (?m\<lparr>mf_files := no_files\<rparr>) = (?m1, Some 25)"
      using read_counters_at [OF h(1)] by simp
    moreover have "read_levels ?l 25 ?m1 = (?m1\<lparr>mf_files := mf_files m0\<rparr>, Some (25 + length ?lv))"
      using assms by (subst read_levels_at [OF h(2)])
        (auto simp: levels_ok_def small_levels_def list_all_length fold_levels simp del: append.simps)
    ultimately have "Manifest_ReplayLog_loop ?l 0 ?m
        = Manifest_ReplayLog_loop ?l (25 + length ?lv) (?m1\<lparr>mf_files := mf_files m0\<rparr>)"
      by (subst Manifest_ReplayLog_loop.simps) simp
    moreover have "length ?log = 25 + length ?lv" by simp
    ultimately show "\<exists>m'. Manifest_ReplayLog_loop ?l 0 ?m = Manifest_ReplayLog_loop ?l (length ?log) m'
        \<and> manifest_view m' = manifest_view m0"
      by (intro exI [of _ "?m1\<lparr>mf_files := mf_files m0\<rparr>"]) (simp add: manifest_view_def)
  qed
qed

subsection \<open>Replaying an appended frame\<close>

lemma Reader_Read8_at: "holds_at p pos (b # bs) \<Longrightarrow> Reader_Read8 p pos = Some (b, pos + 1)"
  by (simp add: Reader_Read8_def holds_at_Cons)

lemma tags [simp]:
  "kTagDel \<noteq> kTagSnapshot" "kTagAdd \<noteq> kTagSnapshot" "kTagSeq \<noteq> kTagSnapshot" "kTagAdd \<noteq> kTagDel"
  "kTagSeq \<noteq> kTagDel" "kTagSeq \<noteq> kTagAdd"
  by (simp_all add: kTagAdd_def kTagDel_def kTagSeq_def kTagSnapshot_def)

lemma replay_seq:
  assumes "holds_at log pos ([kTagSeq] @ put_counters m0)"
  shows "\<exists>m'. Manifest_ReplayLog_loop log pos m = Manifest_ReplayLog_loop log (pos + 25) m'
     \<and> manifest_view m' = (mf_last_seq m0, mf_flushed_seq m0, mf_next_file_id m0, mf_files m)"
proof -
  have h: "holds_at log pos (kTagSeq # [])" "holds_at log (pos + 1) (put_counters m0)"
    using assms unfolding holds_at_append by simp_all
  let ?m = "m\<lparr>mf_replayed_records := mf_replayed_records m + 1, mf_last_seq := mf_last_seq m0,
      mf_flushed_seq := mf_flushed_seq m0, mf_next_file_id := mf_next_file_id m0\<rparr>"
  have "Manifest_ReplayLog_loop log pos m = Manifest_ReplayLog_loop log (pos + 25) ?m"
    using Reader_Read8_at [OF h(1)] read_counters_at [OF h(2)]
    by (subst Manifest_ReplayLog_loop.simps) (simp add: ac_simps)
  then show ?thesis by (intro exI [of _ ?m]) (simp add: manifest_view_def ac_simps)
qed

lemma replay_del:
  assumes "holds_at log pos (put_removal (level, file_id))" and "0 \<le> level" "level < int kNumLevels"
  shows "\<exists>m'. Manifest_ReplayLog_loop log pos m = Manifest_ReplayLog_loop log (pos + length (put_removal (level, file_id))) m'
     \<and> manifest_view m' = (mf_last_seq m, mf_flushed_seq m, mf_next_file_id m, erase_file (nat level) file_id (mf_files m))"
proof -
  have w: "word_of_int level = (word_of_nat (nat level) :: u32)" using assms(2) by simp
  have l: "nat level < kNumLevels" using assms(2,3) by simp
  have h: "holds_at log pos (kTagDel # [])" "holds_at log (pos + 1) (Put32 (word_of_nat (nat level)))"
      "holds_at log (pos + 1 + 4) (Put64 file_id)"
    using assms(1) unfolding put_removal_def prod.case holds_at_append w by simp_all
  let ?m = "m\<lparr>mf_replayed_records := mf_replayed_records m + 1, mf_files := erase_file (nat level) file_id (mf_files m)\<rparr>"
  have "Manifest_RemoveFileDirect (m\<lparr>mf_replayed_records := mf_replayed_records m + 1\<rparr>) (int (nat level)) file_id = ?m"
    using assms(2,3) by (simp add: Manifest_RemoveFileDirect_def)
  then have "Manifest_ReplayLog_loop log pos m = Manifest_ReplayLog_loop log (pos + 1 + 4 + 8) ?m"
    using Reader_Read8_at [OF h(1)] Reader_Read32_at [OF h(2)] Reader_Read64_at [OF h(3)] word_level_less [OF l] unat_level [OF l]
    by (subst Manifest_ReplayLog_loop.simps) (simp add: ac_simps del: of_nat_numeral int_nat_eq of_nat_nat)
  then show ?thesis by (intro exI [of _ ?m]) (simp add: manifest_view_def put_removal_def ac_simps)
qed

lemma replay_add:
  assumes "holds_at log pos ([kTagAdd] @ Put32 (word_of_nat level) @ put_meta f)" and "meta_ok level f" and "level < kNumLevels"
  shows "\<exists>m'. Manifest_ReplayLog_loop log pos m
       = Manifest_ReplayLog_loop log (pos + length ([kTagAdd] @ Put32 (word_of_nat level) @ put_meta f)) m'
     \<and> manifest_view m' = (mf_last_seq m, mf_flushed_seq m, mf_next_file_id m, append_files level [f] (mf_files m))"
proof -
  have h: "holds_at log pos (kTagAdd # [])" "holds_at log (pos + 1) (Put32 (word_of_nat level))"
      "holds_at log (pos + 1 + 4) (put_meta f)"
    using assms(1) unfolding holds_at_append by simp_all
  let ?m = "m\<lparr>mf_replayed_records := mf_replayed_records m + 1, mf_files := append_files level [f] (mf_files m)\<rparr>"
  have "Manifest_ReplayLog_loop log pos m = Manifest_ReplayLog_loop log (pos + 1 + 4 + length (put_meta f)) ?m"
    using Reader_Read8_at [OF h(1)] Reader_Read32_at [OF h(2)] read_meta_at [OF h(3) assms(2,3)]
      word_level_less [OF assms(3)] unat_level [OF assms(3)]
    by (subst Manifest_ReplayLog_loop.simps) (simp add: push_file_eq ac_simps del: of_nat_numeral)
  then show ?thesis by (intro exI [of _ ?m]) (simp add: manifest_view_def ac_simps)
qed

definition removals_ok :: "(int \<times> u64) list \<Rightarrow> bool" where
  "removals_ok rs \<longleftrightarrow> list_all (\<lambda>(level, _). 0 \<le> level \<and> level < int kNumLevels) rs"

definition erase_all :: "(int \<times> u64) list \<Rightarrow> FileMetaData list list \<Rightarrow> FileMetaData list list" where
  "erase_all rs fss = fold (\<lambda>(level, file_id). erase_file (nat level) file_id) rs fss"

lemma replay_removals:
  assumes "holds_at log pos (concat (map put_removal rs))" and "removals_ok rs"
  shows "\<exists>m'. Manifest_ReplayLog_loop log pos m = Manifest_ReplayLog_loop log (pos + length (concat (map put_removal rs))) m'
     \<and> manifest_view m' = (mf_last_seq m, mf_flushed_seq m, mf_next_file_id m, erase_all rs (mf_files m))"
  using assms
proof (induction rs arbitrary: pos m)
  case Nil
  then show ?case by (auto simp: manifest_view_def erase_all_def)
next
  case (Cons r rs)
  obtain level file_id where r: "r = (level, file_id)" by fastforce
  have v: "0 \<le> level" "level < int kNumLevels" "removals_ok rs" using Cons.prems(2) by (auto simp: removals_ok_def r)
  have h: "holds_at log pos (put_removal (level, file_id))"
      "holds_at log (pos + length (put_removal (level, file_id))) (concat (map put_removal rs))"
    using Cons.prems(1) by (auto simp: holds_at_append r)
  obtain m1 where m1: "Manifest_ReplayLog_loop log pos m = Manifest_ReplayLog_loop log (pos + length (put_removal r)) m1"
      "manifest_view m1 = (mf_last_seq m, mf_flushed_seq m, mf_next_file_id m, erase_file (nat level) file_id (mf_files m))"
    using replay_del [OF h(1) v(1,2), of m] r by auto
  show ?case using Cons.IH [OF h(2) v(3), of m1] m1 by (auto simp: r manifest_view_def erase_all_def add.assoc)
qed

lemma replay_adds:
  assumes "holds_at log pos (concat (map (\<lambda>f. [kTagAdd] @ Put32 (word_of_nat level) @ put_meta f) fs))"
    and "list_all (meta_ok level) fs" and "level < kNumLevels"
  shows "\<exists>m'. Manifest_ReplayLog_loop log pos m
       = Manifest_ReplayLog_loop log (pos + length (concat (map (\<lambda>f. [kTagAdd] @ Put32 (word_of_nat level) @ put_meta f) fs))) m'
     \<and> manifest_view m' = (mf_last_seq m, mf_flushed_seq m, mf_next_file_id m, append_files level fs (mf_files m))"
  using assms
proof (induction fs arbitrary: pos m)
  case Nil
  then show ?case by (auto simp: manifest_view_def)
next
  case (Cons f fs)
  let ?p = "[kTagAdd] @ Put32 (word_of_nat level) @ put_meta f"
  have h: "holds_at log pos ?p"
      "holds_at log (pos + length ?p) (concat (map (\<lambda>f. [kTagAdd] @ Put32 (word_of_nat level) @ put_meta f) fs))"
    using Cons.prems(1) unfolding list.map concat.simps holds_at_append by simp_all
  obtain m1 where m1: "Manifest_ReplayLog_loop log pos m = Manifest_ReplayLog_loop log (pos + length ?p) m1"
      "manifest_view m1 = (mf_last_seq m, mf_flushed_seq m, mf_next_file_id m, append_files level [f] (mf_files m))"
    using replay_add [OF h(1), of m] Cons.prems by auto
  show ?case using Cons.IH [OF h(2) _ Cons.prems(3), of m1] Cons.prems(2) m1
    by (auto simp: manifest_view_def append_files_append add.assoc)
qed

lemma replay_add_levels:
  assumes "holds_at log pos (concat (map (\<lambda>l. concat (map (\<lambda>f. [kTagAdd] @ Put32 (word_of_nat l) @ put_meta f) (F l))) ls))"
    and "\<And>l. l \<in> set ls \<Longrightarrow> l < kNumLevels \<and> list_all (meta_ok l) (F l)"
  shows "\<exists>m'. Manifest_ReplayLog_loop log pos m = Manifest_ReplayLog_loop log
         (pos + length (concat (map (\<lambda>l. concat (map (\<lambda>f. [kTagAdd] @ Put32 (word_of_nat l) @ put_meta f) (F l))) ls))) m'
     \<and> manifest_view m' = (mf_last_seq m, mf_flushed_seq m, mf_next_file_id m,
                            fold (\<lambda>l. append_files l (F l)) ls (mf_files m))"
  using assms
proof (induction ls arbitrary: pos m)
  case Nil
  then show ?case by (auto simp: manifest_view_def)
next
  case (Cons l ls)
  let ?p = "concat (map (\<lambda>f. [kTagAdd] @ Put32 (word_of_nat l) @ put_meta f) (F l))"
  have h: "holds_at log pos ?p"
      "holds_at log (pos + length ?p) (concat (map (\<lambda>l. concat (map (\<lambda>f. [kTagAdd] @ Put32 (word_of_nat l) @ put_meta f) (F l))) ls))"
    using Cons.prems(1) by (simp_all add: holds_at_append)
  obtain m1 where m1: "Manifest_ReplayLog_loop log pos m = Manifest_ReplayLog_loop log (pos + length ?p) m1"
      "manifest_view m1 = (mf_last_seq m, mf_flushed_seq m, mf_next_file_id m, append_files l (F l) (mf_files m))"
    using replay_adds [OF h(1), of m] Cons.prems(2) by auto
  show ?case using Cons.IH [OF h(2), of m1] Cons.prems(2) m1
    by (auto simp: manifest_view_def add.assoc)
qed

definition apply_staged :: "Manifest \<Rightarrow> FileMetaData list list \<Rightarrow> FileMetaData list list" where
  "apply_staged m fss =
     fold (\<lambda>l. append_files l (mf_pending_adds m ! l)) [0..<kNumLevels] (erase_all (mf_pending_removals m) fss)"

lemma frame_replays:
  assumes "replays log (a, b, c, fss)" and "levels_ok (mf_pending_adds m0)" and "removals_ok (mf_pending_removals m0)"
  shows "replays (log @ append_frame m0)
     (mf_last_seq m0, mf_flushed_seq m0, mf_next_file_id m0, apply_staged m0 fss)"
  unfolding replays_def
proof (intro allI)
  fix rest
  let ?l = "(log @ append_frame m0) @ rest" and ?rs = "concat (map put_removal (mf_pending_removals m0))"
  let ?as = "concat (map (\<lambda>level. concat (map (\<lambda>f. [kTagAdd] @ Put32 (word_of_nat level) @ put_meta f)
                                       (mf_pending_adds m0 ! level))) [0..<kNumLevels])"
  let ?p = "length log"
  have fr: "([kTagSeq] @ put_counters m0) @ ?rs @ ?as = append_frame m0" by (simp add: append_frame_def)
  have "holds_at ?l ?p (([kTagSeq] @ put_counters m0) @ ?rs @ ?as)" unfolding fr by simp
  moreover have "length ([kTagSeq] @ put_counters m0) = 25" by simp
  ultimately have h: "holds_at ?l ?p ([kTagSeq] @ put_counters m0)" "holds_at ?l (?p + 25) ?rs"
      "holds_at ?l (?p + 25 + length ?rs) ?as"
    using holds_at_append [of ?l ?p "[kTagSeq] @ put_counters m0" "?rs @ ?as"] holds_at_append [of ?l "?p + 25" ?rs ?as]
    by (simp_all only: simp_thms)
  obtain m1 where m1: "Manifest_ReplayLog_loop ?l 0 Manifest_new = Manifest_ReplayLog_loop ?l ?p m1" "manifest_view m1 = (a, b, c, fss)"
    using assms(1) [unfolded replays_def, rule_format, of "append_frame m0 @ rest"] by auto
  obtain m2 where m2: "Manifest_ReplayLog_loop ?l ?p m1 = Manifest_ReplayLog_loop ?l (?p + 25) m2"
      "manifest_view m2 = (mf_last_seq m0, mf_flushed_seq m0, mf_next_file_id m0, fss)"
    using replay_seq [OF h(1), of m1] m1(2) by (auto simp: manifest_view_def)
  obtain m3 where m3: "Manifest_ReplayLog_loop ?l (?p + 25) m2 = Manifest_ReplayLog_loop ?l (?p + 25 + length ?rs) m3"
      "manifest_view m3 = (mf_last_seq m0, mf_flushed_seq m0, mf_next_file_id m0, erase_all (mf_pending_removals m0) fss)"
    using replay_removals [OF h(2) assms(3), of m2] m2(2) by (auto simp: manifest_view_def)
  obtain m4 where m4: "Manifest_ReplayLog_loop ?l (?p + 25 + length ?rs) m3
        = Manifest_ReplayLog_loop ?l (?p + 25 + length ?rs + length ?as) m4"
      "manifest_view m4 = (mf_last_seq m0, mf_flushed_seq m0, mf_next_file_id m0, apply_staged m0 fss)"
    using replay_add_levels [OF h(3), of m3] m3(2) assms(2)
    by (auto simp: manifest_view_def apply_staged_def levels_ok_def)
  have "?p + 25 + length ?rs + length ?as = length (log @ append_frame m0)"
    by (simp add: append_frame_def)
  then have "Manifest_ReplayLog_loop ?l 0 Manifest_new = Manifest_ReplayLog_loop ?l (length (log @ append_frame m0)) m4"
    using trans [OF trans [OF trans [OF m1(1) m2(1)] m3(1)] m4(1)] by (simp only:)
  then show "\<exists>m'. Manifest_ReplayLog_loop ?l 0 Manifest_new = Manifest_ReplayLog_loop ?l (length (log @ append_frame m0)) m'
      \<and> manifest_view m' = (mf_last_seq m0, mf_flushed_seq m0, mf_next_file_id m0, apply_staged m0 fss)"
    using m4(2) by blast
qed

subsection \<open>Replay of any readable log can be continued\<close>

text \<open>Whatever a log reads as, the same log with bytes behind it first reads as the same state: the
  readers look at nothing behind the bytes they consume.\<close>

lemma Reader_extend:
  "Reader_Read8 p pos = Some x8 \<Longrightarrow> Reader_Read8 (p @ rest) pos = Some x8"
  "Reader_Read32 p pos = Some x32 \<Longrightarrow> Reader_Read32 (p @ rest) pos = Some x32"
  "Reader_Read64 p pos = Some x64 \<Longrightarrow> Reader_Read64 (p @ rest) pos = Some x64"
  by (auto simp: Reader_Read8_def Reader_Read32_def Reader_Read64_def nth_append split: if_splits)

lemma ReadBytes_extend: "Reader_ReadBytes p pos = Some x \<Longrightarrow> Reader_ReadBytes (p @ rest) pos = Some x"
  unfolding Reader_ReadBytes_def
  by (cases "Reader_Read32 p pos") (auto simp: Reader_extend(2) split: if_splits)

lemma read_counters_extend:
  assumes "read_counters log pos m = (m', Some q)"
  shows "read_counters (log @ rest) pos m = (m', Some q)"
proof -
  from assms obtain x1 p1 x2 p2 x3 p3 where
    r: "Reader_Read64 log pos = Some (x1, p1)" "Reader_Read64 log p1 = Some (x2, p2)" "Reader_Read64 log p2 = Some (x3, p3)"
    by (auto simp: read_counters_def Let_def split: option.splits prod.splits)
  show ?thesis using assms Reader_extend(3) [OF r(1)] Reader_extend(3) [OF r(2)] Reader_extend(3) [OF r(3)] r
    by (simp add: read_counters_def)
qed

lemma read_meta_extend:
  assumes "read_meta log pos level = Some x"
  shows "read_meta (log @ rest) pos level = Some x"
  using assms unfolding read_meta_def
  by (auto simp: Reader_extend(3) ReadBytes_extend split: Option.bind_splits)

lemma read_meta_ok:
  assumes "read_meta log pos level = Some (f, q)"
  shows "meta_ok (unat level) f"
proof -
  have b: "length s < 2 ^ 32" if "Reader_ReadBytes log p = Some (s, p')" for p s p'
    using that unat_u32_less by (auto simp: Reader_ReadBytes_def min_def split: option.splits if_splits)
  show ?thesis using assms unfolding read_meta_def meta_ok_def
    by (auto split: Option.bind_splits dest!: b)
qed

lemma read_level_files_extend:
  "read_level_files k log pos level m = (m', Some q) \<Longrightarrow> read_level_files k (log @ rest) pos level m = (m', Some q)"
proof (induction k arbitrary: pos m)
  case (Suc k)
  then obtain f p where r: "read_meta log pos level = Some (f, p)" by (auto split: option.splits)
  then show ?case using Suc read_meta_extend [OF r, of rest] by simp
qed simp

lemma read_level_files_bound:
  "read_level_files k log pos level m = (m', Some q) \<Longrightarrow> pos \<le> length log \<Longrightarrow> q \<le> length log"
proof (induction k arbitrary: pos m)
  case (Suc k)
  then obtain f p where r: "read_meta log pos level = Some (f, p)" by (auto split: option.splits)
  then show ?case using Suc read_meta_advances [OF r] by simp
qed simp

lemma levels_ok_push:
  "levels_ok fss \<Longrightarrow> meta_ok level f \<Longrightarrow> level < kNumLevels \<Longrightarrow> levels_ok (push_file level f fss)"
  by (auto simp: levels_ok_def push_file_def nth_list_update)

lemma levels_ok_erase: "levels_ok fss \<Longrightarrow> levels_ok (erase_file level file_id fss)"
  by (cases "level < length fss")
    (auto simp: levels_ok_def erase_file_def nth_list_update list_all_iff list_update_beyond linorder_not_less)

lemma levels_ok_no_files [simp]: "levels_ok no_files"
  by (simp add: levels_ok_def no_files_def)

lemma read_level_files_ok:
  "read_level_files k log pos level m = (m', q) \<Longrightarrow> levels_ok (mf_files m) \<Longrightarrow> unat level < kNumLevels \<Longrightarrow> levels_ok (mf_files m')"
proof (induction k arbitrary: pos m)
  case (Suc k)
  show ?case
  proof (cases "read_meta log pos level")
    case None
    then show ?thesis using Suc.prems by simp
  next
    case (Some r)
    obtain f p where r: "r = (f, p)" by fastforce
    have "levels_ok (push_file (unat level) f (mf_files m))"
      using Suc.prems read_meta_ok Some r by (intro levels_ok_push) auto
    then show ?thesis using Suc.IH Suc.prems Some r by fastforce
  qed
qed simp

lemma read_levels_step:
  assumes "read_levels log pos m = (m', Some q)"
  obtains (stop) level pos1 where "Reader_Read32 log pos = Some (level, pos1)" "Reader_Read32 log pos1 = Some (0, q)" "m' = m"
  | (more) level pos1 count pos2 m1 pos3 where "Reader_Read32 log pos = Some (level, pos1)"
      "Reader_Read32 log pos1 = Some (count, pos2)" "count \<noteq> 0" "\<not> word_of_nat kNumLevels \<le> level"
      "read_level_files (unat count) log pos2 level m = (m1, Some pos3)" "read_levels log pos3 m1 = (m', Some q)"
  using assms by (subst (asm) read_levels.simps) (auto split: option.splits prod.splits if_splits)

lemma read_levels_extend:
  "read_levels log pos m = (m', Some q) \<Longrightarrow>
   read_levels (log @ rest) pos m = (m', Some q) \<and> q \<le> length log \<and> (levels_ok (mf_files m) \<longrightarrow> levels_ok (mf_files m'))"
proof (induction "length log - pos" arbitrary: pos m rule: less_induct)
  case less
  from less.prems show ?case
  proof (cases rule: read_levels_step)
    case (stop level pos1)
    then show ?thesis using Reader_advances(2) [OF stop(2)] Reader_extend(2) [OF stop(1), of rest] Reader_extend(2) [OF stop(2), of rest]
      by (subst read_levels.simps) simp
  next
    case (more level pos1 count pos2 m1 pos3)
    have a: "pos < pos1" "pos1 < pos2" "pos2 \<le> length log" "pos2 \<le> pos3" "pos3 \<le> length log"
      using Reader_advances(2) [OF more(1)] Reader_advances(2) [OF more(2)] read_level_files_advances [OF more(5)]
        read_level_files_bound [OF more(5)] by auto
    have "unat level < kNumLevels" using more(4) by (simp add: word_le_nat_alt kNumLevels_7)
    then have "levels_ok (mf_files m) \<longrightarrow> levels_ok (mf_files m1)" using read_level_files_ok [OF more(5)] by blast
    moreover have "length log - pos3 < length log - pos" using a by simp
    note less.hyps [OF this more(6)]
    ultimately show ?thesis
      using Reader_extend(2) [OF more(1), of rest] Reader_extend(2) [OF more(2), of rest]
        read_level_files_extend [OF more(5), of rest] more(3,4)
      by (subst read_levels.simps) (simp del: of_nat_numeral)
  qed
qed

lemma word_level_unat: "level < word_of_nat kNumLevels \<Longrightarrow> unat (level :: u32) < kNumLevels"
  by (simp add: word_less_nat_alt kNumLevels_7)

lemma read_keeps_pending:
  "read_counters log pos m = (m', q) \<Longrightarrow> mf_pending_adds m' = mf_pending_adds m \<and> mf_pending_removals m' = mf_pending_removals m"
  "read_level_files k log pos level m = (m', q) \<Longrightarrow> mf_pending_adds m' = mf_pending_adds m \<and> mf_pending_removals m' = mf_pending_removals m"
proof -
  show "read_counters log pos m = (m', q) \<Longrightarrow> mf_pending_adds m' = mf_pending_adds m \<and> mf_pending_removals m' = mf_pending_removals m"
    by (auto simp: read_counters_def Let_def split: option.splits prod.splits)
  show "read_level_files k log pos level m = (m', q) \<Longrightarrow> mf_pending_adds m' = mf_pending_adds m \<and> mf_pending_removals m' = mf_pending_removals m"
    by (induction k log pos level m rule: read_level_files.induct) (auto split: option.splits prod.splits)
qed

lemma read_levels_keeps_pending:
  "read_levels log pos m = (m', Some q) \<Longrightarrow> mf_pending_adds m' = mf_pending_adds m \<and> mf_pending_removals m' = mf_pending_removals m"
proof (induction "length log - pos" arbitrary: pos m rule: less_induct)
  case less
  from less.prems show ?case
  proof (cases rule: read_levels_step)
    case (more level pos1 count pos2 m1 pos3)
    have "length log - pos3 < length log - pos"
      using Reader_advances(2) [OF more(1)] Reader_advances(2) [OF more(2)] read_level_files_advances [OF more(5)] by auto
    from less.hyps [OF this more(6)] read_keeps_pending(2) [OF more(5)] show ?thesis by simp
  qed simp
qed

lemma replay_step:
  assumes "Manifest_ReplayLog_loop log pos m = (True, m')"
  obtains (stop) "Reader_Read8 log pos = None" "m' = m"
  | (step) pos2 m2 where "pos < pos2" "pos2 \<le> length log" "Manifest_ReplayLog_loop log pos2 m2 = (True, m')"
      "\<And>rest. Manifest_ReplayLog_loop (log @ rest) pos m = Manifest_ReplayLog_loop (log @ rest) pos2 m2"
      "levels_ok (mf_files m) \<longrightarrow> levels_ok (mf_files m2)"
      "mf_pending_adds m2 = mf_pending_adds m \<and> mf_pending_removals m2 = mf_pending_removals m"
proof (cases "Reader_Read8 log pos")
  case None
  then show thesis using assms stop by (subst (asm) Manifest_ReplayLog_loop.simps) simp
next
  case (Some r)
  obtain tag pos1 where "r = (tag, pos1)" by fastforce
  with Some have r8: "Reader_Read8 log pos = Some (tag, pos1)" by simp
  note x8 = Reader_extend(1) [OF r8] and a8 = Reader_advances(1) [OF r8]
  note prem = assms [unfolded Manifest_ReplayLog_loop.simps [of log pos] r8 option.case prod.case]
  consider "tag = kTagSnapshot" | "tag = kTagDel" | "tag = kTagAdd" | "tag = kTagSeq"
    | "tag \<notin> {kTagSnapshot, kTagDel, kTagAdd, kTagSeq}" by blast
  then show thesis
  proof cases
    case 1
    then obtain m1 q m2 q2 where c: "read_counters log pos1 (m\<lparr>mf_files := no_files\<rparr>) = (m1, Some q)"
        "read_levels log q m1 = (m2, Some q2)" "Manifest_ReplayLog_loop log q2 m2 = (True, m')"
      using prem by (auto split: option.splits prod.splits)
    have "levels_ok (mf_files m1)" using c(1) by (auto simp: read_counters_def Let_def split: option.splits prod.splits)
    then show thesis
      using 1 c read_levels_extend [OF c(2)] read_counters_extend [OF c(1)] read_levels_advances [OF c(2)]
        read_counters_advances [OF c(1)] a8 x8 read_keeps_pending(1) [OF c(1)] read_levels_keeps_pending [OF c(2)]
      by (intro step [of q2 m2]) (auto simp: Manifest_ReplayLog_loop.simps [of "log @ _" pos])
  next
    case 2
    then obtain level q file_id q2 where c: "Reader_Read32 log pos1 = Some (level, q)" "Reader_Read64 log q = Some (file_id, q2)"
      using prem by (auto simp: Let_def split: option.splits prod.splits)
    let ?m = "m\<lparr>mf_replayed_records := mf_replayed_records m + 1\<rparr>"
    let ?m2 = "if level < word_of_nat kNumLevels then Manifest_RemoveFileDirect ?m (int (unat level)) file_id else ?m"
    have "Manifest_ReplayLog_loop log q2 ?m2 = (True, m')" using prem 2 c by (simp add: Let_def split: if_splits)
    moreover have "levels_ok (mf_files m) \<longrightarrow> levels_ok (mf_files ?m2)"
        "mf_pending_adds ?m2 = mf_pending_adds m \<and> mf_pending_removals ?m2 = mf_pending_removals m"
      by (auto simp: Manifest_RemoveFileDirect_def levels_ok_erase)
    ultimately show thesis
      using 2 Reader_extend(2) [OF c(1)] Reader_extend(3) [OF c(2)] Reader_advances(2) [OF c(1)] Reader_advances(3) [OF c(2)] a8 x8
      by (intro step [of q2 ?m2]) (auto simp: Manifest_ReplayLog_loop.simps [of "log @ _" pos])
  next
    case 3
    then obtain level q f q2 where c: "Reader_Read32 log pos1 = Some (level, q)" "read_meta log q level = Some (f, q2)"
      using prem by (auto simp: Let_def split: option.splits prod.splits)
    let ?m = "m\<lparr>mf_replayed_records := mf_replayed_records m + 1\<rparr>"
    let ?m2 = "if level < word_of_nat kNumLevels then ?m\<lparr>mf_files := push_file (unat level) f (mf_files ?m)\<rparr> else ?m"
    have "Manifest_ReplayLog_loop log q2 ?m2 = (True, m')" using prem 3 c by (simp add: Let_def split: if_splits)
    moreover have "levels_ok (mf_files m) \<longrightarrow> levels_ok (mf_files ?m2)"
      using levels_ok_push [OF _ read_meta_ok [OF c(2)]] word_level_unat by auto
    ultimately show thesis
      using 3 Reader_extend(2) [OF c(1)] read_meta_extend [OF c(2)] Reader_advances(2) [OF c(1)] read_meta_advances [OF c(2)] a8 x8
      by (intro step [of q2 ?m2]) (auto simp: Manifest_ReplayLog_loop.simps [of "log @ _" pos])
  next
    case 4
    let ?m = "m\<lparr>mf_replayed_records := mf_replayed_records m + 1\<rparr>"
    from 4 obtain m1 q where c: "read_counters log pos1 ?m = (m1, Some q)" "Manifest_ReplayLog_loop log q m1 = (True, m')"
      using prem by (auto simp: Let_def split: option.splits prod.splits)
    have "mf_files m1 = mf_files m" using c(1) by (auto simp: read_counters_def Let_def split: option.splits prod.splits)
    then show thesis
      using 4 c read_counters_extend [OF c(1)] read_counters_advances [OF c(1)] a8 x8 read_keeps_pending(1) [OF c(1)]
      by (intro step [of q m1]) (auto simp: Manifest_ReplayLog_loop.simps [of "log @ _" pos])
  next
    case 5
    then show thesis using prem by (simp add: Let_def)
  qed
qed

lemma replay_extend:
  "Manifest_ReplayLog_loop log pos m = (True, m') \<Longrightarrow> pos \<le> length log \<Longrightarrow>
   Manifest_ReplayLog_loop (log @ rest) pos m = Manifest_ReplayLog_loop (log @ rest) (length log) m'
   \<and> (levels_ok (mf_files m) \<longrightarrow> levels_ok (mf_files m'))
   \<and> mf_pending_adds m' = mf_pending_adds m \<and> mf_pending_removals m' = mf_pending_removals m"
proof (induction "length log - pos" arbitrary: pos m rule: less_induct)
  case less
  from less.prems(1) show ?case
  proof (cases rule: replay_step)
    case stop
    then have "pos = length log" using less.prems(2) by (auto simp: Reader_Read8_def split: if_splits)
    then show ?thesis using stop by simp
  next
    case (step pos2 m2)
    have "length log - pos2 < length log - pos" using step(1,2) by simp
    from less.hyps [OF this step(3,2)] step(4-6) show ?thesis by auto
  qed
qed

lemma ReadFromFile_replays:
  assumes "Manifest_ReadFromFile env fs Manifest_new dir = (s, m)" and "ok s"
    and "fs (dir @ ''/MANIFEST'') = Some (kAppendMagic @ log)"
    and "env_read env (dir @ ''/MANIFEST'') (length (kAppendMagic @ log)) = int (length (kAppendMagic @ log))"
  shows "replays log (manifest_view m) \<and> levels_ok (mf_files m) \<and> mf_pending_adds m = no_files \<and> mf_pending_removals m = []"
proof -
  have l: "length kAppendMagic = 4" by (simp add: kAppendMagic_def bytes_of_def)
  have n: "Manifest_new\<lparr>mf_files := no_files, mf_replayed_records := 0\<rparr> = Manifest_new" by (simp add: Manifest_new_def)
  obtain m' where m': "Manifest_ReplayLog_loop log 0 Manifest_new = (True, m')" "m = m'\<lparr>mf_appended_records := mf_replayed_records m'\<rparr>"
    using assms l n
    by (auto simp: Manifest_ReadFromFile_def Manifest_ReplayLog_def ok_def status_simps split: if_splits prod.splits)
  have e: "Manifest_ReplayLog_loop (log @ rest) 0 Manifest_new = Manifest_ReplayLog_loop (log @ rest) (length log) m'
      \<and> levels_ok (mf_files m') \<and> mf_pending_adds m' = no_files \<and> mf_pending_removals m' = []" for rest
    using replay_extend [OF m'(1), of rest] by (simp add: Manifest_new_def)
  have "replays log (manifest_view m')" unfolding replays_def using e by blast
  then show ?thesis using m'(2) e by (simp add: manifest_view_def)
qed

subsection \<open>Edits and updates\<close>

text \<open>What the staged edits do, level by level.\<close>

lemma erase_all_levels:
  assumes "removals_ok rs"
  shows "erase_all rs fss = map (\<lambda>l. filter (\<lambda>f. (int l, fm_file_id f) \<notin> set rs) (fss ! l)) [0..<length fss]"
  using assms
proof (induction rs arbitrary: fss)
  case Nil
  then show ?case by (simp add: erase_all_def map_nth)
next
  case (Cons r rs)
  obtain level file_id where r: "r = (level, file_id)" by fastforce
  have v: "0 \<le> level" "removals_ok rs" using Cons.prems by (auto simp: removals_ok_def r)
  let ?g = "erase_file (nat level) file_id fss"
  have l: "length ?g = length fss" by (simp add: erase_file_def)
  have "erase_all (r # rs) fss = erase_all rs ?g" by (simp add: erase_all_def r)
  also have "\<dots> = map (\<lambda>l. filter (\<lambda>f. (int l, fm_file_id f) \<notin> set rs) (?g ! l)) [0..<length fss]"
    using Cons.IH [OF v(2), of ?g] l by simp
  also have "\<dots> = map (\<lambda>l. filter (\<lambda>f. (int l, fm_file_id f) \<notin> set (r # rs)) (fss ! l)) [0..<length fss]"
  proof (rule map_cong [OF refl])
    fix l assume "l \<in> set [0..<length fss]"
    then show "filter (\<lambda>f. (int l, fm_file_id f) \<notin> set rs) (?g ! l) = filter (\<lambda>f. (int l, fm_file_id f) \<notin> set (r # rs)) (fss ! l)"
      using v(1) by (cases "l = nat level") (auto simp: erase_file_def r intro!: filter_cong)
  qed
  finally show ?case .
qed

lemma fold_append_files:
  "n \<le> length fss \<Longrightarrow> fold (\<lambda>l. append_files l (F l)) [0..<n] fss = map (\<lambda>l. if l < n then fss ! l @ F l else fss ! l) [0..<length fss]"
  by (induction n) (auto simp: map_nth append_files_def intro!: nth_equalityI simp: nth_list_update less_Suc_eq)

lemma apply_staged_levels:
  assumes "length fss = kNumLevels" and "removals_ok (mf_pending_removals m)"
  shows "apply_staged m fss = map (\<lambda>l. filter (\<lambda>f. (int l, fm_file_id f) \<notin> set (mf_pending_removals m)) (fss ! l)
           @ mf_pending_adds m ! l) [0..<kNumLevels]"
  using assms fold_append_files [of kNumLevels "erase_all (mf_pending_removals m) fss" "\<lambda>l. mf_pending_adds m ! l"]
  by (simp add: apply_staged_def erase_all_levels)

definition manifest_inv :: "string \<Rightarrow> ManifestState \<Rightarrow> bool" where
  "manifest_inv dir d \<longleftrightarrow>
     (let m = dm_manifest d
      in levels_ok (mf_files m) \<and> levels_ok (mf_pending_adds m) \<and> removals_ok (mf_pending_removals m)
         \<and> (dm_written d \<and> \<not> dm_dirty d \<longrightarrow>
              (\<exists>log a b c fss. dm_fs d (dir @ ''/MANIFEST'') = Some (kAppendMagic @ log) \<and> replays log (a, b, c, fss)
                 \<and> length fss = kNumLevels \<and> mf_files m = apply_staged m fss)))"

lemma manifest_inv_edit:
  assumes "manifest_inv dir d" and "levels_ok (mf_files m)" "levels_ok (mf_pending_adds m)" "removals_ok (mf_pending_removals m)"
    and "\<And>fss. dm_written d \<and> \<not> dm_dirty d \<Longrightarrow> length fss = kNumLevels \<Longrightarrow>
          mf_files (dm_manifest d) = apply_staged (dm_manifest d) fss \<Longrightarrow> mf_files m = apply_staged m fss"
  shows "manifest_inv dir (d\<lparr>dm_manifest := m\<rparr>)"
proof -
  have "\<exists>log a b c fss. dm_fs d (dir @ ''/MANIFEST'') = Some (kAppendMagic @ log) \<and> replays log (a, b, c, fss)
          \<and> length fss = kNumLevels \<and> mf_files m = apply_staged m fss" if wd: "dm_written d \<and> \<not> dm_dirty d"
  proof -
    obtain log a b c fss where f: "dm_fs d (dir @ ''/MANIFEST'') = Some (kAppendMagic @ log)" "replays log (a, b, c, fss)"
        "length fss = kNumLevels" "mf_files (dm_manifest d) = apply_staged (dm_manifest d) fss"
      using assms(1) wd unfolding manifest_inv_def Let_def by blast
    then show ?thesis using assms(5) [OF wd f(3,4)] by blast
  qed
  then show ?thesis using assms(2-4) by (simp add: manifest_inv_def)
qed

text \<open>The states the engine goes through: a new or an opened database, the edits of flushes and
  compactions, other files changing, and updates of the manifest with whatever outcome. A file is
  removed while its addition is still staged only after an update failed.\<close>

inductive manifest_reach :: "string \<Rightarrow> ManifestState \<Rightarrow> bool" for dir where
  fresh: "manifest_reach dir \<lparr>dm_manifest = Manifest_new, dm_written = False, dm_dirty = False, dm_fs = fs\<rparr>"
| opened: "Manifest_ReadFromFile env fs Manifest_new dir = (s, m) \<Longrightarrow> ok s \<Longrightarrow>
    fs (dir @ ''/MANIFEST'') = Some (kAppendMagic @ log) \<Longrightarrow> (\<And>path n. env_read env path n = int n) \<Longrightarrow>
    manifest_reach dir \<lparr>dm_manifest = m, dm_written = True, dm_dirty = False, dm_fs = fs\<rparr>"
| add: "manifest_reach dir d \<Longrightarrow> length smallest < 2 ^ 32 \<Longrightarrow> length largest < 2 ^ 32 \<Longrightarrow>
    manifest_reach dir (d\<lparr>dm_manifest := Manifest_AddFile (dm_manifest d) level file_id smallest largest file_size\<rparr>)"
| remove: "manifest_reach dir d \<Longrightarrow>
    (dm_written d \<and> \<not> dm_dirty d \<longrightarrow> file_id \<notin> fm_file_id ` set (mf_pending_adds (dm_manifest d) ! nat level)) \<Longrightarrow>
    manifest_reach dir (d\<lparr>dm_manifest := Manifest_RemoveFile (dm_manifest d) level file_id\<rparr>)"
| flushed: "manifest_reach dir d \<Longrightarrow>
    manifest_reach dir (d\<lparr>dm_manifest := (dm_manifest d)\<lparr>mf_flushed_seq := seq\<rparr>\<rparr>)"
| files: "manifest_reach dir d \<Longrightarrow> fs (dir @ ''/MANIFEST'') = dm_fs d (dir @ ''/MANIFEST'') \<Longrightarrow>
    manifest_reach dir (d\<lparr>dm_fs := fs\<rparr>)"
| update: "manifest_reach dir d \<Longrightarrow> pwrite_ok env \<Longrightarrow> small_levels (mf_files (dm_manifest d)) \<Longrightarrow>
    manifest_reach dir (snd (DBImpl_UpdateManifest env dir last_seq next_file_id d))"

lemma AddFile_inv:
  assumes "manifest_inv dir d" and "length smallest < 2 ^ 32" and "length largest < 2 ^ 32"
  shows "manifest_inv dir (d\<lparr>dm_manifest := Manifest_AddFile (dm_manifest d) level file_id smallest largest file_size\<rparr>)"
proof (cases "level < 0 \<or> int kNumLevels \<le> level")
  case True
  then show ?thesis using assms(1) by (simp add: Manifest_AddFile_def)
next
  case False
  let ?l = "nat level"
  let ?f = "\<lparr>fm_file_id = file_id, fm_level = level, fm_smallest_key = smallest, fm_largest_key = largest, fm_file_size = file_size\<rparr>"
  let ?m = "dm_manifest d"
  let ?m' = "?m\<lparr>mf_files := push_file ?l ?f (mf_files ?m), mf_pending_adds := push_file ?l ?f (mf_pending_adds ?m)\<rparr>"
  have m': "Manifest_AddFile ?m level file_id smallest largest file_size = ?m'"
    using False by (simp add: Manifest_AddFile_def Manifest_RecordAdd_def)
  have f: "meta_ok ?l ?f" "?l < kNumLevels" using False assms(2,3) by (auto simp: meta_ok_def)
  have ok: "levels_ok (mf_files ?m)" "levels_ok (mf_pending_adds ?m)" "removals_ok (mf_pending_removals ?m)"
    using assms(1) by (auto simp: manifest_inv_def Let_def)
  have "mf_files ?m' = apply_staged ?m' fss" if "mf_files ?m = apply_staged ?m fss" "length fss = kNumLevels" for fss
    using that ok f(2)
    by (auto simp: apply_staged_levels push_file_def levels_ok_def nth_list_update intro!: nth_equalityI)
  then show ?thesis
    unfolding m' using levels_ok_push [OF ok(1) f] levels_ok_push [OF ok(2) f] ok(3)
    by (intro manifest_inv_edit [OF assms(1)]) simp_all
qed

lemma RemoveFile_inv:
  assumes "manifest_inv dir d"
    and "dm_written d \<and> \<not> dm_dirty d \<longrightarrow> file_id \<notin> fm_file_id ` set (mf_pending_adds (dm_manifest d) ! nat level)"
  shows "manifest_inv dir (d\<lparr>dm_manifest := Manifest_RemoveFile (dm_manifest d) level file_id\<rparr>)"
proof (cases "level < 0 \<or> int kNumLevels \<le> level")
  case True
  then show ?thesis using assms(1) by (simp add: Manifest_RemoveFile_def)
next
  case False
  let ?l = "nat level" and ?m = "dm_manifest d"
  let ?m' = "?m\<lparr>mf_files := erase_file ?l file_id (mf_files ?m),
      mf_pending_removals := mf_pending_removals ?m @ [(level, file_id)]\<rparr>"
  have m': "Manifest_RemoveFile ?m level file_id = ?m'"
    using False by (simp add: Manifest_RemoveFile_def Manifest_RecordRemove_def)
  have ok: "levels_ok (mf_files ?m)" "levels_ok (mf_pending_adds ?m)" "removals_ok (mf_pending_removals ?m)"
    using assms(1) by (auto simp: manifest_inv_def Let_def)
  have r: "removals_ok (mf_pending_removals ?m @ [(level, file_id)])" using ok(3) False by (auto simp: removals_ok_def)
  have "mf_files ?m' = apply_staged ?m' fss"
    if "mf_files ?m = apply_staged ?m fss" "length fss = kNumLevels"
      "file_id \<notin> fm_file_id ` set (mf_pending_adds ?m ! ?l)" for fss
  proof -
    have p: "filter (\<lambda>f. fm_file_id f \<noteq> file_id) (mf_pending_adds ?m ! ?l) = mf_pending_adds ?m ! ?l"
      using that(3) by (auto simp: filter_id_conv)
    have lv: "level = int ?l" "?l < kNumLevels" using False by auto
    have "erase_file ?l file_id (apply_staged ?m fss) = apply_staged ?m' fss"
    proof (rule nth_equalityI)
      show "length (erase_file ?l file_id (apply_staged ?m fss)) = length (apply_staged ?m' fss)"
        using that(2) ok(3) r by (simp add: apply_staged_levels erase_file_def)
      fix i assume "i < length (erase_file ?l file_id (apply_staged ?m fss))"
      then have "i < kNumLevels" using that(2) ok(3) by (simp add: apply_staged_levels erase_file_def)
      then show "erase_file ?l file_id (apply_staged ?m fss) ! i = apply_staged ?m' fss ! i"
        using that(2) ok(3) r p lv
        by (cases "i = ?l") (auto simp: apply_staged_levels erase_file_def intro!: filter_cong)
    qed
    then show ?thesis using that(1) by simp
  qed
  then show ?thesis
    unfolding m' using levels_ok_erase [OF ok(1)] ok r assms(2)
    by (intro manifest_inv_edit [OF assms(1)]) simp_all
qed

lemma WriteToFile_result:
  assumes "pwrite_ok env" and "Manifest_WriteToFile env fs m dir = (s, m', fs')"
  shows "if ok s then m' = Manifest_DropStagedRecords m \<and> fs' (dir @ ''/MANIFEST'') = Some (snapshot_content m)
         else m' = m \<and> fs' (dir @ ''/MANIFEST'') = fs (dir @ ''/MANIFEST'')"
proof -
  obtain b tmp where w: "write_all env (dir @ ''/MANIFEST.tmp'') [] (snapshot_content m) 0 = (b, tmp)" by fastforce
  have "b \<Longrightarrow> tmp = snapshot_content m" using write_all_ok [OF assms(1), of _ "[]" _ 0 tmp] w by auto
  then show ?thesis using assms(2) w
    by (auto simp: Manifest_WriteToFile_def Let_def ok_def status_simps split: if_splits)
qed

lemma AppendChanges_result:
  assumes "pwrite_ok env" and "Manifest_AppendChanges env fs m dir = (s, m', fs')" and "ok s"
    and "fs (dir @ ''/MANIFEST'') = Some (kAppendMagic @ log)"
  shows "(m' = Manifest_DropStagedRecords m \<and> fs' (dir @ ''/MANIFEST'') = Some (snapshot_content m))
     \<or> (m' = m\<lparr>mf_pending_adds := no_files, mf_pending_removals := [], mf_appended_records := mf_appended_records m + 1\<rparr>
        \<and> fs' (dir @ ''/MANIFEST'') = Some (kAppendMagic @ log @ append_frame m))"
proof (cases "Manifest_FoldThreshold m \<le> mf_appended_records m")
  case True
  then have "Manifest_WriteToFile env fs m dir = (s, m', fs')" using assms(2) by (simp add: Manifest_AppendChanges_def)
  then show ?thesis using WriteToFile_result [OF assms(1)] assms(3) by auto
next
  case False
  have ne: "kAppendMagic @ log \<noteq> []" by (simp add: kAppendMagic_def bytes_of_def)
  obtain b f where w: "write_all env (dir @ ''/MANIFEST'') (kAppendMagic @ log) (append_frame m) 0 = (b, f)" by fastforce
  have "b \<Longrightarrow> f = (kAppendMagic @ log) @ append_frame m"
    using write_all_ok [OF assms(1), of _ "kAppendMagic @ log" _ 0 f] w by auto
  then show ?thesis using assms(2-4) w False ne
    by (auto simp: Manifest_AppendChanges_def Let_def ok_def status_simps split: if_splits)
qed

lemma AppendChanges_fails:
  assumes "pwrite_ok env" and "Manifest_AppendChanges env fs m dir = (s, m', fs')" and "\<not> ok s"
  shows "m' = m"
proof (cases "Manifest_FoldThreshold m \<le> mf_appended_records m")
  case True
  then have "Manifest_WriteToFile env fs m dir = (s, m', fs')" using assms(2) by (simp add: Manifest_AppendChanges_def)
  then show ?thesis using WriteToFile_result [OF assms(1)] assms(3) by fastforce
next
  case False
  then show ?thesis using assms(2,3)
    by (auto simp: Manifest_AppendChanges_def Let_def ok_def status_simps split: if_splits prod.splits)
qed

lemma apply_staged_none:
  assumes "length fss = kNumLevels" and "mf_pending_adds m = no_files" and "mf_pending_removals m = []"
  shows "apply_staged m fss = fss"
  using assms by (auto simp: apply_staged_levels removals_ok_def no_files_def intro!: nth_equalityI)

definition manifest_saved :: "string \<Rightarrow> ManifestState \<Rightarrow> bool" where
  "manifest_saved dir d \<longleftrightarrow> dm_written d \<and> \<not> dm_dirty d
     \<and> mf_pending_adds (dm_manifest d) = no_files \<and> mf_pending_removals (dm_manifest d) = []
     \<and> levels_ok (mf_files (dm_manifest d))
     \<and> (\<exists>log. dm_fs d (dir @ ''/MANIFEST'') = Some (kAppendMagic @ log) \<and> replays log (manifest_view (dm_manifest d)))"

lemma manifest_saved_inv: "manifest_saved dir d \<Longrightarrow> manifest_inv dir d"
  unfolding manifest_saved_def manifest_inv_def Let_def
  by (auto simp: removals_ok_def manifest_view_def apply_staged_none levels_ok_def no_files_def)
    (metis apply_staged_none no_files_def)

lemma snapshot_saved:
  assumes "levels_ok (mf_files (dm_manifest d))" and "small_levels (mf_files (dm_manifest d))" and "pwrite_ok env"
    and "DBImpl_WriteManifestSnapshotLocked env dir d = (s, d')"
  shows "if ok s then manifest_saved dir d' \<and> manifest_view (dm_manifest d') = manifest_view (dm_manifest d)
         else dm_manifest d' = dm_manifest d \<and> dm_written d' = dm_written d \<and> dm_dirty d' = dm_dirty d"
proof -
  obtain s1 m1 fs1 where w: "Manifest_WriteToFile env (dm_fs d) (dm_manifest d) dir = (s1, m1, fs1)"
    by (metis prod_cases3)
  obtain log where "snapshot_content (dm_manifest d) = kAppendMagic @ log" "replays log (manifest_view (dm_manifest d))"
    using snapshot_replays [OF assms(1,2)] by blast
  then show ?thesis using WriteToFile_result [OF assms(3) w] w assms(1,4)
    by (auto simp: DBImpl_WriteManifestSnapshotLocked_def Let_def manifest_saved_def Manifest_DropStagedRecords_def
        manifest_view_def split: if_splits)
qed

lemma UpdateManifest_result:
  assumes "manifest_inv dir d" and "small_levels (mf_files (dm_manifest d))" and "pwrite_ok env"
    and "DBImpl_UpdateManifest env dir last_seq next_file_id d = (s, d')"
  shows "manifest_inv dir d' \<and> (ok s \<longrightarrow> manifest_saved dir d' \<and> mf_last_seq (dm_manifest d') = last_seq
           \<and> mf_next_file_id (dm_manifest d') = next_file_id \<and> mf_files (dm_manifest d') = mf_files (dm_manifest d)
           \<and> mf_flushed_seq (dm_manifest d') = mf_flushed_seq (dm_manifest d))"
proof -
  let ?m = "(dm_manifest d)\<lparr>mf_last_seq := last_seq, mf_next_file_id := next_file_id\<rparr>"
  let ?d = "d\<lparr>dm_manifest := ?m\<rparr>"
  have st: "apply_staged ?m = apply_staged (dm_manifest d)" by (simp add: apply_staged_def fun_eq_iff)
  have inv: "manifest_inv dir ?d" using assms(1) by (simp add: manifest_inv_def st Let_def)
  have ok: "levels_ok (mf_files ?m)" "levels_ok (mf_pending_adds ?m)" "removals_ok (mf_pending_removals ?m)"
    using inv by (auto simp: manifest_inv_def Let_def)
  have snap: ?thesis if d1: "DBImpl_WriteManifestSnapshotLocked env dir d1 = (s, d')" "dm_manifest d1 = ?m"
      "\<not> dm_written d1 \<or> dm_dirty d1" for d1
    using snapshot_saved [of d1 env dir s d'] d1 ok assms(2,3) manifest_saved_inv [of dir d']
    by (auto simp: manifest_view_def manifest_inv_def Let_def split: if_splits)
  show ?thesis
  proof (cases "\<not> dm_written d \<or> dm_dirty d")
    case True
    then show ?thesis using snap [of ?d] assms(4) by (simp add: DBImpl_UpdateManifest_def)
  next
    case False
    obtain log a b c fss where f: "dm_fs d (dir @ ''/MANIFEST'') = Some (kAppendMagic @ log)" "replays log (a, b, c, fss)"
        "length fss = kNumLevels" "mf_files ?m = apply_staged ?m fss"
      using inv False by (auto simp: manifest_inv_def Let_def)
    obtain s1 m1 fs1 where a: "Manifest_AppendChanges env (dm_fs d) ?m dir = (s1, m1, fs1)" by (metis prod_cases3)
    show ?thesis
    proof (cases "Lkv_Slice.ok s1")
      case bad: False
      have "m1 = ?m" by (rule AppendChanges_fails [OF assms(3) a bad])
      then show ?thesis using snap [of "d\<lparr>dm_manifest := m1, dm_fs := fs1, dm_dirty := True\<rparr>"] assms(4) False a bad
        by (simp add: DBImpl_UpdateManifest_def)
    next
      case good: True
      then have d': "s = s1" "d' = d\<lparr>dm_manifest := m1, dm_fs := fs1\<rparr>"
        using assms(4) False a by (simp_all add: DBImpl_UpdateManifest_def)
      obtain slog where "snapshot_content ?m = kAppendMagic @ slog" "replays slog (manifest_view ?m)"
        using snapshot_replays [OF ok(1)] assms(2) by auto
      moreover have "replays (log @ append_frame ?m) (manifest_view ?m)"
        using frame_replays [OF f(2) ok(2,3)] f(4) by (simp add: manifest_view_def)
      ultimately have "manifest_saved dir d'"
        using AppendChanges_result [OF assms(3) a good f(1)] False ok(1)
        by (auto simp: d' manifest_saved_def manifest_view_def Manifest_DropStagedRecords_def)
      then show ?thesis
        using AppendChanges_result [OF assms(3) a good f(1)] manifest_saved_inv
        by (auto simp: d' Manifest_DropStagedRecords_def)
    qed
  qed
qed

lemma manifest_reach_inv: "manifest_reach dir d \<Longrightarrow> manifest_inv dir d"
proof (induction rule: manifest_reach.induct)
  case (fresh fs)
  then show ?case by (simp add: manifest_inv_def Manifest_new_def removals_ok_def)
next
  case (opened env fs s m log)
  have "manifest_saved dir \<lparr>dm_manifest = m, dm_written = True, dm_dirty = False, dm_fs = fs\<rparr>"
    using ReadFromFile_replays [OF opened(1-3)] opened(3,4) by (simp add: manifest_saved_def)
  then show ?case by (rule manifest_saved_inv)
next
  case (add d smallest largest level file_id file_size)
  then show ?case by (intro AddFile_inv)
next
  case (remove d file_id level)
  then show ?case by (intro RemoveFile_inv)
next
  case (flushed d seq)
  have "apply_staged ((dm_manifest d)\<lparr>mf_flushed_seq := seq\<rparr>) = apply_staged (dm_manifest d)"
    by (simp add: apply_staged_def fun_eq_iff)
  then show ?case using flushed.IH by (simp add: manifest_inv_def Let_def)
next
  case (files d fs)
  then show ?case by (simp add: manifest_inv_def Let_def)
next
  case (update d env last_seq next_file_id)
  then show ?case using UpdateManifest_result [of dir d env last_seq next_file_id] by (metis prod.collapse)
qed

subsection \<open>Properties\<close>


text \<open>When no call fails, updates succeed.\<close>

lemma write_all_progress:
  assumes "\<And>path off n. 0 < n \<Longrightarrow> 0 < env_pwrite env path off n"
  shows "fst (write_all env path f data n)"
  using assms
proof (induction env path f data n rule: write_all.induct)
  case (1 env path f data n)
  show ?case
  proof (cases "n < length data")
    case True
    then have "\<not> env_pwrite env path (length f) (length data - n) \<le> 0" using "1.prems" [of "length data - n"] by (simp add: not_le)
    then show ?thesis using "1.IH" [OF True refl] "1.prems" True by (subst write_all.simps) (simp add: Let_def)
  next
    case False
    then show ?thesis by (subst write_all.simps) simp
  qed
qed

lemma WriteToFile_succeeds:
  assumes "\<And>path off n. 0 < n \<Longrightarrow> 0 < env_pwrite env path off n" and "\<And>path. env_open env path" and "\<And>a b. env_rename env a b"
  shows "ok (fst (Manifest_WriteToFile env fs m dir))"
  using write_all_progress [of env "dir @ ''/MANIFEST.tmp''" "[]" "snapshot_content m" 0, OF assms(1)] assms(2,3)
  by (auto simp: Manifest_WriteToFile_def Let_def split: prod.splits)

lemma UpdateManifest_succeeds:
  assumes "\<And>path off n. 0 < n \<Longrightarrow> 0 < env_pwrite env path off n" and "\<And>path. env_open env path" and "\<And>a b. env_rename env a b"
  shows "ok (fst (DBImpl_UpdateManifest env dir last_seq next_file_id d))"
proof -
  have "ok (fst (DBImpl_WriteManifestSnapshotLocked env dir d))" for d
    using WriteToFile_succeeds [OF assms, of "dm_fs d" "dm_manifest d" dir]
    by (auto simp: DBImpl_WriteManifestSnapshotLocked_def Let_def split: prod.splits)
  then show ?thesis by (auto simp: DBImpl_UpdateManifest_def Let_def split: prod.splits)
qed

lemma Env_good_succeeds: "ok (fst (DBImpl_UpdateManifest Env_good dir last_seq next_file_id d))"
  by (rule UpdateManifest_succeeds) (simp_all add: Env_good_def)

text \<open>A first update with one file at level 0, then the edit of a compaction that moves it to level 1.\<close>

definition demo_first :: ManifestState where
  "demo_first = \<lparr>dm_manifest = Manifest_AddFile Manifest_new 0 1 [97] [98] 7, dm_written = False, dm_dirty = False,
     dm_fs = Map.empty\<rparr>"

definition demo_state :: ManifestState where
  "demo_state =
     (let d = snd (DBImpl_UpdateManifest Env_good ''d'' 5 2 demo_first);
          d = d\<lparr>dm_manifest := Manifest_AddFile (dm_manifest d) 1 2 [97] [98] 7\<rparr>
      in d\<lparr>dm_manifest := Manifest_RemoveFile (dm_manifest d) 0 1\<rparr>)"

lemma no_files_eq: "no_files = [[], [], [], [], [], [], []]"
  by (simp add: no_files_def kNumLevels_7 eval_nat_numeral)

lemmas demo_simps = Manifest_AddFile_def Manifest_RecordAdd_def Manifest_RemoveFile_def Manifest_RecordRemove_def
  push_file_def erase_file_def no_files_eq kNumLevels_7

lemma demo_first_reach: "manifest_reach ''d'' demo_first"
  using manifest_reach.add [OF manifest_reach.fresh [of "''d''" Map.empty], of "[97]" "[98]" 0 1 7] by (simp add: demo_first_def)

lemma demo_first_files: "map (map fm_file_id) (mf_files (dm_manifest demo_first)) = [[1], [], [], [], [], [], []]"
  and demo_first_small: "small_levels (mf_files (dm_manifest demo_first))"
  by (simp_all add: demo_first_def demo_simps Manifest_new_def small_levels_def)

lemma demo_state_facts:
  "manifest_reach ''d'' demo_state" "small_levels (mf_files (dm_manifest demo_state))"
  "map (map fm_file_id) (mf_files (dm_manifest demo_state)) = [[], [2], [], [], [], [], []]"
proof -
  let ?d2 = "snd (DBImpl_UpdateManifest Env_good ''d'' 5 2 demo_first)"
  let ?d3 = "?d2\<lparr>dm_manifest := Manifest_AddFile (dm_manifest ?d2) 1 2 [97] [98] 7\<rparr>"
  let ?f = "\<lparr>fm_file_id = 1, fm_level = 0, fm_smallest_key = [97], fm_largest_key = [98], fm_file_size = 7\<rparr>"
  have d2: "manifest_saved ''d'' ?d2" "mf_files (dm_manifest ?d2) = mf_files (dm_manifest demo_first)"
    using UpdateManifest_result [OF manifest_reach_inv [OF demo_first_reach] demo_first_small Env_good_pwrite_ok, of 5 2]
      Env_good_succeeds [of "''d''" 5 2 demo_first] by (metis prod.collapse)+
  have f2: "mf_files (dm_manifest ?d2) = [[?f], [], [], [], [], [], []]"
    unfolding d2(2) by (simp add: demo_first_def demo_simps Manifest_new_def)
  have p2: "mf_pending_adds (dm_manifest ?d2) = no_files" using d2(1) by (simp add: manifest_saved_def)
  have "manifest_reach ''d'' ?d2"
    by (rule manifest_reach.update [OF demo_first_reach Env_good_pwrite_ok demo_first_small])
  then have "manifest_reach ''d'' ?d3" by (rule manifest_reach.add) simp_all
  moreover have "1 \<notin> fm_file_id ` set (mf_pending_adds (dm_manifest ?d3) ! nat 0)"
    by (simp add: demo_simps p2)
  ultimately have "manifest_reach ''d'' (?d3\<lparr>dm_manifest := Manifest_RemoveFile (dm_manifest ?d3) 0 1\<rparr>)"
    by (intro manifest_reach.remove) simp_all
  then show "manifest_reach ''d'' demo_state" by (simp add: demo_state_def Let_def)
  have "mf_files (dm_manifest demo_state) = [[], [?f\<lparr>fm_file_id := 2, fm_level := 1\<rparr>], [], [], [], [], []]"
    by (simp add: demo_state_def demo_simps f2 Let_def)
  then show "small_levels (mf_files (dm_manifest demo_state))"
    "map (map fm_file_id) (mf_files (dm_manifest demo_state)) = [[], [2], [], [], [], [], []]"
    by (simp_all add: small_levels_def)
qed


fun decimal :: "bytes \<Rightarrow> nat \<Rightarrow> nat" where
  "decimal [] v = v"
| "decimal (c # s) v = decimal s (v * 10 + (unat c - 48))"

lemma decimal_ge: "v \<le> decimal s v"
  by (induction s v rule: decimal.induct) auto

lemma ParseU64_step:
  fixes v :: u64 and c :: byte
  assumes "is_digit c"
  shows "((- 1 - ucast (c - 48)) div 10 < v) \<longleftrightarrow> 2 ^ 64 \<le> unat v * 10 + (unat c - 48)"
    and "unat v * 10 + (unat c - 48) < 2 ^ 64 \<Longrightarrow> unat (v * 10 + ucast (c - 48)) = unat v * 10 + (unat c - 48)"
proof -
  have c: "48 \<le> unat c" "unat c \<le> 57" using assms by (simp_all add: is_digit_def word_le_nat_alt)
  have d: "unat (c - 48) = unat c - 48" using c by (simp add: unat_sub word_le_nat_alt)
  have u: "unat (ucast (c - 48) :: u64) = unat c - 48" using d c by (simp add: unsigned_ucast_eq take_bit_nat_eq_self)
  have "unat (- 1 - ucast (c - 48) :: u64) = 2 ^ 64 - 1 - (unat c - 48)"
    using c u by (subst unat_sub) (simp_all add: word_le_nat_alt unsigned_minus_1_eq_mask mask_eq_exp_minus_1)
  then have "unat ((- 1 - ucast (c - 48)) div 10 :: u64) = (2 ^ 64 - 1 - (unat c - 48)) div 10"
    by (simp add: unat_div)
  then show "((- 1 - ucast (c - 48)) div 10 < v) \<longleftrightarrow> 2 ^ 64 \<le> unat v * 10 + (unat c - 48)"
    using c by (simp add: word_less_nat_alt) arith
  show "unat v * 10 + (unat c - 48) < 2 ^ 64 \<Longrightarrow> unat (v * 10 + ucast (c - 48)) = unat v * 10 + (unat c - 48)"
    using u by (simp add: unat_word_ariths)
qed

lemma ParseU64_loop_eq:
  "ParseU64_loop s v = (if list_all is_digit s \<and> decimal s (unat v) < 2 ^ 64 then Some (word_of_nat (decimal s (unat v))) else None)"
proof (induction s arbitrary: v)
  case Nil
  then show ?case using unat_u64_less [of v] by simp
next
  case (Cons c s)
  show ?case
  proof (cases "is_digit c")
    case False
    then show ?thesis by (auto simp: is_digit_def not_le)
  next
    case True
    then have nd: "\<not> (c < 48 \<or> 57 < c)" by (auto simp: is_digit_def)
    show ?thesis
    proof (cases "2 ^ 64 \<le> unat v * 10 + (unat c - 48)")
      case big: True
      then have "\<not> decimal (c # s) (unat v) < 2 ^ 64"
        using decimal_ge [of "unat v * 10 + (unat c - 48)" s] by simp
      then show ?thesis using nd big ParseU64_step(1) [OF True, of v] by (simp add: Let_def del: decimal.simps)
    next
      case small: False
      then have "unat (v * 10 + ucast (c - 48)) = unat v * 10 + (unat c - 48)"
        using ParseU64_step(2) [OF True, of v] by simp
      then show ?thesis using nd small ParseU64_step(1) [OF True, of v] Cons.IH [of "v * 10 + ucast (c - 48)"] True
        by (simp add: Let_def)
    qed
  qed
qed

text \<open>C35: \<open>ParseU64\<close> accepts exactly the non-empty strings of decimal digits whose value fits
  into 64 bits, and returns that value: the overflow check is exact.\<close>

theorem ParseU64_exact:
  "ParseU64 s = (if s \<noteq> [] \<and> list_all is_digit s \<and> decimal s 0 < 2 ^ 64 then Some (word_of_nat (decimal s 0)) else None)"
  by (simp add: ParseU64_def ParseU64_loop_eq)

subsection \<open>Two ways to lose an update\<close>

lemma FoldThreshold_ge: "64 \<le> Manifest_FoldThreshold m"
  by (simp add: Manifest_FoldThreshold_def Let_def kMinAppendRecords_def kMaxAppendRecords_def)

lemma AppendChanges_appends:
  assumes "fs (dir @ ''/MANIFEST'') = Some old" and "old \<noteq> []" and "mf_appended_records m < 64"
  shows "Manifest_AppendChanges Env_good fs m dir = (Status_OK, m\<lparr>mf_pending_adds := no_files, mf_pending_removals := [],
           mf_appended_records := mf_appended_records m + 1\<rparr>, fs(dir @ ''/MANIFEST'' \<mapsto> old @ append_frame m))"
proof -
  obtain b f where w: "write_all Env_good (dir @ ''/MANIFEST'') old (append_frame m) 0 = (b, f)" by fastforce
  moreover have "b" using write_all_progress [of Env_good "dir @ ''/MANIFEST''" old "append_frame m" 0] w by (simp add: Env_good_def)
  moreover have "f = old @ append_frame m" using write_all_ok [OF Env_good_pwrite_ok, of _ old _ 0 f] w calculation(2) by auto
  ultimately show ?thesis using assms FoldThreshold_ge [of m]
    by (simp add: Manifest_AppendChanges_def Let_def) (simp add: Env_good_def)
qed

text \<open>A directory in the older text format.\<close>

definition legacy_manifest :: bytes where
  "legacy_manifest = bytes_of (''format_version: 1'' @ [CHR 0x0A] @ ''last_seq: 5'' @ [CHR 0x0A] @ ''next_file_id: 2'' @ [CHR 0x0A]
     @ ''---'' @ [CHR 0x0A] @ ''Level 0:'' @ [CHR 0x0A] @ ''  file: 1.sst, range: [a, b], size: 10'' @ [CHR 0x0A])"

definition legacy_fs :: fs where
  "legacy_fs = [''d/MANIFEST'' \<mapsto> legacy_manifest]"

definition legacy_read :: Manifest where
  "legacy_read = snd (ReadLegacy (SplitString legacy_manifest 10) False (- 1) Manifest_new)"

definition legacy_frame :: bytes where
  "legacy_frame = append_frame ((Manifest_AddFile legacy_read 0 2 [99] [100] 7)\<lparr>mf_last_seq := 9, mf_next_file_id := 3\<rparr>)"

lemma legacy_reads:
  "fst (ReadLegacy (SplitString legacy_manifest 10) False (- 1) Manifest_new) = Status_OK"
  "map (map fm_file_id) (mf_files legacy_read) = [[1], [], [], [], [], [], []]"
  "mf_appended_records legacy_read = 0"
  "take 4 legacy_manifest \<noteq> kAppendMagic" "legacy_manifest \<noteq> []"
  by code_simp+

lemma legacy_appended_reads:
  "fst (ReadLegacy (SplitString (legacy_manifest @ legacy_frame) 10) False (- 1) Manifest_new) = Status_OK"
  "map (map fm_file_id) (mf_files (snd (ReadLegacy (SplitString (legacy_manifest @ legacy_frame) 10) False (- 1) Manifest_new)))
     = [[1], [], [], [], [], [], []]"
  by code_simp+

text \<open>C37: A directory in the older text format: it opens, the next update appends a binary frame to
  the text file and reports OK, and the next open, which reads the file as text again, knows
  nothing of that update: the table it added (file 2) is lost.\<close>

theorem manifest_legacy_update_lost:
  "\<exists>m d d' m'. Manifest_ReadFromFile Env_good legacy_fs Manifest_new ''d'' = (Status_OK, m)
     \<and> d = \<lparr>dm_manifest = Manifest_AddFile m 0 2 [99] [100] 7, dm_written = True, dm_dirty = False, dm_fs = legacy_fs\<rparr>
     \<and> DBImpl_UpdateManifest Env_good ''d'' 9 3 d = (Status_OK, d')
     \<and> map (map fm_file_id) (mf_files (dm_manifest d')) = [[1, 2], [], [], [], [], [], []]
     \<and> Manifest_ReadFromFile Env_good (dm_fs d') Manifest_new ''d'' = (Status_OK, m')
     \<and> map (map fm_file_id) (mf_files m') = [[1], [], [], [], [], [], []]"
proof -
  have n: "Manifest_new\<lparr>mf_files := no_files\<rparr> = Manifest_new" by (simp add: Manifest_new_def)
  have r: "Manifest_ReadFromFile Env_good fs Manifest_new ''d'' = ReadLegacy (SplitString data 10) False (- 1) Manifest_new"
    if "fs ''d/MANIFEST'' = Some data" "take 4 data \<noteq> kAppendMagic" for fs data
    using that n by (simp add: Manifest_ReadFromFile_def Env_good_def Let_def)
  have m: "Manifest_ReadFromFile Env_good legacy_fs Manifest_new ''d'' = (Status_OK, legacy_read)"
    using r [of legacy_fs legacy_manifest] legacy_reads(1,4) by (simp add: legacy_fs_def legacy_read_def prod_eq_iff)
  let ?m = "Manifest_AddFile legacy_read 0 2 [99] [100] 7"
  let ?m1 = "?m\<lparr>mf_last_seq := 9, mf_next_file_id := 3\<rparr>"
  let ?d = "\<lparr>dm_manifest = ?m, dm_written = True, dm_dirty = False, dm_fs = legacy_fs\<rparr>"
  have fs: "mf_files ?m1 = push_file 0 \<lparr>fm_file_id = 2, fm_level = 0, fm_smallest_key = [99], fm_largest_key = [100], fm_file_size = 7\<rparr> (mf_files legacy_read)"
      "mf_appended_records ?m1 < 64"
    using legacy_reads(3) by (simp_all add: demo_simps)
  have "fst (DBImpl_UpdateManifest Env_good ''d'' 9 3 ?d) = Status_OK"
      and d': "dm_fs (snd (DBImpl_UpdateManifest Env_good ''d'' 9 3 ?d)) ''d/MANIFEST'' = Some (legacy_manifest @ legacy_frame)"
        "mf_files (dm_manifest (snd (DBImpl_UpdateManifest Env_good ''d'' 9 3 ?d))) = mf_files ?m1"
    using AppendChanges_appends [of legacy_fs "''d''" legacy_manifest ?m1] legacy_reads(5) fs(2)
    by (simp_all add: DBImpl_UpdateManifest_def legacy_fs_def legacy_frame_def Let_def)
  moreover have "map (map fm_file_id) (mf_files ?m1) = [[1, 2], [], [], [], [], [], []]"
    using legacy_reads(2) unfolding fs(1) by (auto simp: push_file_def)
  moreover have "take 4 (legacy_manifest @ legacy_frame) \<noteq> kAppendMagic"
    using legacy_reads(4) by (simp add: legacy_manifest_def bytes_of_def)
  ultimately show ?thesis
    using m r [of "dm_fs (snd (DBImpl_UpdateManifest Env_good ''d'' 9 3 ?d))" "legacy_manifest @ legacy_frame"] legacy_appended_reads
    by (intro exI [of _ legacy_read] exI [of _ ?d] exI [of _ "snd (DBImpl_UpdateManifest Env_good ''d'' 9 3 ?d)"]
        exI [of _ "snd (ReadLegacy (SplitString (legacy_manifest @ legacy_frame) 10) False (- 1) Manifest_new)"])
      (auto simp: prod_eq_iff)
qed


end
