(* ===== verification/Lkv_SkipList.thy ===== *)
theory Lkv_SkipList
  imports Lkv_Slice "HOL-Library.Monad_Syntax" "HOL-Library.Multiset"
begin

section \<open>The skip list (skiplist.h)\<close>

text \<open>
  The heap of the list is the sequence of the nodes allocated so far; an address is an index into
  it, a null pointer is \<open>None\<close>, and the arena never gives memory back. The template parameter
  \<open>kRanked\<close> is an argument: a ranked list carries a span beside each pointer, the number of
  nodes the pointer skips. An access to a node, a pointer or a span that does not exist has no
  result (\<open>None\<close>), and so has a walk that does not end. The random number generator is a
  state and a function that draws from it.

  \<open>sl_rep\<close> relates a list to the sequence of its nodes: every level links exactly the nodes of
  at least that height, in order, and the spans count what lies between. The lemmas show that the
  operations never leave the allocated nodes, that they end, and that they act on the sequence as
  insertion before the first key not smaller, deletion, search and position do.
\<close>

subsection \<open>Nodes\<close>

type_synonym addr = nat

record ('k, 'v) Node =
  nd_key :: 'k
  nd_value :: 'v
  nd_seq :: u64
  nd_height :: nat
  nd_is_deleted :: bool
  nd_next :: "addr option list"
  nd_span :: "u64 list"

type_synonym ('k, 'v) heap = "('k, 'v) Node list"

definition kMaxHeight :: nat where "kMaxHeight = 12"
definition kBranching :: u32 where "kBranching = 4"

definition Node_Next :: "('k, 'v) heap \<Rightarrow> addr \<Rightarrow> nat \<Rightarrow> addr option option" where
  "Node_Next h a n = (if a < length h \<and> n < length (nd_next (h ! a)) then Some (nd_next (h ! a) ! n) else None)"

definition Node_SetNext :: "('k, 'v) heap \<Rightarrow> addr \<Rightarrow> nat \<Rightarrow> addr option \<Rightarrow> ('k, 'v) heap option" where
  "Node_SetNext h a n node =
     (if a < length h \<and> n < length (nd_next (h ! a))
      then Some (h[a := (h ! a)\<lparr>nd_next := (nd_next (h ! a))[n := node]\<rparr>]) else None)"

definition Node_Span :: "bool \<Rightarrow> ('k, 'v) heap \<Rightarrow> addr \<Rightarrow> nat \<Rightarrow> u64 option" where
  "Node_Span kRanked h a n =
     (if \<not> kRanked then Some 0
      else if a < length h \<and> n < length (nd_span (h ! a)) then Some (nd_span (h ! a) ! n) else None)"

definition Node_SetSpan :: "bool \<Rightarrow> ('k, 'v) heap \<Rightarrow> addr \<Rightarrow> nat \<Rightarrow> u64 \<Rightarrow> ('k, 'v) heap option" where
  "Node_SetSpan kRanked h a n v =
     (if \<not> kRanked then Some h
      else if a < length h \<and> n < length (nd_span (h ! a))
      then Some (h[a := (h ! a)\<lparr>nd_span := (nd_span (h ! a))[n := v]\<rparr>]) else None)"

definition Node_key :: "('k, 'v) heap \<Rightarrow> addr \<Rightarrow> 'k option" where
  "Node_key h a = (if a < length h then Some (nd_key (h ! a)) else None)"

definition NewNode :: "bool \<Rightarrow> 'k \<Rightarrow> 'v \<Rightarrow> u64 \<Rightarrow> nat \<Rightarrow> ('k, 'v) Node" where
  "NewNode kRanked key value seq height =
     \<lparr>nd_key = key, nd_value = value, nd_seq = seq, nd_height = height, nd_is_deleted = False,
      nd_next = replicate height None, nd_span = (if kRanked then replicate height 0 else [])\<rparr>"

definition Equal :: "'k::linorder \<Rightarrow> 'k \<Rightarrow> bool" where
  "Equal a b \<longleftrightarrow> \<not> a < b \<and> \<not> b < a"

subsection \<open>The list\<close>

record ('k, 'v, 'g) SkipList =
  sl_head :: addr
  sl_max_height :: nat
  sl_rng :: 'g
  sl_heap :: "('k, 'v) heap"

definition SkipList_new :: "bool \<Rightarrow> 'k \<Rightarrow> 'v \<Rightarrow> 'g \<Rightarrow> ('k, 'v, 'g) SkipList" where
  "SkipList_new kRanked key0 value0 rng =
     \<lparr>sl_head = 0, sl_max_height = 1, sl_rng = rng, sl_heap = [NewNode kRanked key0 value0 0 kMaxHeight]\<rparr>"

text \<open>\<open>while (h < kMaxHeight && (rng_() % kBranching == 0)) ++h\<close>; the first argument is the
  number of iterations left.\<close>

fun RandomHeight_loop :: "('g \<Rightarrow> u32 \<times> 'g) \<Rightarrow> nat \<Rightarrow> nat \<Rightarrow> 'g \<Rightarrow> nat \<times> 'g" where
  "RandomHeight_loop draw 0 h g = (h, g)"
| "RandomHeight_loop draw (Suc n) h g =
     (let (r, g) = draw g in if r mod kBranching = 0 then RandomHeight_loop draw n (h + 1) g else (h, g))"

definition RandomHeight :: "('g \<Rightarrow> u32 \<times> 'g) \<Rightarrow> 'g \<Rightarrow> nat \<times> 'g" where
  "RandomHeight draw g = RandomHeight_loop draw (kMaxHeight - 1) 1 g"

text \<open>The inner loop of every operation: along one level while the next key is smaller. The
  position \<open>rank\<close> of the current node is kept on ranked lists.\<close>

partial_function (option) walk ::
  "bool \<Rightarrow> ('k::linorder, 'v) heap \<Rightarrow> nat \<Rightarrow> 'k \<Rightarrow> addr \<Rightarrow> int \<Rightarrow> (addr \<times> int) option" where
  "walk kRanked h i key cur rank = do {
     next \<leftarrow> Node_Next h cur i;
     (case next of
        None \<Rightarrow> Some (cur, rank)
      | Some next \<Rightarrow> do {
          k \<leftarrow> Node_key h next;
          if k < key
          then do {
            span \<leftarrow> Node_Span kRanked h cur i;
            walk kRanked h i key next (if kRanked then rank + (sint span + 1) else rank)
          }
          else Some (cur, rank)
        })
   }"

text \<open>The outer loop, from level \<open>n - 1\<close> down to 0: \<open>prev[i]\<close> and \<open>rank[i]\<close> of the levels.\<close>

fun find_prev :: "bool \<Rightarrow> ('k::linorder, 'v) heap \<Rightarrow> 'k \<Rightarrow> nat \<Rightarrow> addr \<Rightarrow> int \<Rightarrow> (addr \<times> int) list option" where
  "find_prev kRanked h key 0 cur rank = Some []"
| "find_prev kRanked h key (Suc i) cur rank = do {
     (cur, rank) \<leftarrow> walk kRanked h i key cur rank;
     ps \<leftarrow> find_prev kRanked h key i cur rank;
     Some (ps @ [(cur, rank)])
   }"

text \<open>Linking the new node on one level, and the correction of the hops above it.\<close>

definition link_level :: "bool \<Rightarrow> addr \<Rightarrow> (addr \<times> int) list \<Rightarrow> nat \<Rightarrow> ('k, 'v) heap \<Rightarrow> ('k, 'v) heap option" where
  "link_level kRanked node prev i h = do {
     let (p, rank_i) = prev ! i;
     next \<leftarrow> Node_Next h p i;
     span_before \<leftarrow> Node_Span kRanked h p i;
     h \<leftarrow> Node_SetNext h node i next;
     h \<leftarrow> Node_SetNext h p i (Some node);
     let skipped = word_of_int (snd (prev ! 0) - rank_i);
     h \<leftarrow> Node_SetSpan kRanked h p i skipped;
     Node_SetSpan kRanked h node i (if next \<noteq> None then span_before - skipped else 0)
   }"

fun link_levels :: "bool \<Rightarrow> addr \<Rightarrow> (addr \<times> int) list \<Rightarrow> nat list \<Rightarrow> ('k, 'v) heap \<Rightarrow> ('k, 'v) heap option" where
  "link_levels kRanked node prev [] h = Some h"
| "link_levels kRanked node prev (i # is) h = do {
     h \<leftarrow> link_level kRanked node prev i h;
     link_levels kRanked node prev is h
   }"

fun adjust_spans :: "bool \<Rightarrow> u64 \<Rightarrow> (addr \<times> int) list \<Rightarrow> nat list \<Rightarrow> ('k, 'v) heap \<Rightarrow> ('k, 'v) heap option" where
  "adjust_spans kRanked delta prev [] h = Some h"
| "adjust_spans kRanked delta prev (i # is) h = do {
     next \<leftarrow> Node_Next h (fst (prev ! i)) i;
     span \<leftarrow> Node_Span kRanked h (fst (prev ! i)) i;
     h \<leftarrow> (if next \<noteq> None then Node_SetSpan kRanked h (fst (prev ! i)) i (span + delta) else Some h);
     adjust_spans kRanked delta prev is h
   }"

definition SkipList_Insert ::
  "bool \<Rightarrow> ('g \<Rightarrow> u32 \<times> 'g) \<Rightarrow> ('k::linorder, 'v, 'g) SkipList \<Rightarrow> 'k \<Rightarrow> 'v \<Rightarrow> u64 \<Rightarrow> ('k, 'v, 'g) SkipList option" where
  "SkipList_Insert kRanked draw s key value seq = do {
     let cur_height = sl_max_height s;
     prev \<leftarrow> find_prev kRanked (sl_heap s) key cur_height (sl_head s) (- 1);
     let (height, rng) = RandomHeight draw (sl_rng s);
     let prev = prev @ replicate (height - cur_height) (sl_head s, - 1);
     let max_height = (if cur_height < height then height else cur_height);
     let node = length (sl_heap s);
     h \<leftarrow> link_levels kRanked node prev [0..<height] (sl_heap s @ [NewNode kRanked key value seq height]);
     h \<leftarrow> (if kRanked then adjust_spans kRanked 1 prev [height..<cur_height] h else Some h);
     Some (s\<lparr>sl_max_height := max_height, sl_rng := rng, sl_heap := h\<rparr>)
   }"

text \<open>\<open>InsertDeletion\<close> and the overloads that take a \<open>std::string_view\<close> link the node like an
  unranked insertion and never touch the spans of the list.\<close>

definition insert_plain ::
  "('g \<Rightarrow> u32 \<times> 'g) \<Rightarrow> ('k::linorder, 'v, 'g) SkipList \<Rightarrow> 'k \<Rightarrow> (nat \<Rightarrow> ('k, 'v) Node) \<Rightarrow> ('k, 'v, 'g) SkipList option" where
  "insert_plain draw s key new_node = do {
     let cur_height = sl_max_height s;
     prev \<leftarrow> find_prev False (sl_heap s) key cur_height (sl_head s) (- 1);
     let (height, rng) = RandomHeight draw (sl_rng s);
     let prev = prev @ replicate (height - cur_height) (sl_head s, - 1);
     let max_height = (if cur_height < height then height else cur_height);
     let node = length (sl_heap s);
     h \<leftarrow> link_levels False node prev [0..<height] (sl_heap s @ [new_node height]);
     Some (s\<lparr>sl_max_height := max_height, sl_rng := rng, sl_heap := h\<rparr>)
   }"

definition SkipList_InsertDeletion ::
  "bool \<Rightarrow> ('g \<Rightarrow> u32 \<times> 'g) \<Rightarrow> 'v \<Rightarrow> ('k::linorder, 'v, 'g) SkipList \<Rightarrow> 'k \<Rightarrow> u64 \<Rightarrow> ('k, 'v, 'g) SkipList option" where
  "SkipList_InsertDeletion kRanked draw value0 s key seq =
     insert_plain draw s key (\<lambda>height. (NewNode kRanked key value0 seq height)\<lparr>nd_is_deleted := True\<rparr>)"

definition SkipList_Insert_view ::
  "bool \<Rightarrow> ('g \<Rightarrow> u32 \<times> 'g) \<Rightarrow> (bytes, bytes, 'g) SkipList \<Rightarrow> bytes \<Rightarrow> bytes \<Rightarrow> u64 \<Rightarrow> (bytes, bytes, 'g) SkipList option" where
  "SkipList_Insert_view kRanked draw s key value seq =
     insert_plain draw s key (NewNode kRanked key value seq)"

definition SkipList_InsertDeletion_view ::
  "bool \<Rightarrow> ('g \<Rightarrow> u32 \<times> 'g) \<Rightarrow> (bytes, bytes, 'g) SkipList \<Rightarrow> bytes \<Rightarrow> u64 \<Rightarrow> (bytes, bytes, 'g) SkipList option" where
  "SkipList_InsertDeletion_view kRanked draw s key seq =
     insert_plain draw s key (\<lambda>height. (NewNode kRanked key [] seq height)\<lparr>nd_is_deleted := True\<rparr>)"

definition unlink_level :: "bool \<Rightarrow> addr \<Rightarrow> (addr \<times> int) list \<Rightarrow> nat \<Rightarrow> ('k, 'v) heap \<Rightarrow> ('k, 'v) heap option" where
  "unlink_level kRanked target prev i h = do {
     let p = fst (prev ! i);
     next \<leftarrow> Node_Next h target i;
     h \<leftarrow> Node_SetNext h p i next;
     span \<leftarrow> Node_Span kRanked h p i;
     span' \<leftarrow> Node_Span kRanked h target i;
     Node_SetSpan kRanked h p i (if next \<noteq> None then span + span' else 0)
   }"

fun unlink_levels :: "bool \<Rightarrow> addr \<Rightarrow> (addr \<times> int) list \<Rightarrow> nat list \<Rightarrow> ('k, 'v) heap \<Rightarrow> ('k, 'v) heap option" where
  "unlink_levels kRanked target prev [] h = Some h"
| "unlink_levels kRanked target prev (i # is) h = do {
     h \<leftarrow> unlink_level kRanked target prev i h;
     unlink_levels kRanked target prev is h
   }"

text \<open>The destructors that run on the unlinked node have no effect on the list.\<close>

definition SkipList_Erase ::
  "bool \<Rightarrow> ('k::linorder, 'v, 'g) SkipList \<Rightarrow> 'k \<Rightarrow> (bool \<times> ('k, 'v, 'g) SkipList) option" where
  "SkipList_Erase kRanked s key = do {
     let cur_height = sl_max_height s;
     prev \<leftarrow> find_prev False (sl_heap s) key cur_height (sl_head s) (- 1);
     target \<leftarrow> Node_Next (sl_heap s) (fst (prev ! 0)) 0;
     (case target of
        None \<Rightarrow> Some (False, s)
      | Some target \<Rightarrow> do {
          k \<leftarrow> Node_key (sl_heap s) target;
          if \<not> Equal k key then Some (False, s)
          else do {
            let height = nd_height (sl_heap s ! target);
            h \<leftarrow> unlink_levels kRanked target prev [0..<height] (sl_heap s);
            h \<leftarrow> (if kRanked then adjust_spans kRanked (- 1) prev [height..<cur_height] h else Some h);
            Some (True, s\<lparr>sl_heap := h\<rparr>)
          }
        })
   }"

definition SkipList_RankOf :: "('k::linorder, 'v, 'g) SkipList \<Rightarrow> 'k \<Rightarrow> int option" where
  "SkipList_RankOf s key = do {
     prev \<leftarrow> find_prev True (sl_heap s) key (sl_max_height s) (sl_head s) (- 1);
     let (cur, pos) = prev ! 0;
     first \<leftarrow> Node_Next (sl_heap s) cur 0;
     (case first of
        None \<Rightarrow> Some (- 1)
      | Some first \<Rightarrow> do {
          k \<leftarrow> Node_key (sl_heap s) first;
          if \<not> Equal k key then Some (- 1) else Some (pos + 1)
        })
   }"

partial_function (option) walk_rank :: "('k, 'v) heap \<Rightarrow> nat \<Rightarrow> u64 \<Rightarrow> addr \<Rightarrow> int \<Rightarrow> (addr \<times> int) option" where
  "walk_rank h i k cur pos = do {
     next \<leftarrow> Node_Next h cur i;
     (case next of
        None \<Rightarrow> Some (cur, pos)
      | Some next \<Rightarrow> do {
          span \<leftarrow> Node_Span True h cur i;
          let next_pos = pos + sint span + 1;
          if sint k < next_pos then Some (cur, pos) else walk_rank h i k next next_pos
        })
   }"

fun find_rank :: "('k, 'v) heap \<Rightarrow> u64 \<Rightarrow> nat \<Rightarrow> addr \<Rightarrow> int \<Rightarrow> (addr \<times> int) option" where
  "find_rank h k 0 cur pos = Some (cur, pos)"
| "find_rank h k (Suc i) cur pos = do {
     (cur, pos) \<leftarrow> walk_rank h i k cur pos;
     find_rank h k i cur pos
   }"

text \<open>An iterator is a pointer to a node.\<close>

definition SkipList_SeekToRank :: "('k, 'v, 'g) SkipList \<Rightarrow> u64 \<Rightarrow> addr option option" where
  "SkipList_SeekToRank s k = do {
     (cur, pos) \<leftarrow> find_rank (sl_heap s) k (sl_max_height s) (sl_head s) (- 1);
     if cur = sl_head s \<or> pos \<noteq> sint k then Some None else Some (Some cur)
   }"

definition SkipList_SeekGE :: "('k::linorder, 'v, 'g) SkipList \<Rightarrow> 'k \<Rightarrow> addr option option" where
  "SkipList_SeekGE s key = do {
     prev \<leftarrow> find_prev False (sl_heap s) key (sl_max_height s) (sl_head s) (- 1);
     Node_Next (sl_heap s) (fst (prev ! 0)) 0
   }"

definition SkipList_Find :: "('k::linorder, 'v, 'g) SkipList \<Rightarrow> 'k \<Rightarrow> addr option option" where
  "SkipList_Find s key = do {
     prev \<leftarrow> find_prev False (sl_heap s) key (sl_max_height s) (sl_head s) (- 1);
     cur \<leftarrow> Node_Next (sl_heap s) (fst (prev ! 0)) 0;
     (case cur of
        None \<Rightarrow> Some None
      | Some cur \<Rightarrow> do {
          k \<leftarrow> Node_key (sl_heap s) cur;
          Some (if Equal k key then Some cur else None)
        })
   }"

definition SkipList_Contains :: "('k::linorder, 'v, 'g) SkipList \<Rightarrow> 'k \<Rightarrow> bool option" where
  "SkipList_Contains s key = do {
     prev \<leftarrow> find_prev False (sl_heap s) key (sl_max_height s) (sl_head s) (- 1);
     cur \<leftarrow> Node_Next (sl_heap s) (fst (prev ! 0)) 0;
     (case cur of
        None \<Rightarrow> Some False
      | Some cur \<Rightarrow> do {
          k \<leftarrow> Node_key (sl_heap s) cur;
          Some (Equal k key)
        })
   }"

definition SkipList_Contains_view :: "(bytes, 'v, 'g) SkipList \<Rightarrow> bytes \<Rightarrow> bool option" where
  "SkipList_Contains_view s key = do {
     prev \<leftarrow> find_prev False (sl_heap s) key (sl_max_height s) (sl_head s) (- 1);
     cur \<leftarrow> Node_Next (sl_heap s) (fst (prev ! 0)) 0;
     (case cur of
        None \<Rightarrow> Some False
      | Some cur \<Rightarrow> do {
          k \<leftarrow> Node_key (sl_heap s) cur;
          Some (k = key)
        })
   }"

definition SkipList_Find_view :: "(bytes, 'v, 'g) SkipList \<Rightarrow> bytes \<Rightarrow> addr option option" where
  "SkipList_Find_view s key = do {
     prev \<leftarrow> find_prev False (sl_heap s) key (sl_max_height s) (sl_head s) (- 1);
     cur \<leftarrow> Node_Next (sl_heap s) (fst (prev ! 0)) 0;
     (case cur of
        None \<Rightarrow> Some None
      | Some cur \<Rightarrow> do {
          k \<leftarrow> Node_key (sl_heap s) cur;
          Some (if k = key then Some cur else None)
        })
   }"

definition SkipList_SeekGE_view :: "(bytes, 'v, 'g) SkipList \<Rightarrow> bytes \<Rightarrow> addr option option" where
  "SkipList_SeekGE_view s key = do {
     prev \<leftarrow> find_prev False (sl_heap s) key (sl_max_height s) (sl_head s) (- 1);
     Node_Next (sl_heap s) (fst (prev ! 0)) 0
   }"

definition SkipList_SeekToFirst :: "('k, 'v, 'g) SkipList \<Rightarrow> addr option option" where
  "SkipList_SeekToFirst s = Node_Next (sl_heap s) (sl_head s) 0"

definition Iterator_Next :: "('k, 'v, 'g) SkipList \<Rightarrow> addr option \<Rightarrow> addr option option" where
  "Iterator_Next s it = (case it of None \<Rightarrow> Some None | Some a \<Rightarrow> Node_Next (sl_heap s) a 0)"

definition Iterator_Valid :: "addr option \<Rightarrow> bool" where "Iterator_Valid it \<longleftrightarrow> it \<noteq> None"

definition Iterator_node :: "('k, 'v, 'g) SkipList \<Rightarrow> addr option \<Rightarrow> ('k, 'v) Node option" where
  "Iterator_node s it = (case it of None \<Rightarrow> None | Some a \<Rightarrow> if a < length (sl_heap s) then Some (sl_heap s ! a) else None)"

definition Iterator_key :: "('k, 'v, 'g) SkipList \<Rightarrow> addr option \<Rightarrow> 'k option" where
  "Iterator_key s it = map_option nd_key (Iterator_node s it)"

definition Iterator_value :: "('k, 'v, 'g) SkipList \<Rightarrow> addr option \<Rightarrow> 'v option" where
  "Iterator_value s it = map_option nd_value (Iterator_node s it)"

definition Iterator_seq :: "('k, 'v, 'g) SkipList \<Rightarrow> addr option \<Rightarrow> u64 option" where
  "Iterator_seq s it = map_option nd_seq (Iterator_node s it)"

definition Iterator_IsDeleted :: "('k, 'v, 'g) SkipList \<Rightarrow> addr option \<Rightarrow> bool option" where
  "Iterator_IsDeleted s it = map_option nd_is_deleted (Iterator_node s it)"

subsection \<open>The arena\<close>

text \<open>The blocks of the arena in the order of their allocation; \<open>head_\<close> is the last one and
  \<open>next\<close> leads from each block to the one before. A pointer is a block and an offset into its
  payload. \<open>bl_array\<close> records that the memory came from \<open>new char[]\<close>, and the destructor is
  the sequence of the ways in which it gives the blocks back.\<close>

record ArenaBlock =
  bl_capacity :: nat
  bl_used :: nat
  bl_array :: bool

record Arena =
  ar_blocks :: "ArenaBlock list"
  ar_current :: "nat option"

definition kArenaBlockSize :: nat where "kArenaBlockSize = 4096"
definition sizeof_Block :: nat where "sizeof_Block = kArenaBlockSize + 8 + 8"
definition Arena_new :: Arena where "Arena_new = \<lparr>ar_blocks = [], ar_current = None\<rparr>"

definition Arena_Allocate :: "Arena \<Rightarrow> nat \<Rightarrow> (nat \<times> nat) \<times> Arena" where
  "Arena_Allocate a n =
     (if kArenaBlockSize div 2 < n
      then ((length (ar_blocks a), 0),
            a\<lparr>ar_blocks := ar_blocks a @ [\<lparr>bl_capacity = n, bl_used = n, bl_array = True\<rparr>]\<rparr>)
      else
        let full = (case ar_current a of None \<Rightarrow> True | Some c \<Rightarrow> kArenaBlockSize < bl_used (ar_blocks a ! c) + n);
            a = (if full
                 then a\<lparr>ar_blocks := ar_blocks a @ [\<lparr>bl_capacity = kArenaBlockSize, bl_used = 0, bl_array = False\<rparr>],
                        ar_current := Some (length (ar_blocks a))\<rparr>
                 else a);
            c = the (ar_current a);
            b = ar_blocks a ! c
        in ((c, bl_used b), a\<lparr>ar_blocks := (ar_blocks a)[c := b\<lparr>bl_used := bl_used b + n\<rparr>]\<rparr>))"

definition Arena_MemoryUsage :: "Arena \<Rightarrow> nat" where
  "Arena_MemoryUsage a =
     sum_list (map (\<lambda>b. sizeof_Block + (if kArenaBlockSize < bl_used b then bl_used b - kArenaBlockSize else 0)) (rev (ar_blocks a)))"

datatype dealloc = DeleteArray | DeleteBlock

definition Arena_delete :: "Arena \<Rightarrow> dealloc list" where
  "Arena_delete a = map (\<lambda>b. if kArenaBlockSize < bl_used b then DeleteArray else DeleteBlock) (rev (ar_blocks a))"

text \<open>\<open>sizeof(Node)\<close> with its one pointer is a parameter.\<close>

definition NodeSize :: "bool \<Rightarrow> nat \<Rightarrow> nat \<Rightarrow> nat" where
  "NodeSize kRanked sizeof_Node height = sizeof_Node + 8 * (height - 1) + (if kRanked then 8 * height else 0)"

subsection \<open>Pointers and spans under updates\<close>

lemma RandomHeight_loop_bounds:
  "RandomHeight_loop draw n h g = (r, g') \<Longrightarrow> h \<le> r \<and> r \<le> h + n"
  by (induction n arbitrary: h g) (fastforce split: prod.splits if_splits)+

lemma RandomHeight_bounds: "RandomHeight draw g = (r, g') \<Longrightarrow> 1 \<le> r \<and> r \<le> kMaxHeight"
  using RandomHeight_loop_bounds [of draw "kMaxHeight - 1" 1 g r g'] by (simp add: RandomHeight_def kMaxHeight_def)

text \<open>The fields that no operation changes.\<close>

definition same_nodes :: "('k, 'v) heap \<Rightarrow> ('k, 'v) heap \<Rightarrow> bool" where
  "same_nodes h h' \<longleftrightarrow> length h' = length h \<and>
     (\<forall>a < length h. nd_key (h' ! a) = nd_key (h ! a) \<and> nd_value (h' ! a) = nd_value (h ! a)
        \<and> nd_seq (h' ! a) = nd_seq (h ! a) \<and> nd_is_deleted (h' ! a) = nd_is_deleted (h ! a)
        \<and> nd_height (h' ! a) = nd_height (h ! a)
        \<and> length (nd_next (h' ! a)) = length (nd_next (h ! a)) \<and> length (nd_span (h' ! a)) = length (nd_span (h ! a)))"

lemma same_nodes_refl [simp]: "same_nodes h h"
  by (simp add: same_nodes_def)

lemma same_nodes_trans: "same_nodes h1 h2 \<Longrightarrow> same_nodes h2 h3 \<Longrightarrow> same_nodes h1 h3"
  by (simp add: same_nodes_def)

lemma SetNext_result:
  assumes "Node_Next h a i \<noteq> None"
  obtains h' where "Node_SetNext h a i v = Some h'" "same_nodes h h'"
    "\<And>b j. Node_Next h' b j = (if b = a \<and> j = i then Some v else Node_Next h b j)"
    "\<And>rk b j. Node_Span rk h' b j = Node_Span rk h b j"
proof -
  have "a < length h" "i < length (nd_next (h ! a))" using assms by (auto simp: Node_Next_def split: if_splits)
  then show thesis
    by (intro that [of "h[a := (h ! a)\<lparr>nd_next := (nd_next (h ! a))[i := v]\<rparr>]"])
      (auto simp: Node_SetNext_def same_nodes_def Node_Next_def Node_Span_def nth_list_update)
qed

lemma SetSpan_result:
  assumes "Node_Span rk h a i \<noteq> None"
  obtains h' where "Node_SetSpan rk h a i v = Some h'" "same_nodes h h'"
    "\<And>b j. Node_Next h' b j = Node_Next h b j"
    "\<And>b j. Node_Span rk h' b j = (if rk \<and> b = a \<and> j = i then Some v else Node_Span rk h b j)"
proof (cases rk)
  case False
  then show thesis by (intro that [of h]) (auto simp: Node_SetSpan_def)
next
  case True
  then have "a < length h" "i < length (nd_span (h ! a))" using assms by (auto simp: Node_Span_def split: if_splits)
  then show thesis using True
    by (intro that [of "h[a := (h ! a)\<lparr>nd_span := (nd_span (h ! a))[i := v]\<rparr>]"])
      (auto simp: Node_SetSpan_def same_nodes_def Node_Next_def Node_Span_def nth_list_update)
qed

subsection \<open>One level of the list\<close>

text \<open>\<open>seg rk h i p d L\<close>: from \<open>p\<close>, with \<open>d\<close> nodes behind it already passed over, level \<open>i\<close>
  links exactly the nodes of \<open>L\<close> that are higher than \<open>i\<close>, and every span of a ranked list
  counts the nodes between. \<open>last_at\<close> is the last node of level \<open>i\<close> in \<open>p # L\<close>, with the
  number of nodes behind it.\<close>

fun seg :: "bool \<Rightarrow> ('k, 'v) heap \<Rightarrow> nat \<Rightarrow> addr \<Rightarrow> nat \<Rightarrow> addr list \<Rightarrow> bool" where
  "seg rk h i p d [] \<longleftrightarrow> Node_Next h p i = Some None \<and> Node_Span rk h p i = Some 0"
| "seg rk h i p d (a # L) \<longleftrightarrow>
     (if i < nd_height (h ! a)
      then Node_Next h p i = Some (Some a) \<and> Node_Span rk h p i = Some (if rk then word_of_nat d else 0) \<and> seg rk h i a 0 L
      else seg rk h i p (Suc d) L)"

fun last_at :: "('k, 'v) heap \<Rightarrow> nat \<Rightarrow> addr \<Rightarrow> nat \<Rightarrow> addr list \<Rightarrow> addr \<times> nat" where
  "last_at h i p d [] = (p, d)"
| "last_at h i p d (a # L) = (if i < nd_height (h ! a) then last_at h i a 0 L else last_at h i p (Suc d) L)"

lemma seg_defined: "seg rk h i p d L \<Longrightarrow> Node_Next h p i \<noteq> None \<and> Node_Span rk h p i \<noteq> None"
  by (induction L arbitrary: d) (auto split: if_splits)

lemma last_at_cases:
  assumes "last_at h i p d A = (q, e)"
  obtains (none) "q = p" "list_all (\<lambda>a. nd_height (h ! a) \<le> i) A" "e = d + length A"
  | (some) A1 A2 where "A = A1 @ q # A2" "i < nd_height (h ! q)" "list_all (\<lambda>a. nd_height (h ! a) \<le> i) A2" "e = length A2"
  using assms
proof (induction A arbitrary: p d thesis)
  case Nil
  then show ?case by simp
next
  case (Cons a A)
  show ?case
  proof (cases "i < nd_height (h ! a)")
    case True
    show ?thesis
    proof (rule Cons.IH [of a 0])
      show "last_at h i a 0 A = (q, e)" using Cons.prems(3) True by simp
      show thesis if "q = a" "list_all (\<lambda>a. nd_height (h ! a) \<le> i) A" "e = 0 + length A"
        using Cons.prems(2) [of "[]" A] that True by simp
      show thesis if "A = A1 @ q # A2" "i < nd_height (h ! q)" "list_all (\<lambda>a. nd_height (h ! a) \<le> i) A2" "e = length A2" for A1 A2
        using Cons.prems(2) [of "a # A1" A2] that by simp
    qed
  next
    case False
    show ?thesis
    proof (rule Cons.IH [of p "Suc d"])
      show "last_at h i p (Suc d) A = (q, e)" using Cons.prems(3) False by simp
      show thesis if "q = p" "list_all (\<lambda>a. nd_height (h ! a) \<le> i) A" "e = Suc d + length A"
        using Cons.prems(1) that False by simp
      show thesis if "A = A1 @ q # A2" "i < nd_height (h ! q)" "list_all (\<lambda>a. nd_height (h ! a) \<le> i) A2" "e = length A2" for A1 A2
        using Cons.prems(2) [of "a # A1" A2] that by simp
    qed
  qed
qed

lemma last_at_none: "list_all (\<lambda>a. nd_height (h ! a) \<le> i) A \<Longrightarrow> last_at h i p d A = (p, d + length A)"
  by (induction A arbitrary: d) auto

lemma last_at_through: "i < nd_height (h ! q) \<Longrightarrow> last_at h i p d (A1 @ q # A2) = last_at h i q 0 A2"
  by (induction A1 arbitrary: p d) auto

lemma last_at_in: "last_at h i p d A = (q, e) \<Longrightarrow> q = p \<or> q \<in> set A \<and> i < nd_height (h ! q)"
  by (erule last_at_cases) auto

lemma last_at_0: "list_all (\<lambda>a. 0 < nd_height (h ! a)) A \<Longrightarrow> d = 0 \<Longrightarrow> snd (last_at h 0 p d A) = 0"
  by (induction A arbitrary: p) auto

lemma seg_through: "i < nd_height (h ! q) \<Longrightarrow> seg rk h i p d (A1 @ q # A2) \<Longrightarrow> seg rk h i q 0 A2"
  by (induction A1 arbitrary: p d) (auto split: if_splits)

lemma seg_last: "seg rk h i p d (A @ B) \<Longrightarrow> last_at h i p d A = (q, e) \<Longrightarrow> seg rk h i q e B"
  by (induction A arbitrary: p d) (auto split: if_splits)

text \<open>A change of the heap that keeps the level up to \<open>q\<close>, followed by a new tail.\<close>

lemma seg_change:
  assumes "seg rk h i p d (A @ B)" and "last_at h i p d A = (q, e)" and "distinct (p # A)"
    and "\<And>a. a \<in> set A \<Longrightarrow> nd_height (h' ! a) = nd_height (h ! a)"
    and "\<And>a. a \<in> set (p # A) \<Longrightarrow> a \<noteq> q \<Longrightarrow> Node_Next h' a i = Node_Next h a i \<and> Node_Span rk h' a i = Node_Span rk h a i"
    and "seg rk h' i q e B'"
  shows "seg rk h' i p d (A @ B')"
  using assms
proof (induction A arbitrary: p d)
  case (Cons a A)
  show ?case
  proof (cases "i < nd_height (h ! a)")
    case True
    have "q \<noteq> p" using last_at_in [of h i a 0 A q e] Cons.prems(2,3) True by auto
    then show ?thesis using Cons.IH [of a 0] Cons.prems True by auto
  next
    case False
    then show ?thesis using Cons.IH [of p "Suc d"] Cons.prems by auto
  qed
qed simp

lemma seg_frame:
  assumes "seg rk h i p d L" and "\<And>a. a \<in> set L \<Longrightarrow> nd_height (h' ! a) = nd_height (h ! a)"
    and "\<And>a. a \<in> set (p # L) \<Longrightarrow> Node_Next h' a i = Node_Next h a i \<and> Node_Span rk h' a i = Node_Span rk h a i"
  shows "seg rk h' i p d L"
  using assms
proof (induction L arbitrary: p d)
  case (Cons a L)
  show ?case
  proof (cases "i < nd_height (h ! a)")
    case True
    have "seg rk h' i a 0 L" by (rule Cons.IH) (use Cons.prems True in auto)
    then show ?thesis using Cons.prems True by simp
  next
    case False
    have "seg rk h' i p (Suc d) L" by (rule Cons.IH) (use Cons.prems False in auto)
    then show ?thesis using Cons.prems False by simp
  qed
qed simp

text \<open>The hop that leaves \<open>q\<close> is taken over by another node, or counts differently.\<close>

lemma seg_hop:
  assumes "seg rk h i q d B" and "\<And>a. a \<in> set B \<Longrightarrow> nd_height (h' ! a) = nd_height (h ! a)"
    and "\<And>a. a \<in> set B \<Longrightarrow> Node_Next h' a i = Node_Next h a i \<and> Node_Span rk h' a i = Node_Span rk h a i"
    and "Node_Next h' r i = Node_Next h q i"
    and "Node_Span rk h' r i = (if \<not> rk \<or> Node_Next h q i = Some None then Some 0
           else map_option (\<lambda>s. s + (word_of_nat d' - word_of_nat d)) (Node_Span rk h q i))"
  shows "seg rk h' i r d' B"
  using assms
proof (induction B arbitrary: d d')
  case Nil
  then show ?case by simp
next
  case (Cons b B)
  show ?case
  proof (cases "i < nd_height (h ! b)")
    case True
    have "seg rk h' i b 0 B" by (rule seg_frame [of rk h]) (use Cons.prems True in auto)
    then show ?thesis using Cons.prems True by auto
  next
    case False
    have "seg rk h' i r (Suc d') B" by (rule Cons.IH [of "Suc d"]) (use Cons.prems False in auto)
    then show ?thesis using Cons.prems False by simp
  qed
qed

lemma seg_low:
  "list_all (\<lambda>a. nd_height (h ! a) \<le> i) L \<Longrightarrow> seg rk h i p d L \<longleftrightarrow> Node_Next h p i = Some None \<and> Node_Span rk h p i = Some 0"
  by (induction L arbitrary: d) auto

subsection \<open>The descent\<close>

lemma sint_word_of_nat: "n < 2 ^ 63 \<Longrightarrow> sint (word_of_nat n :: u64) = int n"
  by (simp add: signed_of_nat signed_take_bit_int_eq_self)

lemma walk_seg:
  assumes "seg rk h i p d (A @ B)" and "last_at h i p d A = (q, e)"
    and "\<And>a. a \<in> set (A @ B) \<Longrightarrow> a < length h"
    and "\<And>a. a \<in> set A \<Longrightarrow> nd_key (h ! a) < key" and "\<And>b. b \<in> set B \<Longrightarrow> \<not> nd_key (h ! b) < key"
    and "d + length A < 2 ^ 63"
  shows "walk rk h i key p r = Some (q, if rk then r + int d + int (length A) - int e else r)"
  using assms
proof (induction A arbitrary: p d r)
  case Nil
  have "walk rk h i key p r = Some (p, r)"
    using Nil.prems(1,3,5)
  proof (induction B arbitrary: d)
    case Nil
    then show ?case by (subst walk.simps) simp
  next
    case (Cons b B)
    then show ?case
      by (cases "i < nd_height (h ! b)") (subst walk.simps, simp add: Node_key_def, simp)
  qed
  then show ?case using Nil.prems by simp
next
  case (Cons a A)
  show ?case
  proof (cases "i < nd_height (h ! a)")
    case True
    have "walk rk h i key p r = walk rk h i key a (if rk then r + (int d + 1) else r)"
      using Cons.prems True by (subst walk.simps) (simp add: Node_key_def sint_word_of_nat)
    then show ?thesis using Cons.IH [of a 0] Cons.prems True by simp
  next
    case False
    then show ?thesis using Cons.IH [of p "Suc d"] Cons.prems by simp
  qed
qed

text \<open>The levels below the one just walked start from the node reached there.\<close>

lemma last_at_below:
  assumes "last_at h n p 0 A = (q, e)" and "\<And>i. i < n \<Longrightarrow> seg rk h i p 0 (A @ B)"
  obtains A2 where "\<And>i. i < n \<Longrightarrow> last_at h i p 0 A = last_at h i q 0 A2" "\<And>i. i < n \<Longrightarrow> seg rk h i q 0 (A2 @ B)"
    "set A2 \<subseteq> set A" "length A2 = e" "e \<le> length A"
  using assms(1)
proof (cases rule: last_at_cases)
  case none
  then show thesis using assms(2) by (intro that [of A]) auto
next
  case (some A1 A2)
  have "seg rk h i q 0 (A2 @ B)" if "i < n" for i
    using seg_through [of i h q rk p 0 A1 "A2 @ B"] assms(2) [of i] some that by simp
  then show thesis using some by (intro that [of A2]) (auto simp: last_at_through)
qed

lemma find_prev_seg:
  assumes "\<And>i. i < n \<Longrightarrow> seg rk h i p 0 (A @ B)"
    and "\<And>a. a \<in> set (A @ B) \<Longrightarrow> a < length h"
    and "\<And>a. a \<in> set A \<Longrightarrow> nd_key (h ! a) < key" and "\<And>b. b \<in> set B \<Longrightarrow> \<not> nd_key (h ! b) < key"
    and "length A < 2 ^ 63"
  shows "\<exists>ps. find_prev rk h key n p r = Some ps \<and> length ps = n
     \<and> (\<forall>i < n. ps ! i = (let (q, e) = last_at h i p 0 A in (q, if rk then r + int (length A) - int e else r)))"
  using assms
proof (induction n arbitrary: p A r)
  case (Suc n)
  obtain q e where q: "last_at h n p 0 A = (q, e)" by fastforce
  let ?r = "if rk then r + int (length A) - int e else r"
  have w: "walk rk h n key p r = Some (q, ?r)" using walk_seg [OF Suc.prems(1) q] Suc.prems by simp
  obtain A2 where A2: "\<And>i. i < n \<Longrightarrow> last_at h i p 0 A = last_at h i q 0 A2" "\<And>i. i < n \<Longrightarrow> seg rk h i q 0 (A2 @ B)"
      "set A2 \<subseteq> set A" "length A2 = e" "e \<le> length A"
    using last_at_below [OF q, of rk B] Suc.prems(1) by (metis less_SucI)
  have find_IH: "\<exists>ps. find_prev rk h key n q ?r = Some ps \<and> length ps = n
     \<and> (\<forall>i < n. ps ! i = (let (q', e') = last_at h i q 0 A2 in (q', if rk then ?r + int (length A2) - int e' else ?r)))"
    by (rule Suc.IH) (use A2 Suc.prems in auto)
  obtain ps where ps: "find_prev rk h key n q ?r = Some ps" "length ps = n"
      "\<forall>i<n. ps ! i = (let (q', e') = last_at h i q 0 A2 in (q', if rk then ?r + int (length A2) - int e' else ?r))"
    using find_IH by blast
  have "(ps @ [(q, ?r)]) ! i = (let (q, e) = last_at h i p 0 A in (q, if rk then r + int (length A) - int e else r))"
    if "i < Suc n" for i
  proof (cases "i = n")
    case True
    then show ?thesis using q ps(2) by (simp add: nth_append)
  next
    case False
    then show ?thesis using that ps(2,3) A2(1) [of i] A2(4) by (simp add: nth_append split: prod.splits)
  qed
  then show ?case using w ps(1,2) by auto
qed simp

subsection \<open>Linking and unlinking\<close>

definition skipped_at :: "(addr \<times> int) list \<Rightarrow> nat \<Rightarrow> u64" where
  "skipped_at ps j = word_of_int (snd (ps ! 0) - snd (ps ! j))"

definition linked :: "bool \<Rightarrow> addr \<Rightarrow> (addr \<times> int) list \<Rightarrow> nat set \<Rightarrow> ('k, 'v) heap \<Rightarrow> ('k, 'v) heap \<Rightarrow> bool" where
  "linked rk node ps is h h' \<longleftrightarrow> same_nodes h h'
     \<and> (\<forall>b j. Node_Next h' b j = (if j \<in> is \<and> b = fst (ps ! j) then Some (Some node)
                                   else if j \<in> is \<and> b = node then Node_Next h (fst (ps ! j)) j else Node_Next h b j))
     \<and> (\<forall>b j. Node_Span rk h' b j =
          (if rk \<and> j \<in> is \<and> b = fst (ps ! j) then Some (skipped_at ps j)
           else if rk \<and> j \<in> is \<and> b = node
           then (if Node_Next h (fst (ps ! j)) j = Some None then Some 0
                 else map_option (\<lambda>s. s - skipped_at ps j) (Node_Span rk h (fst (ps ! j)) j))
           else Node_Span rk h b j))"

lemma link_level_linked:
  assumes "Node_Next h (fst (ps ! i)) i \<noteq> None" and "Node_Span rk h (fst (ps ! i)) i \<noteq> None"
    and "Node_Next h node i \<noteq> None" and "Node_Span rk h node i \<noteq> None" and "fst (ps ! i) \<noteq> node"
  shows "\<exists>h'. link_level rk node ps i h = Some h' \<and> linked rk node ps {i} h h'"
proof -
  obtain p ri where pi: "ps ! i = (p, ri)" by fastforce
  have sk: "word_of_int (snd (ps ! 0) - ri) = skipped_at ps i" by (simp add: skipped_at_def pi)
  let ?sk = "skipped_at ps i"
  from assms obtain nx sp where nx: "Node_Next h p i = Some nx" and sp: "Node_Span rk h p i = Some sp" by (auto simp: pi)
  obtain h1 where h1: "Node_SetNext h node i nx = Some h1" "same_nodes h h1"
      "\<And>b j. Node_Next h1 b j = (if b = node \<and> j = i then Some nx else Node_Next h b j)"
      "\<And>b j. Node_Span rk h1 b j = Node_Span rk h b j"
    using SetNext_result [OF assms(3), of nx] by metis
  have "Node_Next h1 p i \<noteq> None" using h1(3) nx assms(5) pi by simp
  then obtain h2 where h2: "Node_SetNext h1 p i (Some node) = Some h2" "same_nodes h1 h2"
      "\<And>b j. Node_Next h2 b j = (if b = p \<and> j = i then Some (Some node) else Node_Next h1 b j)"
      "\<And>b j. Node_Span rk h2 b j = Node_Span rk h1 b j"
    using SetNext_result [of h1 p i "Some node"] by metis
  have "Node_Span rk h2 p i \<noteq> None" using h2(4) h1(4) sp by simp
  then obtain h3 where h3: "Node_SetSpan rk h2 p i ?sk = Some h3" "same_nodes h2 h3"
      "\<And>b j. Node_Next h3 b j = Node_Next h2 b j"
      "\<And>b j. Node_Span rk h3 b j = (if rk \<and> b = p \<and> j = i then Some ?sk else Node_Span rk h2 b j)"
    using SetSpan_result [of rk h2 p i ?sk] by metis
  let ?v = "if nx \<noteq> None then sp - ?sk else 0"
  have "Node_Span rk h3 node i \<noteq> None" using h3(4) h2(4) h1(4) assms(4) by simp
  then obtain h4 where h4: "Node_SetSpan rk h3 node i ?v = Some h4" "same_nodes h3 h4"
      "\<And>b j. Node_Next h4 b j = Node_Next h3 b j"
      "\<And>b j. Node_Span rk h4 b j = (if rk \<and> b = node \<and> j = i then Some ?v else Node_Span rk h3 b j)"
    using SetSpan_result [of rk h3 node i ?v] by metis
  have "link_level rk node ps i h = Some h4"
    using nx sp h1(1) h2(1) h3(1) h4(1) unfolding link_level_def pi prod.case Let_def sk by simp
  moreover have "same_nodes h h4" using h1(2) h2(2) h3(2) h4(2) same_nodes_trans by metis
  moreover have "Node_Next h4 b j = (if j \<in> {i} \<and> b = fst (ps ! j) then Some (Some node)
       else if j \<in> {i} \<and> b = node then Node_Next h (fst (ps ! j)) j else Node_Next h b j)" for b j
    using assms(5) nx by (auto simp: h4(3) h3(3) h2(3) h1(3) pi)
  moreover have "Node_Span rk h4 b j =
          (if rk \<and> j \<in> {i} \<and> b = fst (ps ! j) then Some (skipped_at ps j)
           else if rk \<and> j \<in> {i} \<and> b = node
           then (if Node_Next h (fst (ps ! j)) j = Some None then Some 0
                 else map_option (\<lambda>s. s - skipped_at ps j) (Node_Span rk h (fst (ps ! j)) j))
           else Node_Span rk h b j)" for b j
    unfolding h4(4) h3(4) h2(4) h1(4) using assms(5) nx sp by (auto simp: pi)
  ultimately show ?thesis by (auto simp: linked_def)
qed

lemma link_levels_linked:
  assumes "distinct is" and "\<And>i. i \<in> set is \<Longrightarrow> Node_Next h (fst (ps ! i)) i \<noteq> None \<and> Node_Span rk h (fst (ps ! i)) i \<noteq> None
      \<and> Node_Next h node i \<noteq> None \<and> Node_Span rk h node i \<noteq> None \<and> fst (ps ! i) \<noteq> node"
  shows "\<exists>h'. link_levels rk node ps is h = Some h' \<and> linked rk node ps (set is) h h'"
  using assms
proof (induction "is" arbitrary: h)
  case Nil
  then show ?case by (simp add: linked_def)
next
  case (Cons i "is")
  obtain h1 where h1: "link_level rk node ps i h = Some h1" "linked rk node ps {i} h h1"
    using link_level_linked [of h ps i rk node] Cons.prems(2) by auto
  note l1 = h1(2) [unfolded linked_def]
  have ne: "j \<noteq> i" if "j \<in> set is" for j using that Cons.prems(1) by auto
  have "\<exists>h'. link_levels rk node ps is h1 = Some h' \<and> linked rk node ps (set is) h1 h'"
    by (rule Cons.IH) (use Cons.prems l1 ne in auto)
  then obtain h' where h': "link_levels rk node ps is h1 = Some h'" "linked rk node ps (set is) h1 h'" by blast
  note l2 = h'(2) [unfolded linked_def]
  have "same_nodes h h'" using l1 l2 same_nodes_trans by blast
  moreover have "Node_Next h' b j = (if j \<in> set (i # is) \<and> b = fst (ps ! j) then Some (Some node)
       else if j \<in> set (i # is) \<and> b = node then Node_Next h (fst (ps ! j)) j else Node_Next h b j)" for b j
    using l1 l2 ne by auto
  moreover have "Node_Span rk h' b j =
          (if rk \<and> j \<in> set (i # is) \<and> b = fst (ps ! j) then Some (skipped_at ps j)
           else if rk \<and> j \<in> set (i # is) \<and> b = node
           then (if Node_Next h (fst (ps ! j)) j = Some None then Some 0
                 else map_option (\<lambda>s. s - skipped_at ps j) (Node_Span rk h (fst (ps ! j)) j))
           else Node_Span rk h b j)" for b j
    using l1 l2 ne by auto
  ultimately show ?case using h1(1) h'(1) by (auto simp: linked_def)
qed

definition adjusted :: "bool \<Rightarrow> u64 \<Rightarrow> (addr \<times> int) list \<Rightarrow> nat set \<Rightarrow> ('k, 'v) heap \<Rightarrow> ('k, 'v) heap \<Rightarrow> bool" where
  "adjusted rk delta ps is h h' \<longleftrightarrow> same_nodes h h' \<and> (\<forall>b j. Node_Next h' b j = Node_Next h b j)
     \<and> (\<forall>b j. Node_Span rk h' b j =
          (if rk \<and> j \<in> is \<and> b = fst (ps ! j) \<and> Node_Next h b j \<noteq> Some None
           then map_option (\<lambda>s. s + delta) (Node_Span rk h b j) else Node_Span rk h b j))"

lemma adjust_spans_adjusted:
  assumes "distinct is" and "\<And>i. i \<in> set is \<Longrightarrow> Node_Next h (fst (ps ! i)) i \<noteq> None \<and> Node_Span rk h (fst (ps ! i)) i \<noteq> None"
  shows "\<exists>h'. adjust_spans rk delta ps is h = Some h' \<and> adjusted rk delta ps (set is) h h'"
  using assms
proof (induction "is" arbitrary: h)
  case Nil
  then show ?case by (simp add: adjusted_def)
next
  case (Cons i "is")
  let ?p = "fst (ps ! i)"
  obtain nx sp where nx: "Node_Next h ?p i = Some nx" and sp: "Node_Span rk h ?p i = Some sp"
    using Cons.prems(2) [of i] by auto
  obtain h1 where h1: "(if nx \<noteq> None then Node_SetSpan rk h ?p i (sp + delta) else Some h) = Some h1" "adjusted rk delta ps {i} h h1"
  proof (cases "nx = None")
    case True
    then show thesis using nx by (intro that [of h]) (auto simp: adjusted_def)
  next
    case False
    obtain h1 where h1: "Node_SetSpan rk h ?p i (sp + delta) = Some h1" "same_nodes h h1"
        "\<And>b j. Node_Next h1 b j = Node_Next h b j"
        "\<And>b j. Node_Span rk h1 b j = (if rk \<and> b = ?p \<and> j = i then Some (sp + delta) else Node_Span rk h b j)"
      using SetSpan_result [of rk h ?p i "sp + delta"] sp by (metis option.distinct(1))
    have "adjusted rk delta ps {i} h h1" unfolding adjusted_def h1(3,4) using h1(2) nx sp False by auto
    then show thesis using h1(1) False by (intro that [of h1]) auto
  qed
  note a1 = h1(2) [unfolded adjusted_def]
  have ne: "j \<noteq> i" if "j \<in> set is" for j using that Cons.prems(1) by auto
  have "\<exists>h'. adjust_spans rk delta ps is h1 = Some h' \<and> adjusted rk delta ps (set is) h1 h'"
    by (rule Cons.IH) (use Cons.prems a1 in auto)
  then obtain h' where h': "adjust_spans rk delta ps is h1 = Some h'" "adjusted rk delta ps (set is) h1 h'" by blast
  note a2 = h'(2) [unfolded adjusted_def]
  have "same_nodes h h'" using a1 a2 same_nodes_trans by blast
  then have "adjusted rk delta ps (set (i # is)) h h'" unfolding adjusted_def using a1 a2 ne by auto
  moreover have "adjust_spans rk delta ps (i # is) h = Some h'" using nx sp h1(1) h'(1) by simp
  ultimately show ?case by blast
qed

definition unlinked :: "bool \<Rightarrow> addr \<Rightarrow> (addr \<times> int) list \<Rightarrow> nat set \<Rightarrow> ('k, 'v) heap \<Rightarrow> ('k, 'v) heap \<Rightarrow> bool" where
  "unlinked rk target ps is h h' \<longleftrightarrow> same_nodes h h'
     \<and> (\<forall>b j. Node_Next h' b j = (if j \<in> is \<and> b = fst (ps ! j) then Node_Next h target j else Node_Next h b j))
     \<and> (\<forall>b j. Node_Span rk h' b j =
          (if rk \<and> j \<in> is \<and> b = fst (ps ! j)
           then (if Node_Next h target j = Some None then Some 0
                 else Some (the (Node_Span rk h b j) + the (Node_Span rk h target j)))
           else Node_Span rk h b j))"

lemma unlink_level_unlinked:
  assumes "Node_Next h (fst (ps ! i)) i \<noteq> None" and "Node_Span rk h (fst (ps ! i)) i \<noteq> None"
    and "Node_Next h target i \<noteq> None" and "Node_Span rk h target i \<noteq> None"
  shows "\<exists>h'. unlink_level rk target ps i h = Some h' \<and> unlinked rk target ps {i} h h'"
proof -
  let ?p = "fst (ps ! i)"
  obtain nx sp st where nx: "Node_Next h target i = Some nx" and sp: "Node_Span rk h ?p i = Some sp"
      and st: "Node_Span rk h target i = Some st" using assms by auto
  obtain h1 where h1: "Node_SetNext h ?p i nx = Some h1" "same_nodes h h1"
      "\<And>b j. Node_Next h1 b j = (if b = ?p \<and> j = i then Some nx else Node_Next h b j)"
      "\<And>b j. Node_Span rk h1 b j = Node_Span rk h b j"
    using SetNext_result [OF assms(1), of nx] by metis
  let ?v = "if nx \<noteq> None then sp + st else 0"
  have "Node_Span rk h1 ?p i \<noteq> None" using h1(4) sp by simp
  then obtain h2 where h2: "Node_SetSpan rk h1 ?p i ?v = Some h2" "same_nodes h1 h2"
      "\<And>b j. Node_Next h2 b j = Node_Next h1 b j"
      "\<And>b j. Node_Span rk h2 b j = (if rk \<and> b = ?p \<and> j = i then Some ?v else Node_Span rk h1 b j)"
    using SetSpan_result [of rk h1 ?p i ?v] by metis
  have "unlink_level rk target ps i h = Some h2"
    using nx sp st h1(1,4) h2(1) unfolding unlink_level_def Let_def by simp
  moreover have "unlinked rk target ps {i} h h2"
    unfolding unlinked_def h2(3,4) h1(3,4) using nx sp st same_nodes_trans [OF h1(2) h2(2)] by auto
  ultimately show ?thesis by blast
qed

lemma unlink_levels_unlinked:
  assumes "distinct is" and "\<And>i. i \<in> set is \<Longrightarrow> Node_Next h (fst (ps ! i)) i \<noteq> None \<and> Node_Span rk h (fst (ps ! i)) i \<noteq> None
      \<and> Node_Next h target i \<noteq> None \<and> Node_Span rk h target i \<noteq> None \<and> fst (ps ! i) \<noteq> target"
  shows "\<exists>h'. unlink_levels rk target ps is h = Some h' \<and> unlinked rk target ps (set is) h h'"
  using assms
proof (induction "is" arbitrary: h)
  case Nil
  then show ?case by (simp add: unlinked_def)
next
  case (Cons i "is")
  obtain h1 where h1: "unlink_level rk target ps i h = Some h1" "unlinked rk target ps {i} h h1"
    using unlink_level_unlinked [of h ps i rk target] Cons.prems(2) by auto
  note l1 = h1(2) [unfolded unlinked_def]
  have ne: "j \<noteq> i" if "j \<in> set is" for j using that Cons.prems(1) by auto
  have "\<exists>h'. unlink_levels rk target ps is h1 = Some h' \<and> unlinked rk target ps (set is) h1 h'"
    by (rule Cons.IH) (use Cons.prems l1 ne in auto)
  then obtain h' where h': "unlink_levels rk target ps is h1 = Some h'" "unlinked rk target ps (set is) h1 h'" by blast
  note l2 = h'(2) [unfolded unlinked_def]
  have "same_nodes h h'" using l1 l2 same_nodes_trans by blast
  then have "unlinked rk target ps (set (i # is)) h h'" unfolding unlinked_def using l1 l2 ne by auto
  then show ?case using h1(1) h'(1) by auto
qed

subsection \<open>The sequence a list represents\<close>

definition nodes_ok :: "bool \<Rightarrow> ('k, 'v) heap \<Rightarrow> bool" where
  "nodes_ok rk h \<longleftrightarrow> (\<forall>a < length h. 1 \<le> nd_height (h ! a) \<and> nd_height (h ! a) \<le> kMaxHeight \<and> length (nd_next (h ! a)) = nd_height (h ! a)
     \<and> length (nd_span (h ! a)) = (if rk then nd_height (h ! a) else 0))"

definition sl_nodes :: "bool \<Rightarrow> ('k::linorder, 'v, 'g) SkipList \<Rightarrow> addr list \<Rightarrow> bool" where
  "sl_nodes rk s L \<longleftrightarrow>
     (let h = sl_heap s
      in sl_head s < length h \<and> nd_height (h ! sl_head s) = kMaxHeight \<and> nodes_ok rk h
         \<and> 1 \<le> sl_max_height s \<and> sl_max_height s \<le> kMaxHeight \<and> distinct (sl_head s # L)
         \<and> (\<forall>a \<in> set L. a < length h \<and> 1 \<le> nd_height (h ! a) \<and> nd_height (h ! a) \<le> sl_max_height s)
         \<and> sorted (map (\<lambda>a. nd_key (h ! a)) L) \<and> (\<forall>i < kMaxHeight. seg rk h i (sl_head s) 0 L))"

definition sl_entry :: "('k, 'v) heap \<Rightarrow> addr \<Rightarrow> 'k \<times> u64 \<times> bool \<times> 'v" where
  "sl_entry h a = (nd_key (h ! a), nd_seq (h ! a), nd_is_deleted (h ! a), nd_value (h ! a))"

definition sl_rep :: "bool \<Rightarrow> ('k::linorder, 'v, 'g) SkipList \<Rightarrow> ('k \<times> u64 \<times> bool \<times> 'v) list \<Rightarrow> bool" where
  "sl_rep rk s es \<longleftrightarrow> (\<exists>L. sl_nodes rk s L \<and> es = map (sl_entry (sl_heap s)) L)"

definition insert_entry :: "'k::linorder \<times> 'e \<Rightarrow> ('k \<times> 'e) list \<Rightarrow> ('k \<times> 'e) list" where
  "insert_entry e es = takeWhile (\<lambda>x. fst x < fst e) es @ e # dropWhile (\<lambda>x. fst x < fst e) es"

lemma sl_nodesD:
  assumes "sl_nodes rk s L"
  shows "sl_head s < length (sl_heap s)" "nd_height (sl_heap s ! sl_head s) = kMaxHeight" "nodes_ok rk (sl_heap s)"
    "1 \<le> sl_max_height s" "sl_max_height s \<le> kMaxHeight" "distinct (sl_head s # L)"
    "\<And>a. a \<in> set L \<Longrightarrow> a < length (sl_heap s)" "\<And>a. a \<in> set L \<Longrightarrow> 1 \<le> nd_height (sl_heap s ! a)"
    "\<And>a. a \<in> set L \<Longrightarrow> nd_height (sl_heap s ! a) \<le> sl_max_height s"
    "sorted (map (\<lambda>a. nd_key (sl_heap s ! a)) L)" "\<And>i. i < kMaxHeight \<Longrightarrow> seg rk (sl_heap s) i (sl_head s) 0 L"
  using assms by (simp_all add: sl_nodes_def Let_def)

lemma sl_nodesI:
  assumes "sl_head s < length (sl_heap s)" "nd_height (sl_heap s ! sl_head s) = kMaxHeight" "nodes_ok rk (sl_heap s)"
    "1 \<le> sl_max_height s" "sl_max_height s \<le> kMaxHeight" "distinct (sl_head s # L)"
    "\<And>a. a \<in> set L \<Longrightarrow> a < length (sl_heap s) \<and> 1 \<le> nd_height (sl_heap s ! a) \<and> nd_height (sl_heap s ! a) \<le> sl_max_height s"
    "sorted (map (\<lambda>a. nd_key (sl_heap s ! a)) L)" "\<And>i. i < kMaxHeight \<Longrightarrow> seg rk (sl_heap s) i (sl_head s) 0 L"
  shows "sl_nodes rk s L"
  using assms by (simp add: sl_nodes_def Let_def)

lemma sl_new_nodes: "sl_nodes rk (SkipList_new rk k0 v0 g) []"
  by (auto simp: sl_nodes_def SkipList_new_def NewNode_def nodes_ok_def kMaxHeight_def Node_Next_def Node_Span_def)

lemma sl_new_rep: "sl_rep rk (SkipList_new rk k0 v0 g) []"
  using sl_new_nodes by (auto simp: sl_rep_def)

text \<open>The nodes below a key come first.\<close>

lemma dropWhile_ge: "sorted (map f L) \<Longrightarrow> b \<in> set (dropWhile (\<lambda>a. f a < key) L) \<Longrightarrow> key \<le> f b"
  for f :: "'a \<Rightarrow> 'k::linorder"
  by (induction L) (auto split: if_splits)

lemma sl_find_prev:
  assumes "sl_nodes rk s L" and "L = A @ B" and "\<And>a. a \<in> set A \<Longrightarrow> nd_key (sl_heap s ! a) < key"
    and "\<And>b. b \<in> set B \<Longrightarrow> key \<le> nd_key (sl_heap s ! b)" and "length L < 2 ^ 63"
  shows "\<exists>ps. find_prev rk (sl_heap s) key (sl_max_height s) (sl_head s) r = Some ps \<and> length ps = sl_max_height s
     \<and> (\<forall>i < sl_max_height s. ps ! i = (let (q, e) = last_at (sl_heap s) i (sl_head s) 0 A
          in (q, if rk then r + int (length A) - int e else r)))"
  by (rule find_prev_seg [where B = B]) (use assms in \<open>auto simp: sl_nodes_def Let_def not_less\<close>)

text \<open>The predecessors on every level of the taller of list and new node.\<close>

lemma prev_extended:
  assumes "sl_nodes rk s (A @ B)" and "length ps = sl_max_height s"
    and "\<forall>i < sl_max_height s. ps ! i = (let (q, e) = last_at (sl_heap s) i (sl_head s) 0 A
          in (q, if rk then - 1 + int (length A) - int e else - 1))"
    and "last_at (sl_heap s) i (sl_head s) 0 A = (q, e)" and "i < sl_max_height s \<or> i < height"
  shows "(ps @ replicate (height - sl_max_height s) (sl_head s, - 1)) ! i = (q, if rk then - 1 + int (length A) - int e else - 1)"
proof (cases "i < sl_max_height s")
  case True
  then show ?thesis using assms(2-4) by (simp add: nth_append)
next
  case False
  have "list_all (\<lambda>a. nd_height (sl_heap s ! a) \<le> i) A"
    using assms(1) False by (auto simp: sl_nodes_def Let_def list_all_iff intro: le_trans)
  then have "q = sl_head s" "e = length A" using last_at_none [of "sl_heap s" i A "sl_head s" 0] assms(4) by auto
  then show ?thesis using False assms(2,5) by (auto simp: nth_append)
qed

lemma seg_null: "seg rk h i q e B \<Longrightarrow> Node_Next h q i = Some None \<Longrightarrow> Node_Span rk h q i = Some 0"
  by (induction B arbitrary: e) (auto split: if_splits)

lemma word_of_int_diff_nat: "word_of_int (int a - int b) = (word_of_nat a - word_of_nat b :: u64)"
  by simp

text \<open>A heap with one more node.\<close>

lemma Node_append:
  "a < length h \<Longrightarrow> Node_Next (h @ [n]) a i = Node_Next h a i"
  "a < length h \<Longrightarrow> Node_Span rk (h @ [n]) a i = Node_Span rk h a i"
  "Node_Next (h @ [n]) (length h) i = (if i < length (nd_next n) then Some (nd_next n ! i) else None)"
  "Node_Span rk (h @ [n]) (length h) i = (if \<not> rk then Some 0 else if i < length (nd_span n) then Some (nd_span n ! i) else None)"
  by (auto simp: Node_Next_def Node_Span_def nth_append)

text \<open>The level after linking: the three cases of a level inside the new node, above it but inside
  the list, and above both.\<close>

lemma insert_level:
  assumes s: "seg rk h i p0 0 (A @ B)" and q: "last_at h i p0 0 A = (q, e)" and d: "distinct (p0 # A @ B)"
    and lt: "\<And>a. a \<in> set (p0 # A @ B) \<Longrightarrow> a < length h" and node: "node = length h"
    and ht: "\<And>a. a \<in> set (A @ B) \<Longrightarrow> nd_height (h' ! a) = nd_height (h ! a)" "nd_height (h' ! node) = height"
    and nx: "\<And>b. b < length h \<Longrightarrow> b \<noteq> q \<Longrightarrow> Node_Next h' b i = Node_Next h b i \<and> Node_Span rk h' b i = Node_Span rk h b i"
    and lo: "i < height \<Longrightarrow> Node_Next h' q i = Some (Some node) \<and> Node_Span rk h' q i = Some (if rk then word_of_nat e else 0)
       \<and> Node_Next h' node i = Node_Next h q i
       \<and> Node_Span rk h' node i = (if \<not> rk \<or> Node_Next h q i = Some None then Some 0
                                    else map_option (\<lambda>s. s + (word_of_nat 0 - word_of_nat e)) (Node_Span rk h q i))"
    and hi: "\<not> i < height \<Longrightarrow> Node_Next h' q i = Node_Next h q i
       \<and> Node_Span rk h' q i = (if \<not> rk \<or> Node_Next h q i = Some None then Some 0
                                 else map_option (\<lambda>s. s + (word_of_nat (Suc e) - word_of_nat e)) (Node_Span rk h q i))"
  shows "seg rk h' i p0 0 (A @ node # B)"
proof (rule seg_change [OF s q])
  show "distinct (p0 # A)" using d by auto
  have sB: "seg rk h i q e B" by (rule seg_last [OF s q])
  have qA: "q \<in> set (p0 # A)" using last_at_in [OF q] by auto
  then have qB: "a \<noteq> q" if "a \<in> set B" for a using that d by auto
  have fr: "Node_Next h' a i = Node_Next h a i \<and> Node_Span rk h' a i = Node_Span rk h a i" if "a \<in> set B" for a
    using nx [of a] lt [of a] that qB by auto
  show "seg rk h' i q e (node # B)"
  proof (cases "i < height")
    case True
    have "seg rk h' i node 0 B" by (rule seg_hop [OF sB]) (use ht(1) fr lo [OF True] in auto)
    then show ?thesis using True ht(2) lo by simp
  next
    case False
    have "seg rk h' i q (Suc e) B" by (rule seg_hop [OF sB]) (use ht(1) fr hi [OF False] in auto)
    then show ?thesis using False ht(2) by simp
  qed
qed (use ht lt nx in auto)

text \<open>What an insertion does to the pointers and spans, over all levels.\<close>

definition inserted :: "bool \<Rightarrow> addr \<Rightarrow> (addr \<times> int) list \<Rightarrow> nat \<Rightarrow> nat \<Rightarrow> ('k, 'v) heap \<Rightarrow> ('k, 'v) heap \<Rightarrow> bool" where
  "inserted rk node ps height m h h2 \<longleftrightarrow>
     (\<forall>b j. Node_Next h2 b j = (if j < height \<and> b = fst (ps ! j) then Some (Some node)
        else if j < height \<and> b = node then Node_Next h (fst (ps ! j)) j else Node_Next h b j))
     \<and> (\<forall>b j. Node_Span rk h2 b j = (if rk \<and> j < height \<and> b = fst (ps ! j) then Some (skipped_at ps j)
        else if rk \<and> j < height \<and> b = node
        then (if Node_Next h (fst (ps ! j)) j = Some None then Some 0
              else map_option (\<lambda>s. s - skipped_at ps j) (Node_Span rk h (fst (ps ! j)) j))
        else if rk \<and> \<not> j < height \<and> j < m \<and> b = fst (ps ! j) \<and> Node_Next h b j \<noteq> Some None
        then map_option (\<lambda>s. s + 1) (Node_Span rk h b j) else Node_Span rk h b j))"

lemma insertedD:
  assumes "inserted rk node ps height m h h2"
  shows "Node_Next h2 b j = (if j < height \<and> b = fst (ps ! j) then Some (Some node)
        else if j < height \<and> b = node then Node_Next h (fst (ps ! j)) j else Node_Next h b j)"
    and "Node_Span rk h2 b j = (if rk \<and> j < height \<and> b = fst (ps ! j) then Some (skipped_at ps j)
        else if rk \<and> j < height \<and> b = node
        then (if Node_Next h (fst (ps ! j)) j = Some None then Some 0
              else map_option (\<lambda>s. s - skipped_at ps j) (Node_Span rk h (fst (ps ! j)) j))
        else if rk \<and> \<not> j < height \<and> j < m \<and> b = fst (ps ! j) \<and> Node_Next h b j \<noteq> Some None
        then map_option (\<lambda>s. s + 1) (Node_Span rk h b j) else Node_Span rk h b j)"
  using assms unfolding inserted_def by blast+

lemma linked_adjusted_inserted:
  assumes l1: "linked rk node ps {0..<height} h h1" and l2: "adjusted rk 1 ps {height..<m} h1 h2"
  shows "inserted rk node ps height m h h2"
proof -
  note l1 = l1 [unfolded linked_def] and l2 = l2 [unfolded adjusted_def]
  have n1: "Node_Next h1 b j = (if j \<in> {0..<height} \<and> b = fst (ps ! j) then Some (Some node)
      else if j \<in> {0..<height} \<and> b = node then Node_Next h (fst (ps ! j)) j else Node_Next h b j)" for b j
    using l1 by blast
  have s1: "Node_Span rk h1 b j = (if rk \<and> j \<in> {0..<height} \<and> b = fst (ps ! j) then Some (skipped_at ps j)
      else if rk \<and> j \<in> {0..<height} \<and> b = node
      then (if Node_Next h (fst (ps ! j)) j = Some None then Some 0
            else map_option (\<lambda>s. s - skipped_at ps j) (Node_Span rk h (fst (ps ! j)) j))
      else Node_Span rk h b j)" for b j
    using l1 by blast
  have n2: "Node_Next h2 b j = Node_Next h1 b j" for b j using l2 by blast
  have s2: "Node_Span rk h2 b j = (if rk \<and> j \<in> {height..<m} \<and> b = fst (ps ! j) \<and> Node_Next h1 b j \<noteq> Some None
      then map_option (\<lambda>s. s + 1) (Node_Span rk h1 b j) else Node_Span rk h1 b j)" for b j
    using l2 by blast
  have "Node_Span rk h2 b j = (if rk \<and> j < height \<and> b = fst (ps ! j) then Some (skipped_at ps j)
      else if rk \<and> j < height \<and> b = node
      then (if Node_Next h (fst (ps ! j)) j = Some None then Some 0
            else map_option (\<lambda>s. s - skipped_at ps j) (Node_Span rk h (fst (ps ! j)) j))
      else if rk \<and> \<not> j < height \<and> j < m \<and> b = fst (ps ! j) \<and> Node_Next h b j \<noteq> Some None
      then map_option (\<lambda>s. s + 1) (Node_Span rk h b j) else Node_Span rk h b j)" for b j
  proof (cases "j < height")
    case True
    then show ?thesis unfolding s2 s1 by simp
  next
    case False
    have e: "Node_Span rk h1 b j = Node_Span rk h b j" "Node_Next h1 b j = Node_Next h b j"
      using False by (simp_all add: s1 n1)
    show ?thesis using False unfolding s2 e by simp
  qed
  then show ?thesis unfolding inserted_def n2 n1 by simp
qed

lemma link_and_adjust:
  assumes "\<And>i. i < height \<Longrightarrow> Node_Next h (fst (ps ! i)) i \<noteq> None \<and> Node_Span rk h (fst (ps ! i)) i \<noteq> None
      \<and> Node_Next h node i \<noteq> None \<and> Node_Span rk h node i \<noteq> None \<and> fst (ps ! i) \<noteq> node"
    and "\<And>i. height \<le> i \<Longrightarrow> i < m \<Longrightarrow> Node_Next h (fst (ps ! i)) i \<noteq> None \<and> Node_Span rk h (fst (ps ! i)) i \<noteq> None"
  shows "\<exists>h1 h2. link_levels rk node ps [0..<height] h = Some h1
     \<and> (if rk then adjust_spans rk 1 ps [height..<m] h1 else Some h1) = Some h2
     \<and> inserted rk node ps height m h h2 \<and> same_nodes h h2"
proof -
  obtain h1 where h1: "link_levels rk node ps [0..<height] h = Some h1" "linked rk node ps {0..<height} h h1"
    using link_levels_linked [of "[0..<height]" h ps rk node] assms(1) by auto
  note l1 = h1(2) [unfolded linked_def]
  have pre: "Node_Next h1 (fst (ps ! i)) i \<noteq> None \<and> Node_Span rk h1 (fst (ps ! i)) i \<noteq> None" if "i \<in> set [height..<m]" for i
    using that assms(2) [of i] l1 by auto
  obtain h2 where h2: "(if rk then adjust_spans rk 1 ps [height..<m] h1 else Some h1) = Some h2"
      "adjusted rk 1 ps {height..<m} h1 h2"
    using adjust_spans_adjusted [of "[height..<m]" h1 ps rk 1] pre by (cases rk) (auto simp: adjusted_def)
  have "same_nodes h h2" using l1 h2(2) same_nodes_trans unfolding adjusted_def by blast
  then show ?thesis using h1(1) h2(1) linked_adjusted_inserted [OF h1(2) h2(2)] by blast
qed

text \<open>One level after the insertion; \<open>ps\<close> are the predecessors of the new node.\<close>

lemma inserted_seg:
  assumes sl: "sl_nodes rk s (A @ B)" and i: "i < kMaxHeight" and Q: "last_at (sl_heap s) i (sl_head s) 0 A = (q, e)"
    and ins: "inserted rk node ps height (sl_max_height s) (sl_heap s @ [N]) h2" and sn: "same_nodes (sl_heap s @ [N]) h2"
    and N: "nd_height N = height" and node: "node = length (sl_heap s)"
    and p: "i < sl_max_height s \<or> i < height \<Longrightarrow> fst (ps ! i) = q"
    and skip: "i < height \<Longrightarrow> rk \<Longrightarrow> skipped_at ps i = word_of_nat e"
  shows "seg rk h2 i (sl_head s) 0 (A @ node # B)"
proof -
  let ?h = "sl_heap s" and ?hd = "sl_head s" and ?m = "sl_max_height s"
  note sl' = sl_nodesD [OF sl] and nextF = insertedD(1) [OF ins] and spanF = insertedD(2) [OF ins]
  have lt: "a < length ?h" if "a \<in> set (?hd # A @ B)" for a using that sl'(1,7) by auto
  have seg: "seg rk ?h i ?hd 0 (A @ B)" by (rule sl'(11) [OF i])
  have qlt: "q < length ?h" using lt last_at_in [OF Q] by auto
  have n: "Node_Next (?h @ [N]) q i = Node_Next ?h q i" "Node_Span rk (?h @ [N]) q i = Node_Span rk ?h q i"
    using qlt by (simp_all add: Node_append)
  have z: "Node_Next ?h q i = Some None \<Longrightarrow> Node_Span rk ?h q i = Some 0"
    using seg_last [OF seg Q] by (rule seg_null)
  show ?thesis
  proof (rule insert_level [OF seg Q, where height = height])
    show "distinct (?hd # A @ B)" by (rule sl'(6))
    show "node = length ?h" by (rule node)
    show "nd_height (h2 ! node) = height" using sn N node by (auto simp: same_nodes_def)
    show "nd_height (h2 ! a) = nd_height (?h ! a)" if "a \<in> set (A @ B)" for a
      using sn lt [of a] that by (auto simp: same_nodes_def nth_append)
    show "a < length ?h" if "a \<in> set (?hd # A @ B)" for a using lt that .
    show "Node_Next h2 b i = Node_Next ?h b i \<and> Node_Span rk h2 b i = Node_Span rk ?h b i"
      if "b < length ?h" "b \<noteq> q" for b
      unfolding nextF spanF using that p by (auto simp: Node_append node)
    show "Node_Next h2 q i = Some (Some node) \<and> Node_Span rk h2 q i = Some (if rk then word_of_nat e else 0)
       \<and> Node_Next h2 node i = Node_Next ?h q i
       \<and> Node_Span rk h2 node i = (if \<not> rk \<or> Node_Next ?h q i = Some None then Some 0
             else map_option (\<lambda>s. s + (word_of_nat 0 - word_of_nat e)) (Node_Span rk ?h q i))" if "i < height"
      unfolding nextF spanF using that p skip qlt
      by (cases rk) (auto simp: Node_append node Node_Span_def [of False])
    show "Node_Next h2 q i = Node_Next ?h q i
       \<and> Node_Span rk h2 q i = (if \<not> rk \<or> Node_Next ?h q i = Some None then Some 0
             else map_option (\<lambda>s. s + (word_of_nat (Suc e) - word_of_nat e)) (Node_Span rk ?h q i))" if "\<not> i < height"
    proof (cases "i < ?m")
      case True
      then show ?thesis unfolding nextF spanF using that p n z by (cases rk) (auto simp: Node_Span_def [of False])
    next
      case False
      have "list_all (\<lambda>a. nd_height (?h ! a) \<le> i) (A @ B)" using sl'(9) False by (fastforce simp: list_all_iff)
      then have "Node_Next ?h q i = Some None" "Node_Span rk ?h q i = Some 0"
        using seg last_at_none [of ?h i A ?hd 0] Q by (simp_all add: seg_low)
      then show ?thesis unfolding nextF spanF using that False qlt by (simp add: Node_append node)
    qed
  qed
qed

lemma sorted_insert:
  fixes f :: "'a \<Rightarrow> 'k::linorder"
  assumes "sorted (map f (A @ B))" and "\<And>a. a \<in> set A \<Longrightarrow> f a < k" "\<And>b. b \<in> set B \<Longrightarrow> k \<le> f b"
    and "\<And>a. a \<in> set (A @ B) \<Longrightarrow> f' a = f a" "f' x = k"
  shows "sorted (map f' (A @ x # B))"
proof -
  have e: "map f' A = map f A" "map f' B = map f B" using assms(4) by auto
  have "f a \<le> f b" if "a \<in> set A" "b \<in> set B" for a b
    using assms(2) [OF that(1)] assms(3) [OF that(2)] by (metis less_imp_le order_trans)
  then show ?thesis using assms(1-3) unfolding map_append list.map e assms(5) by (auto simp: sorted_append less_imp_le)
qed

lemma inserted_nodes:
  fixes s :: "('k::linorder, 'v, 'g) SkipList"
  assumes sl: "sl_nodes rk s (A @ B)" and key: "\<And>a. a \<in> set A \<Longrightarrow> nd_key (sl_heap s ! a) < nd_key N"
      "\<And>b. b \<in> set B \<Longrightarrow> nd_key N \<le> nd_key (sl_heap s ! b)"
    and N: "nd_height N = height" "nd_next N = replicate height None" "nd_span N = (if rk then replicate height 0 else [])"
    and ht: "1 \<le> height" "height \<le> kMaxHeight"
    and sn: "same_nodes (sl_heap s @ [N]) h2" and node: "node = length (sl_heap s)"
    and lv: "\<And>i. i < kMaxHeight \<Longrightarrow> seg rk h2 i (sl_head s) 0 (A @ node # B)"
  shows "sl_nodes rk (s\<lparr>sl_max_height := (if sl_max_height s < height then height else sl_max_height s), sl_rng := g, sl_heap := h2\<rparr>)
          (A @ node # B)"
proof -
  let ?h = "sl_heap s" and ?hd = "sl_head s" and ?m = "sl_max_height s"
  note sl' = sl_nodesD [OF sl]
  have lt: "a < length ?h" if "a \<in> set (?hd # A @ B)" for a using that sl'(1,7) by auto
  have fields: "nd_height (h2 ! a) = nd_height (?h ! a) \<and> nd_key (h2 ! a) = nd_key (?h ! a)" if "a < length ?h" for a
    using sn that by (auto simp: same_nodes_def nth_append)
  have nfields: "nd_height (h2 ! node) = height" "nd_key (h2 ! node) = nd_key N"
    using sn N node by (auto simp: same_nodes_def)
  have len: "length h2 = Suc (length ?h)" using sn by (simp add: same_nodes_def)
  have so: "sorted (map (\<lambda>a. nd_key (h2 ! a)) (A @ node # B))"
    by (rule sorted_insert [OF sl'(10) key]) (use fields lt nfields in auto)
  have nok: "nodes_ok rk h2"
    using sl'(3) sn N ht by (auto simp: nodes_ok_def same_nodes_def nth_append less_Suc_eq)
  show ?thesis
  proof (rule sl_nodesI, goal_cases)
    case (7 a)
    then show ?case
      using lt [of a] fields [of a] sl'(8,9) [of a] nfields(1) ht len by (cases "a = node") (auto simp: node intro: le_trans)
  next
    case 6
    have "node \<notin> set (?hd # A @ B)" using lt by (auto simp: node)
    then show ?case using sl'(6) by auto
  qed (use sl'(1,2,4,5) nok lv so ht len fields in auto)
qed

lemma insert_nodes:
  fixes s :: "('k::linorder, 'v, 'g) SkipList"
  assumes sl: "sl_nodes rk s (A @ B)" and key: "\<And>a. a \<in> set A \<Longrightarrow> nd_key (sl_heap s ! a) < nd_key N"
      "\<And>b. b \<in> set B \<Longrightarrow> nd_key N \<le> nd_key (sl_heap s ! b)"
    and N: "nd_height N = height" "nd_next N = replicate height None" "nd_span N = (if rk then replicate height 0 else [])"
    and ht: "1 \<le> height" "height \<le> kMaxHeight"
    and ps: "\<And>i q e. i < sl_max_height s \<or> i < height \<Longrightarrow> last_at (sl_heap s) i (sl_head s) 0 A = (q, e) \<Longrightarrow>
        ps ! i = (q, if rk then - 1 + int (length A) - int e else - 1)"
  defines "node \<equiv> length (sl_heap s)"
  shows "\<exists>h1 h2. link_levels rk node ps [0..<height] (sl_heap s @ [N]) = Some h1
     \<and> (if rk then adjust_spans rk 1 ps [height..<sl_max_height s] h1 else Some h1) = Some h2
     \<and> sl_nodes rk (s\<lparr>sl_max_height := (if sl_max_height s < height then height else sl_max_height s), sl_rng := g, sl_heap := h2\<rparr>)
          (A @ node # B)
     \<and> same_nodes (sl_heap s @ [N]) h2"
proof -
  let ?h = "sl_heap s" and ?hd = "sl_head s" and ?m = "sl_max_height s"
  let ?ha = "?h @ [N]"
  note sl' = sl_nodesD [OF sl]
  define Q where "Q = (\<lambda>i. last_at ?h i ?hd 0 A)"
  have Q: "last_at ?h i ?hd 0 A = (fst (Q i), snd (Q i))" for i by (simp add: Q_def)
  have psQ: "ps ! i = (fst (Q i), if rk then - 1 + int (length A) - int (snd (Q i)) else - 1)" if "i < ?m \<or> i < height" for i
    by (rule ps [OF that Q])
  have Qlt: "fst (Q i) < length ?h" for i using sl'(1,7) last_at_in [OF Q, of i] by auto
  have defd: "Node_Next ?h (fst (Q i)) i \<noteq> None \<and> Node_Span rk ?h (fst (Q i)) i \<noteq> None" if "i < ?m \<or> i < height" for i
    using seg_defined [OF seg_last [OF sl'(11) Q]] that sl'(5) ht by auto
  have pre: "Node_Next ?ha (fst (ps ! i)) i \<noteq> None \<and> Node_Span rk ?ha (fst (ps ! i)) i \<noteq> None
      \<and> Node_Next ?ha node i \<noteq> None \<and> Node_Span rk ?ha node i \<noteq> None \<and> fst (ps ! i) \<noteq> node" if "i < height" for i
    using that defd [of i] Qlt [of i] N psQ [of i] by (simp add: Node_append node_def)
  have pre2: "Node_Next ?ha (fst (ps ! i)) i \<noteq> None \<and> Node_Span rk ?ha (fst (ps ! i)) i \<noteq> None" if "height \<le> i" "i < ?m" for i
    using that defd [of i] Qlt [of i] psQ [of i] by (simp add: Node_append)
  obtain h1 h2 where h: "link_levels rk node ps [0..<height] ?ha = Some h1"
      "(if rk then adjust_spans rk 1 ps [height..<?m] h1 else Some h1) = Some h2"
      "inserted rk node ps height ?m ?ha h2" "same_nodes ?ha h2"
    using link_and_adjust [of height ?ha ps rk node ?m, OF pre pre2] by blast
  have Q0: "snd (Q 0) = 0"
    using last_at_0 [of ?h A 0 ?hd] sl'(8) by (fastforce simp: Q_def list_all_iff)
  have skip: "skipped_at ps i = word_of_nat (snd (Q i))" if "i < height" rk for i
  proof -
    have "snd (ps ! 0) - snd (ps ! i) = int (snd (Q i)) - int 0"
      using psQ [of i] psQ [of 0] that Q0 sl'(4) ht by simp
    then show ?thesis unfolding skipped_at_def using word_of_int_diff_nat [of "snd (Q i)" 0] by simp
  qed
  have lv: "seg rk h2 i ?hd 0 (A @ node # B)" if "i < kMaxHeight" for i
    by (rule inserted_seg [OF sl that Q h(3,4) N(1)]) (use node_def psQ skip in auto)
  have "sl_nodes rk (s\<lparr>sl_max_height := (if ?m < height then height else ?m), sl_rng := g, sl_heap := h2\<rparr>) (A @ node # B)"
    by (rule inserted_nodes [OF sl key N ht h(4)]) (simp_all add: node_def lv [unfolded node_def])
  then show ?thesis using h(1,2,4) by blast
qed

subsection \<open>Insertion\<close>

lemma Equal_iff [simp]: "Equal a b \<longleftrightarrow> a = b"
  by (auto simp: Equal_def)

lemma takeWhile_entries: "takeWhile (\<lambda>x. fst x < key) (map (sl_entry h) L) = map (sl_entry h) (takeWhile (\<lambda>a. nd_key (h ! a) < key) L)"
  by (simp add: takeWhile_map comp_def sl_entry_def)

lemma dropWhile_entries: "dropWhile (\<lambda>x. fst x < key) (map (sl_entry h) L) = map (sl_entry h) (dropWhile (\<lambda>a. nd_key (h ! a) < key) L)"
  by (simp add: dropWhile_map comp_def sl_entry_def)

text \<open>The nodes below a key and the rest.\<close>

lemma sl_locate:
  assumes "sl_rep rk s es" and "length es < 2 ^ 63"
  obtains A B where "sl_nodes rk s (A @ B)" "es = map (sl_entry (sl_heap s)) (A @ B)"
    "takeWhile (\<lambda>x. fst x < key) es = map (sl_entry (sl_heap s)) A"
    "dropWhile (\<lambda>x. fst x < key) es = map (sl_entry (sl_heap s)) B"
    "\<And>a. a \<in> set A \<Longrightarrow> nd_key (sl_heap s ! a) < key" "\<And>b. b \<in> set B \<Longrightarrow> key \<le> nd_key (sl_heap s ! b)"
    "length (A @ B) < 2 ^ 63"
proof -
  let ?h = "sl_heap s"
  obtain L where L: "sl_nodes rk s L" "es = map (sl_entry ?h) L" using assms(1) by (auto simp: sl_rep_def)
  let ?A = "takeWhile (\<lambda>a. nd_key (?h ! a) < key) L" and ?B = "dropWhile (\<lambda>a. nd_key (?h ! a) < key) L"
  have "key \<le> nd_key (?h ! b)" if "b \<in> set ?B" for b
    by (rule dropWhile_ge [OF sl_nodesD(10) [OF L(1)] that])
  then show thesis
    using L assms(2) by (intro that [of ?A ?B]) (auto simp: takeWhile_entries dropWhile_entries dest: set_takeWhileD)
qed

lemma same_nodes_entries:
  assumes "same_nodes (h @ [N]) h2"
  shows "(\<And>a. a \<in> set L \<Longrightarrow> a < length h) \<Longrightarrow> map (sl_entry h2) L = map (sl_entry h) L"
    and "sl_entry h2 (length h) = (nd_key N, nd_seq N, nd_is_deleted N, nd_value N)"
proof -
  have e: "sl_entry h2 a = sl_entry (h @ [N]) a" if "a < Suc (length h)" for a
    using assms that by (simp add: same_nodes_def sl_entry_def)
  show "map (sl_entry h2) L = map (sl_entry h) L" if "\<And>a. a \<in> set L \<Longrightarrow> a < length h"
    using that e by (auto simp: sl_entry_def nth_append less_SucI)
  show "sl_entry h2 (length h) = (nd_key N, nd_seq N, nd_is_deleted N, nd_value N)"
    using e [of "length h"] by (simp add: sl_entry_def)
qed

lemma insert_rep:
  fixes s :: "('k::linorder, 'v, 'g) SkipList"
  assumes "sl_rep rk s es" and "length es < 2 ^ 63" and "1 \<le> height" "height \<le> kMaxHeight"
    and "nd_key N = key" "nd_height N = height" "nd_next N = replicate height None" "nd_span N = (if rk then replicate height 0 else [])"
  shows "\<exists>ps h1 h2. find_prev rk (sl_heap s) key (sl_max_height s) (sl_head s) (- 1) = Some ps
     \<and> link_levels rk (length (sl_heap s)) (ps @ replicate (height - sl_max_height s) (sl_head s, - 1)) [0..<height] (sl_heap s @ [N]) = Some h1
     \<and> (if rk then adjust_spans rk 1 (ps @ replicate (height - sl_max_height s) (sl_head s, - 1)) [height..<sl_max_height s] h1 else Some h1) = Some h2
     \<and> sl_rep rk (s\<lparr>sl_max_height := (if sl_max_height s < height then height else sl_max_height s), sl_rng := g, sl_heap := h2\<rparr>)
          (insert_entry (key, nd_seq N, nd_is_deleted N, nd_value N) es)"
proof -
  let ?h = "sl_heap s"
  from sl_locate [OF assms(1,2), of key] obtain A B where AB: "sl_nodes rk s (A @ B)"
      "es = map (sl_entry ?h) (A @ B)" "takeWhile (\<lambda>x. fst x < key) es = map (sl_entry ?h) A"
      "dropWhile (\<lambda>x. fst x < key) es = map (sl_entry ?h) B"
      "\<And>a. a \<in> set A \<Longrightarrow> nd_key (?h ! a) < key" "\<And>b. b \<in> set B \<Longrightarrow> key \<le> nd_key (?h ! b)" "length (A @ B) < 2 ^ 63"
    by metis
  obtain ps where ps: "find_prev rk ?h key (sl_max_height s) (sl_head s) (- 1) = Some ps" "length ps = sl_max_height s"
      "\<forall>i < sl_max_height s. ps ! i = (let (q, e) = last_at ?h i (sl_head s) 0 A in (q, if rk then - 1 + int (length A) - int e else - 1))"
    using sl_find_prev [OF AB(1) refl AB(5,6,7), of "- 1"] by blast
  let ?ps = "ps @ replicate (height - sl_max_height s) (sl_head s, - 1)"
  have k: "\<And>a. a \<in> set A \<Longrightarrow> nd_key (?h ! a) < nd_key N" "\<And>b. b \<in> set B \<Longrightarrow> nd_key N \<le> nd_key (?h ! b)"
    using AB(5,6) assms(5) by simp_all
  have p: "\<And>i q e. i < sl_max_height s \<or> i < height \<Longrightarrow> last_at ?h i (sl_head s) 0 A = (q, e) \<Longrightarrow>
      ?ps ! i = (q, if rk then - 1 + int (length A) - int e else - 1)"
    by (rule prev_extended [OF AB(1) ps(2,3)])
  obtain h1 h2 where h: "link_levels rk (length ?h) ?ps [0..<height] (?h @ [N]) = Some h1"
      "(if rk then adjust_spans rk 1 ?ps [height..<sl_max_height s] h1 else Some h1) = Some h2"
      "sl_nodes rk (s\<lparr>sl_max_height := (if sl_max_height s < height then height else sl_max_height s), sl_rng := g, sl_heap := h2\<rparr>)
          (A @ length ?h # B)" "same_nodes (?h @ [N]) h2"
    using insert_nodes [OF AB(1) k assms(6-8,3,4) p, where g = g] by blast
  have "map (sl_entry h2) A = map (sl_entry ?h) A" "map (sl_entry h2) B = map (sl_entry ?h) B"
    by (rule same_nodes_entries(1) [OF h(4)], use sl_nodesD(7) [OF AB(1)] in simp)+
  then have "insert_entry (key, nd_seq N, nd_is_deleted N, nd_value N) es = map (sl_entry h2) (A @ length ?h # B)"
    using same_nodes_entries(2) [OF h(4)] assms(5) by (simp add: insert_entry_def AB(3,4))
  then show ?thesis
    using ps(1) h(1,2,3) unfolding sl_rep_def by fastforce
qed

lemma SkipList_Insert_rep:
  assumes "sl_rep rk s es" and "length es < 2 ^ 63"
  shows "\<exists>s'. SkipList_Insert rk draw s key value seq = Some s' \<and> sl_rep rk s' (insert_entry (key, seq, False, value) es)"
proof -
  obtain height g where hg: "RandomHeight draw (sl_rng s) = (height, g)" by fastforce
  show ?thesis
    using insert_rep [OF assms, of height "NewNode rk key value seq height" key g] RandomHeight_bounds [OF hg] hg
    by (auto simp: SkipList_Insert_def NewNode_def Let_def)
qed

lemma insert_plain_rep:
  assumes "sl_rep False s es" and "length es < 2 ^ 63"
    and "\<And>height. new_node height = (NewNode False key value seq height)\<lparr>nd_is_deleted := del\<rparr>"
  shows "\<exists>s'. insert_plain draw s key new_node = Some s' \<and> sl_rep False s' (insert_entry (key, seq, del, value) es)"
proof -
  obtain height g where hg: "RandomHeight draw (sl_rng s) = (height, g)" by fastforce
  show ?thesis
    using assms(3) [of height] insert_rep [OF assms(1,2), of height "new_node height" key g] RandomHeight_bounds [OF hg] hg
    by (auto simp: insert_plain_def NewNode_def Let_def)
qed

lemma SkipList_InsertDeletion_rep:
  "sl_rep False s es \<Longrightarrow> length es < 2 ^ 63 \<Longrightarrow>
     \<exists>s'. SkipList_InsertDeletion False draw value0 s key seq = Some s' \<and> sl_rep False s' (insert_entry (key, seq, True, value0) es)"
  unfolding SkipList_InsertDeletion_def by (rule insert_plain_rep) auto

lemma insert_view_rep:
  assumes "sl_rep False s es" and "length es < 2 ^ 63"
  shows "\<exists>s'. SkipList_Insert_view False draw s key value seq = Some s' \<and> sl_rep False s' (insert_entry (key, seq, False, value) es)"
    and "\<exists>s'. SkipList_InsertDeletion_view False draw s key seq = Some s' \<and> sl_rep False s' (insert_entry (key, seq, True, []) es)"
  unfolding SkipList_Insert_view_def SkipList_InsertDeletion_view_def
  by (rule insert_plain_rep [OF assms], simp add: NewNode_def) (rule insert_plain_rep [OF assms], rule refl)

subsection \<open>Search and iteration\<close>

text \<open>An iterator stands before the rest \<open>es\<close> of the sequence.\<close>

definition sl_at :: "bool \<Rightarrow> ('k::linorder, 'v, 'g) SkipList \<Rightarrow> ('k \<times> u64 \<times> bool \<times> 'v) list \<Rightarrow> addr option \<Rightarrow> ('k \<times> u64 \<times> bool \<times> 'v) list \<Rightarrow> bool" where
  "sl_at rk s es it rest \<longleftrightarrow> (\<exists>A B. sl_nodes rk s (A @ B) \<and> es = map (sl_entry (sl_heap s)) (A @ B)
     \<and> rest = map (sl_entry (sl_heap s)) B \<and> it = (case B of [] \<Rightarrow> None | b # _ \<Rightarrow> Some b))"

lemma sl_atI:
  "sl_nodes rk s (A @ B) \<Longrightarrow> es = map (sl_entry (sl_heap s)) (A @ B) \<Longrightarrow> rest = map (sl_entry (sl_heap s)) B \<Longrightarrow>
     it = (case B of [] \<Rightarrow> None | b # _ \<Rightarrow> Some b) \<Longrightarrow> sl_at rk s es it rest"
  by (auto simp: sl_at_def)

lemma next_after:
  assumes "sl_nodes rk s (A @ B)" and "last_at (sl_heap s) 0 (sl_head s) 0 A = (q, e)"
  shows "Node_Next (sl_heap s) q 0 = Some (case B of [] \<Rightarrow> None | b # _ \<Rightarrow> Some b)"
proof -
  have "seg rk (sl_heap s) 0 q e B"
    using seg_last [OF sl_nodesD(11) [OF assms(1)] assms(2)] by (simp add: kMaxHeight_def)
  then show ?thesis using sl_nodesD(8) [OF assms(1)] by (cases B) fastforce+
qed

lemma seg_unranked: "seg rk h i p d L \<Longrightarrow> seg False h i p d L"
  by (induction L arbitrary: p d) (auto simp: Node_Span_def split: if_splits)

text \<open>The descent that all searches share.\<close>

lemma sl_descend:
  assumes "sl_nodes rk s (A @ B)" and "\<And>a. a \<in> set A \<Longrightarrow> nd_key (sl_heap s ! a) < key"
    and "\<And>b. b \<in> set B \<Longrightarrow> key \<le> nd_key (sl_heap s ! b)" and "length (A @ B) < 2 ^ 63"
  obtains ps where "find_prev False (sl_heap s) key (sl_max_height s) (sl_head s) (- 1) = Some ps"
    "\<And>i. i < sl_max_height s \<Longrightarrow> fst (ps ! i) = fst (last_at (sl_heap s) i (sl_head s) 0 A)"
    "Node_Next (sl_heap s) (fst (ps ! 0)) 0 = Some (case B of [] \<Rightarrow> None | b # _ \<Rightarrow> Some b)"
proof -
  note sl = sl_nodesD [OF assms(1)]
  have "\<exists>ps. find_prev False (sl_heap s) key (sl_max_height s) (sl_head s) (- 1) = Some ps \<and> length ps = sl_max_height s
     \<and> (\<forall>i < sl_max_height s. ps ! i = (let (q, e) = last_at (sl_heap s) i (sl_head s) 0 A
          in (q, if False then - 1 + int (length A) - int e else - 1)))"
    by (rule find_prev_seg [where B = B])
      (use assms sl(5,7) seg_unranked [OF sl(11)] in \<open>auto simp: not_less\<close>)
  then obtain ps where ps: "find_prev False (sl_heap s) key (sl_max_height s) (sl_head s) (- 1) = Some ps"
      "\<forall>i < sl_max_height s. ps ! i = (let (q, e) = last_at (sl_heap s) i (sl_head s) 0 A
          in (q, if False then - 1 + int (length A) - int e else - 1))" by blast
  have p: "fst (ps ! i) = fst (last_at (sl_heap s) i (sl_head s) 0 A)" if "i < sl_max_height s" for i
    using ps(2) that by (simp add: case_prod_unfold)
  have "Node_Next (sl_heap s) (fst (ps ! 0)) 0 = Some (case B of [] \<Rightarrow> None | b # _ \<Rightarrow> Some b)"
    using next_after [OF assms(1)] p [of 0] sl(4) by (metis One_nat_def Suc_le_lessD prod.collapse)
  then show thesis using that ps(1) p by blast
qed

lemma SkipList_SeekGE_at:
  assumes "sl_rep rk s es" and "length es < 2 ^ 63"
  shows "\<exists>it. SkipList_SeekGE s key = Some it \<and> sl_at rk s es it (dropWhile (\<lambda>x. fst x < key) es)"
proof -
  from sl_locate [OF assms, of key] obtain A B where AB: "sl_nodes rk s (A @ B)"
      "es = map (sl_entry (sl_heap s)) (A @ B)" "dropWhile (\<lambda>x. fst x < key) es = map (sl_entry (sl_heap s)) B"
      "\<And>a. a \<in> set A \<Longrightarrow> nd_key (sl_heap s ! a) < key" "\<And>b. b \<in> set B \<Longrightarrow> key \<le> nd_key (sl_heap s ! b)" "length (A @ B) < 2 ^ 63"
    by metis
  show ?thesis
    by (rule sl_descend [OF AB(1,4,5,6)]) (use AB(1-3) in \<open>auto simp: SkipList_SeekGE_def sl_at_def\<close>)
qed

lemma sl_at_entry:
  assumes "sl_at rk s es it (e # rest)"
  obtains a where "it = Some a" "a < length (sl_heap s)" "sl_entry (sl_heap s) a = e"
  using assms sl_nodesD(7) by (fastforce simp: sl_at_def)

lemma sl_at_end: "sl_at rk s es it [] \<Longrightarrow> it = None"
  by (auto simp: sl_at_def)

lemma sl_at_sorted: "sl_at rk s es it rest \<Longrightarrow> sorted (map fst rest)"
  using sl_nodesD(10) by (fastforce simp: sl_at_def sl_entry_def sorted_append comp_def)

lemma Iterator_Next_at:
  assumes "sl_at rk s es it (e # rest)"
  shows "\<exists>it'. Iterator_Next s it = Some it' \<and> sl_at rk s es it' rest"
proof -
  obtain A b B where AB: "sl_nodes rk s (A @ b # B)" "es = map (sl_entry (sl_heap s)) (A @ b # B)"
      "rest = map (sl_entry (sl_heap s)) B" "it = Some b"
    using assms by (auto simp: sl_at_def)
  have "last_at (sl_heap s) 0 (sl_head s) 0 (A @ [b]) = (b, 0)"
    using sl_nodesD(8) [OF AB(1), of b] by (simp add: last_at_through)
  then have "Node_Next (sl_heap s) b 0 = Some (case B of [] \<Rightarrow> None | b # _ \<Rightarrow> Some b)"
    using next_after [of rk s "A @ [b]" B b 0] AB(1) by simp
  moreover have "sl_at rk s es (case B of [] \<Rightarrow> None | b # _ \<Rightarrow> Some b) rest"
    by (rule sl_atI [of _ _ "A @ [b]" B]) (use AB in auto)
  ultimately show ?thesis using AB(4) by (simp add: Iterator_Next_def)
qed

lemma SkipList_SeekToFirst_at:
  assumes "sl_rep rk s es"
  shows "\<exists>it. SkipList_SeekToFirst s = Some it \<and> sl_at rk s es it es"
proof -
  obtain L where L: "sl_nodes rk s L" "es = map (sl_entry (sl_heap s)) L" using assms by (auto simp: sl_rep_def)
  have "Node_Next (sl_heap s) (sl_head s) 0 = Some (case L of [] \<Rightarrow> None | b # _ \<Rightarrow> Some b)"
    by (rule next_after [of rk s "[]"]) (simp_all add: L(1))
  moreover have "sl_at rk s es (case L of [] \<Rightarrow> None | b # _ \<Rightarrow> Some b) es"
    by (rule sl_atI [of _ _ "[]" L]) (use L in auto)
  ultimately show ?thesis by (simp add: SkipList_SeekToFirst_def)
qed

lemma SkipList_Find_at:
  assumes "sl_rep rk s es" and "length es < 2 ^ 63"
  shows "\<exists>it. SkipList_Find s key = Some it
     \<and> (if key \<in> fst ` set es then sl_at rk s es it (dropWhile (\<lambda>x. fst x < key) es) else it = None)"
proof -
  obtain it where it: "SkipList_SeekGE s key = Some it" "sl_at rk s es it (dropWhile (\<lambda>x. fst x < key) es)"
    using SkipList_SeekGE_at [OF assms] by blast
  let ?B = "dropWhile (\<lambda>x. fst x < key) es"
  have so: "sorted (map fst es)"
    using assms(1) sl_nodesD(10) by (fastforce simp: sl_rep_def sl_entry_def comp_def)
  have eq: "SkipList_Find s key = (case it of None \<Rightarrow> Some None
      | Some a \<Rightarrow> map_option (\<lambda>k. if k = key then Some a else None) (Node_key (sl_heap s) a))"
    using it(1) by (auto simp: SkipList_SeekGE_def SkipList_Find_def split: bind_splits option.splits)
  show ?thesis
  proof (cases ?B)
    case Nil
    then have "key \<notin> fst ` set es" by (auto simp: dropWhile_eq_Nil_conv)
    then show ?thesis using eq it(2) Nil sl_at_end by fastforce
  next
    case (Cons e rest)
    then obtain a where a: "it = Some a" "a < length (sl_heap s)" "sl_entry (sl_heap s) a = e"
      using it(2) by (metis sl_at_entry)
    have "key \<in> fst ` set es \<longleftrightarrow> fst e = key"
    proof
      assume "fst e = key"
      then show "key \<in> fst ` set es" using Cons by (metis image_eqI list.set_intros(1) set_dropWhileD)
    next
      assume "key \<in> fst ` set es"
      then obtain x where x: "x \<in> set es" "fst x = key" by auto
      then have "x \<in> set ?B" by (metis UnE less_irrefl set_append set_takeWhileD takeWhile_dropWhile_id)
      moreover have "sorted (map fst (e # rest))" using so Cons by (metis sl_at_sorted it(2))
      moreover have "key \<le> fst e" using hd_dropWhile [of "\<lambda>x. fst x < key" es] Cons by auto
      ultimately show "fst e = key" using x(2) Cons by auto
    qed
    then show ?thesis using eq a it(2) by (auto simp: Node_key_def sl_entry_def)
  qed
qed

lemma SkipList_Contains_Find:
  "SkipList_Contains s key = map_option (\<lambda>it. it \<noteq> None) (SkipList_Find s key)"
  by (auto simp: SkipList_Contains_def SkipList_Find_def split: bind_splits option.splits)

lemma view_overloads:
  "SkipList_Find_view s key = SkipList_Find s key" "SkipList_Contains_view s key = SkipList_Contains s key"
  "SkipList_SeekGE_view s key = SkipList_SeekGE s key"
  unfolding SkipList_Find_view_def SkipList_Find_def SkipList_Contains_view_def SkipList_Contains_def
    SkipList_SeekGE_view_def SkipList_SeekGE_def Equal_iff by (rule refl)+

subsection \<open>Deletion\<close>

definition remove_entry :: "'k::linorder \<Rightarrow> ('k \<times> 'e) list \<Rightarrow> ('k \<times> 'e) list" where
  "remove_entry key es = takeWhile (\<lambda>x. fst x < key) es
     @ (case dropWhile (\<lambda>x. fst x < key) es of [] \<Rightarrow> [] | e # rest \<Rightarrow> if fst e = key then rest else e # rest)"

text \<open>What unlinking does to the pointers and spans, over all levels.\<close>

definition removed :: "bool \<Rightarrow> addr \<Rightarrow> (addr \<times> int) list \<Rightarrow> nat \<Rightarrow> nat \<Rightarrow> ('k, 'v) heap \<Rightarrow> ('k, 'v) heap \<Rightarrow> bool" where
  "removed rk target ps height m h h2 \<longleftrightarrow>
     (\<forall>b j. Node_Next h2 b j = (if j < height \<and> b = fst (ps ! j) then Node_Next h target j else Node_Next h b j))
     \<and> (\<forall>b j. Node_Span rk h2 b j = (if rk \<and> j < height \<and> b = fst (ps ! j)
        then (if Node_Next h target j = Some None then Some 0
              else Some (the (Node_Span rk h b j) + the (Node_Span rk h target j)))
        else if rk \<and> \<not> j < height \<and> j < m \<and> b = fst (ps ! j) \<and> Node_Next h b j \<noteq> Some None
        then map_option (\<lambda>s. s + (- 1)) (Node_Span rk h b j) else Node_Span rk h b j))"

lemma removedD:
  assumes "removed rk target ps height m h h2"
  shows "Node_Next h2 b j = (if j < height \<and> b = fst (ps ! j) then Node_Next h target j else Node_Next h b j)"
    and "Node_Span rk h2 b j = (if rk \<and> j < height \<and> b = fst (ps ! j)
        then (if Node_Next h target j = Some None then Some 0
              else Some (the (Node_Span rk h b j) + the (Node_Span rk h target j)))
        else if rk \<and> \<not> j < height \<and> j < m \<and> b = fst (ps ! j) \<and> Node_Next h b j \<noteq> Some None
        then map_option (\<lambda>s. s + (- 1)) (Node_Span rk h b j) else Node_Span rk h b j)"
  using assms unfolding removed_def by blast+

lemma unlinked_adjusted_removed:
  assumes l1: "unlinked rk target ps {0..<height} h h1" and l2: "adjusted rk (- 1) ps {height..<m} h1 h2"
  shows "removed rk target ps height m h h2"
proof -
  note l1 = l1 [unfolded unlinked_def] and l2 = l2 [unfolded adjusted_def]
  have n1: "Node_Next h1 b j = (if j \<in> {0..<height} \<and> b = fst (ps ! j) then Node_Next h target j else Node_Next h b j)" for b j
    using l1 by blast
  have s1: "Node_Span rk h1 b j = (if rk \<and> j \<in> {0..<height} \<and> b = fst (ps ! j)
      then (if Node_Next h target j = Some None then Some 0
            else Some (the (Node_Span rk h b j) + the (Node_Span rk h target j)))
      else Node_Span rk h b j)" for b j
    using l1 by blast
  have n2: "Node_Next h2 b j = Node_Next h1 b j" for b j using l2 by blast
  have s2: "Node_Span rk h2 b j = (if rk \<and> j \<in> {height..<m} \<and> b = fst (ps ! j) \<and> Node_Next h1 b j \<noteq> Some None
      then map_option (\<lambda>s. s + (- 1)) (Node_Span rk h1 b j) else Node_Span rk h1 b j)" for b j
    using l2 by blast
  have "Node_Span rk h2 b j = (if rk \<and> j < height \<and> b = fst (ps ! j)
      then (if Node_Next h target j = Some None then Some 0
            else Some (the (Node_Span rk h b j) + the (Node_Span rk h target j)))
      else if rk \<and> \<not> j < height \<and> j < m \<and> b = fst (ps ! j) \<and> Node_Next h b j \<noteq> Some None
      then map_option (\<lambda>s. s + (- 1)) (Node_Span rk h b j) else Node_Span rk h b j)" for b j
  proof (cases "j < height")
    case True
    then show ?thesis unfolding s2 s1 by simp
  next
    case False
    have e: "Node_Span rk h1 b j = Node_Span rk h b j" "Node_Next h1 b j = Node_Next h b j"
      using False by (simp_all add: s1 n1)
    show ?thesis using False unfolding s2 e by simp
  qed
  then show ?thesis unfolding removed_def n2 n1 by simp
qed

lemma unlink_and_adjust:
  assumes "\<And>i. i < height \<Longrightarrow> Node_Next h (fst (ps ! i)) i \<noteq> None \<and> Node_Span rk h (fst (ps ! i)) i \<noteq> None
      \<and> Node_Next h target i \<noteq> None \<and> Node_Span rk h target i \<noteq> None \<and> fst (ps ! i) \<noteq> target"
    and "\<And>i. height \<le> i \<Longrightarrow> i < m \<Longrightarrow> Node_Next h (fst (ps ! i)) i \<noteq> None \<and> Node_Span rk h (fst (ps ! i)) i \<noteq> None"
  shows "\<exists>h1 h2. unlink_levels rk target ps [0..<height] h = Some h1
     \<and> (if rk then adjust_spans rk (- 1) ps [height..<m] h1 else Some h1) = Some h2
     \<and> removed rk target ps height m h h2 \<and> same_nodes h h2"
proof -
  obtain h1 where h1: "unlink_levels rk target ps [0..<height] h = Some h1" "unlinked rk target ps {0..<height} h h1"
    using unlink_levels_unlinked [of "[0..<height]" h ps rk target] assms(1) by auto
  note l1 = h1(2) [unfolded unlinked_def]
  have pre: "Node_Next h1 (fst (ps ! i)) i \<noteq> None \<and> Node_Span rk h1 (fst (ps ! i)) i \<noteq> None" if "i \<in> set [height..<m]" for i
    using that assms(2) [of i] l1 by auto
  obtain h2 where h2: "(if rk then adjust_spans rk (- 1) ps [height..<m] h1 else Some h1) = Some h2"
      "adjusted rk (- 1) ps {height..<m} h1 h2"
    using adjust_spans_adjusted [of "[height..<m]" h1 ps rk "- 1"] pre by (cases rk) (auto simp: adjusted_def)
  have "same_nodes h h2" using l1 h2(2) same_nodes_trans unfolding adjusted_def by blast
  then show ?thesis using h1(1) h2(1) unlinked_adjusted_removed [OF h1(2) h2(2)] by blast
qed

lemma removed_seg:
  assumes sl: "sl_nodes rk s (A @ t # B)" and i: "i < kMaxHeight" and Q: "last_at (sl_heap s) i (sl_head s) 0 A = (q, e)"
    and rem: "removed rk t ps (nd_height (sl_heap s ! t)) (sl_max_height s) (sl_heap s) h2" and sn: "same_nodes (sl_heap s) h2"
    and p: "i < sl_max_height s \<Longrightarrow> fst (ps ! i) = q"
  shows "seg rk h2 i (sl_head s) 0 (A @ B)"
proof -
  let ?h = "sl_heap s" and ?hd = "sl_head s" and ?m = "sl_max_height s"
  note sl' = sl_nodesD [OF sl] and nextF = removedD(1) [OF rem] and spanF = removedD(2) [OF rem]
  have seg: "seg rk ?h i ?hd 0 (A @ t # B)" by (rule sl'(11) [OF i])
  have segq: "seg rk ?h i q e (t # B)" by (rule seg_last [OF seg Q])
  have qA: "q \<in> set (?hd # A)" using last_at_in [OF Q] by auto
  have hts: "nd_height (h2 ! a) = nd_height (?h ! a)" if "a \<in> set (A @ B)" for a
    using sn sl'(7) [of a] that by (auto simp: same_nodes_def)
  have low: "i < ?m" if "i < nd_height (?h ! t)" using sl'(9) [of t] that by simp
  have fr: "Node_Next h2 b i = Node_Next ?h b i \<and> Node_Span rk h2 b i = Node_Span rk ?h b i" if "b \<noteq> q" for b
    unfolding nextF spanF using that p low by auto
  have qB: "a \<noteq> q" if "a \<in> set B" for a using that qA sl'(6) by auto
  show ?thesis
  proof (rule seg_change [OF seg Q])
    show "distinct (?hd # A)" using sl'(6) by auto
    show "seg rk h2 i q e B"
    proof (cases "i < nd_height (?h ! t)")
      case True
      have s: "Node_Next ?h q i = Some (Some t)" "Node_Span rk ?h q i = Some (if rk then word_of_nat e else 0)" "seg rk ?h i t 0 B"
        using segq True by simp_all
      obtain st where st: "Node_Span rk ?h t i = Some st" using seg_defined [OF s(3)] by auto
      show ?thesis
      proof (rule seg_hop [OF s(3)])
        show "Node_Next h2 q i = Node_Next ?h t i" unfolding nextF using True p low by simp
        show "Node_Span rk h2 q i = (if \<not> rk \<or> Node_Next ?h t i = Some None then Some 0
           else map_option (\<lambda>s. s + (word_of_nat e - word_of_nat 0)) (Node_Span rk ?h t i))"
          unfolding spanF using True p low s(2) st by (cases rk) (auto simp: Node_Span_def [of False])
      qed (use hts fr qB in auto)
    next
      case False
      then have s: "seg rk ?h i q (Suc e) B" using segq by simp
      have z: "Node_Next ?h q i = Some None \<Longrightarrow> Node_Span rk ?h q i = Some 0" by (rule seg_null [OF s])
      have w: "word_of_nat e - word_of_nat (Suc e) = (- 1 :: u64)" by simp
      have hi: "Node_Next ?h q i = Some None" if "\<not> i < ?m"
      proof -
        have "list_all (\<lambda>a. nd_height (?h ! a) \<le> i) B" using sl'(9) that by (fastforce simp: list_all_iff)
        then show ?thesis using s by (simp add: seg_low)
      qed
      show ?thesis
      proof (rule seg_hop [OF s])
        show "Node_Next h2 q i = Node_Next ?h q i" unfolding nextF using False by simp
        show "Node_Span rk h2 q i = (if \<not> rk \<or> Node_Next ?h q i = Some None then Some 0
           else map_option (\<lambda>s. s + (word_of_nat e - word_of_nat (Suc e))) (Node_Span rk ?h q i))"
          unfolding spanF w using False p hi z by (cases rk; cases "i < ?m") (simp_all add: Node_Span_def [of False])
      qed (use hts fr qB in auto)
    qed
  qed (use hts fr in auto)
qed

lemma removed_nodes:
  fixes s :: "('k::linorder, 'v, 'g) SkipList"
  assumes sl: "sl_nodes rk s (A @ t # B)" and sn: "same_nodes (sl_heap s) h2"
    and lv: "\<And>i. i < kMaxHeight \<Longrightarrow> seg rk h2 i (sl_head s) 0 (A @ B)"
  shows "sl_nodes rk (s\<lparr>sl_heap := h2\<rparr>) (A @ B)"
proof -
  note sl' = sl_nodesD [OF sl]
  have len: "length h2 = length (sl_heap s)" using sn by (simp add: same_nodes_def)
  have fields: "nd_height (h2 ! a) = nd_height (sl_heap s ! a)" "nd_key (h2 ! a) = nd_key (sl_heap s ! a)"
    if "a < length (sl_heap s)" for a using sn that by (auto simp: same_nodes_def)
  have e: "map (\<lambda>a. nd_key (h2 ! a)) (A @ B) = map (\<lambda>a. nd_key (sl_heap s ! a)) (A @ B)"
    using fields(2) sl'(7) by auto
  have so: "sorted (map (\<lambda>a. nd_key (h2 ! a)) (A @ B))" unfolding e using sl'(10) by (auto simp: sorted_append)
  have nok: "nodes_ok rk h2" using sl'(3) sn by (auto simp: nodes_ok_def same_nodes_def)
  show ?thesis
    by (rule sl_nodesI) (use sl'(1,2,4,5,6,7,8,9) fields len so nok lv in auto)
qed

lemma erase_nodes:
  assumes sl: "sl_nodes rk s (A @ t # B)"
    and ps: "\<And>i. i < sl_max_height s \<Longrightarrow> fst (ps ! i) = fst (last_at (sl_heap s) i (sl_head s) 0 A)"
  shows "\<exists>h1 h2. unlink_levels rk t ps [0..<nd_height (sl_heap s ! t)] (sl_heap s) = Some h1
     \<and> (if rk then adjust_spans rk (- 1) ps [nd_height (sl_heap s ! t)..<sl_max_height s] h1 else Some h1) = Some h2
     \<and> sl_nodes rk (s\<lparr>sl_heap := h2\<rparr>) (A @ B) \<and> same_nodes (sl_heap s) h2"
proof -
  let ?h = "sl_heap s" and ?hd = "sl_head s" and ?m = "sl_max_height s"
  let ?ht = "nd_height (?h ! t)"
  note sl' = sl_nodesD [OF sl]
  define Q where "Q = (\<lambda>i. last_at ?h i ?hd 0 A)"
  have Q: "last_at ?h i ?hd 0 A = (fst (Q i), snd (Q i))" for i by (simp add: Q_def)
  have psQ: "fst (ps ! i) = fst (Q i)" if "i < ?m" for i using ps that by (simp add: Q_def)
  have hm: "?ht \<le> ?m" using sl'(9) [of t] by simp
  have segq: "seg rk ?h i (fst (Q i)) (snd (Q i)) (t # B)" if "i < ?m" for i
    by (rule seg_last [OF sl'(11) Q]) (use that sl'(5) in auto)
  have ne: "fst (Q i) \<noteq> t" for i using last_at_in [OF Q, of i] sl'(6) by auto
  have pre2: "Node_Next ?h (fst (ps ! i)) i \<noteq> None \<and> Node_Span rk ?h (fst (ps ! i)) i \<noteq> None" if "i < ?m" for i
    using seg_defined [OF segq [OF that]] psQ [OF that] by simp
  have pre: "Node_Next ?h (fst (ps ! i)) i \<noteq> None \<and> Node_Span rk ?h (fst (ps ! i)) i \<noteq> None
      \<and> Node_Next ?h t i \<noteq> None \<and> Node_Span rk ?h t i \<noteq> None \<and> fst (ps ! i) \<noteq> t" if "i < ?ht" for i
  proof -
    have im: "i < ?m" using that hm by simp
    have "seg rk ?h i t 0 B" using segq [OF im] that by simp
    from seg_defined [OF this] show ?thesis using pre2 [OF im] psQ [OF im] ne [of i] by simp
  qed
  obtain h1 h2 where h: "unlink_levels rk t ps [0..<?ht] ?h = Some h1"
      "(if rk then adjust_spans rk (- 1) ps [?ht..<?m] h1 else Some h1) = Some h2"
      "removed rk t ps ?ht ?m ?h h2" "same_nodes ?h h2"
    using unlink_and_adjust [of ?ht ?h ps rk t ?m, OF pre pre2] by blast
  have lv: "seg rk h2 i ?hd 0 (A @ B)" if "i < kMaxHeight" for i
    by (rule removed_seg [OF sl that Q h(3,4)]) (rule psQ)
  show ?thesis using h(1,2,4) removed_nodes [OF sl h(4) lv] by blast
qed

lemma SkipList_Erase_rep:
  assumes "sl_rep rk s es" and "length es < 2 ^ 63"
  shows "\<exists>s'. SkipList_Erase rk s key = Some (key \<in> fst ` set es, s') \<and> sl_rep rk s' (remove_entry key es)"
proof -
  let ?h = "sl_heap s"
  from sl_locate [OF assms, of key] obtain A B where AB: "sl_nodes rk s (A @ B)"
      "es = map (sl_entry ?h) (A @ B)" "takeWhile (\<lambda>x. fst x < key) es = map (sl_entry ?h) A"
      "dropWhile (\<lambda>x. fst x < key) es = map (sl_entry ?h) B"
      "\<And>a. a \<in> set A \<Longrightarrow> nd_key (?h ! a) < key" "\<And>b. b \<in> set B \<Longrightarrow> key \<le> nd_key (?h ! b)" "length (A @ B) < 2 ^ 63"
    by metis
  from sl_descend [OF AB(1,5,6,7)] obtain ps where
    ps: "find_prev False ?h key (sl_max_height s) (sl_head s) (- 1) = Some ps"
      "\<And>i. i < sl_max_height s \<Longrightarrow> fst (ps ! i) = fst (last_at ?h i (sl_head s) 0 A)"
      "Node_Next ?h (fst (ps ! 0)) 0 = Some (case B of [] \<Rightarrow> None | b # _ \<Rightarrow> Some b)" by metis
  have notA: "key \<notin> fst ` set (map (sl_entry ?h) A)" using AB(5) by (force simp: sl_entry_def)
  have es: "remove_entry key es = map (sl_entry ?h) A @ (case map (sl_entry ?h) B of [] \<Rightarrow> []
      | e # rest \<Rightarrow> if fst e = key then rest else e # rest)" by (simp add: remove_entry_def AB(3,4))
  show ?thesis
  proof (cases B)
    case Nil
    have "key \<notin> fst ` set es" using notA AB(2) Nil by simp
    then show ?thesis using ps Nil es AB(2) assms(1) by (simp add: SkipList_Erase_def)
  next
    case (Cons t B')
    have lt: "t < length ?h" using sl_nodesD(7) [OF AB(1)] Cons by simp
    show ?thesis
    proof (cases "nd_key (?h ! t) = key")
      case False
      have so: "sorted (map (\<lambda>a. nd_key (?h ! a)) B)" using sl_nodesD(10) [OF AB(1)] by (simp add: sorted_append)
      have "key < nd_key (?h ! b)" if "b \<in> set B" for b
      proof -
        have "nd_key (?h ! t) \<le> nd_key (?h ! b)" using so that Cons by auto
        then show ?thesis using AB(6) [of t] False Cons by auto
      qed
      then have "key \<notin> fst ` set es" using notA unfolding AB(2) by (fastforce simp: sl_entry_def)
      then show ?thesis using ps Cons lt False es AB(2) assms(1)
        by (simp add: SkipList_Erase_def Node_key_def sl_entry_def)
    next
      case True
      have kin: "key \<in> fst ` set es" using True by (simp add: AB(2) Cons sl_entry_def)
      obtain h1 h2 where h: "unlink_levels rk t ps [0..<nd_height (?h ! t)] ?h = Some h1"
          "(if rk then adjust_spans rk (- 1) ps [nd_height (?h ! t)..<sl_max_height s] h1 else Some h1) = Some h2"
          "sl_nodes rk (s\<lparr>sl_heap := h2\<rparr>) (A @ B')" "same_nodes ?h h2"
        using erase_nodes [OF AB(1) [unfolded Cons] ps(2)] by blast
      have "map (sl_entry h2) (A @ B') = map (sl_entry ?h) (A @ B')"
        using h(4) sl_nodesD(7) [OF AB(1)] Cons by (auto simp: same_nodes_def sl_entry_def)
      then have "sl_rep rk (s\<lparr>sl_heap := h2\<rparr>) (remove_entry key es)"
        unfolding sl_rep_def using h(3) es Cons True by (intro exI [of _ "A @ B'"]) (simp add: sl_entry_def)
      moreover have "SkipList_Erase rk s key = Some (True, s\<lparr>sl_heap := h2\<rparr>)"
        using ps(1,3) Cons lt True h(1,2) by (simp add: SkipList_Erase_def Node_key_def)
      ultimately show ?thesis using kin by auto
    qed
  qed
qed

subsection \<open>Positions\<close>

lemma last_at_level0:
  assumes "list_all (\<lambda>a. 0 < nd_height (h ! a)) A"
  shows "last_at h 0 p 0 A = ((if A = [] then p else last A), 0)"
  using assms by (induction A arbitrary: p) auto

lemma sint_small: "unat k < 2 ^ 63 \<Longrightarrow> sint (k :: u64) = int (unat k)"
  using sint_word_of_nat [of "unat k"] by simp

lemma sint_negative: "\<not> unat k < 2 ^ 63 \<Longrightarrow> sint (k :: u64) < 0"
proof (rule ccontr)
  assume "\<not> unat k < 2 ^ 63" "\<not> sint k < 0"
  then have "uint k = sint k" using uint_sint [of k] sint_lt [of k] by (simp add: take_bit_int_eq_self)
  then show False using \<open>\<not> unat k < 2 ^ 63\<close> sint_lt [of k] by (simp flip: nat_uint_eq)
qed

lemma SkipList_RankOf_rep:
  assumes "sl_rep True s es" and "length es < 2 ^ 63"
  shows "SkipList_RankOf s key =
     Some (if key \<in> fst ` set es then int (length (takeWhile (\<lambda>x. fst x < key) es)) else - 1)"
proof -
  let ?h = "sl_heap s"
  from sl_locate [OF assms, of key] obtain A B where AB: "sl_nodes True s (A @ B)"
      "es = map (sl_entry ?h) (A @ B)" "takeWhile (\<lambda>x. fst x < key) es = map (sl_entry ?h) A"
      "dropWhile (\<lambda>x. fst x < key) es = map (sl_entry ?h) B"
      "\<And>a. a \<in> set A \<Longrightarrow> nd_key (?h ! a) < key" "\<And>b. b \<in> set B \<Longrightarrow> key \<le> nd_key (?h ! b)" "length (A @ B) < 2 ^ 63"
    by metis
  note sl = sl_nodesD [OF AB(1)]
  obtain ps where ps: "find_prev True ?h key (sl_max_height s) (sl_head s) (- 1) = Some ps"
      "\<forall>i < sl_max_height s. ps ! i = (let (q, e) = last_at ?h i (sl_head s) 0 A in (q, if True then - 1 + int (length A) - int e else - 1))"
    using sl_find_prev [OF AB(1) refl AB(5,6,7), of "- 1"] by blast
  obtain q where q: "last_at ?h 0 (sl_head s) 0 A = (q, 0)"
    using last_at_level0 [of ?h A "sl_head s"] sl(8) by (fastforce simp: list_all_iff)
  have p0: "ps ! 0 = (q, - 1 + int (length A))" using ps(2) [rule_format, of 0] sl(4) q by simp
  have nx: "Node_Next ?h q 0 = Some (case B of [] \<Rightarrow> None | b # _ \<Rightarrow> Some b)" by (rule next_after [OF AB(1) q])
  have SkipList_RankOf_split: "SkipList_RankOf s key = (case B of [] \<Rightarrow> Some (- 1)
      | b # _ \<Rightarrow> Some (if nd_key (?h ! b) = key then int (length A) else - 1))"
    using ps(1) p0 nx sl(7) by (cases B) (auto simp: SkipList_RankOf_def Node_key_def)
  have notA: "key \<notin> fst ` set (map (sl_entry ?h) A)" using AB(5) by (force simp: sl_entry_def)
  have "key \<in> fst ` set es \<longleftrightarrow> (case B of [] \<Rightarrow> False | b # _ \<Rightarrow> nd_key (?h ! b) = key)"
  proof (cases B)
    case Nil
    then show ?thesis using notA AB(2) by simp
  next
    case (Cons b B')
    have "sorted (map (\<lambda>a. nd_key (?h ! a)) B)" using sl(10) by (simp add: sorted_append)
    then have "nd_key (?h ! b) = key" if "x \<in> set B" "nd_key (?h ! x) = key" for x
      using AB(6) [of b] that Cons by (auto intro: antisym)
    moreover have "key \<in> fst ` set es \<longleftrightarrow> (\<exists>x \<in> set B. nd_key (?h ! x) = key)"
      using notA unfolding AB(2) by (force simp: sl_entry_def)
    ultimately show ?thesis using Cons by auto
  qed
  then show ?thesis unfolding SkipList_RankOf_split AB(3) by (cases B) auto
qed

lemma walk_rank_seg:
  assumes "seg True h i p d (A @ B)" and "last_at h i p d A = (q, e)" and "d + length (A @ B) < 2 ^ 63"
    and "A \<noteq> [] \<Longrightarrow> r + int d + int (length A) \<le> sint k" and "B \<noteq> [] \<Longrightarrow> sint k < r + int d + int (length A) + 1"
  shows "walk_rank h i k p r = Some (q, r + int d + int (length A) - int e)"
  using assms
proof (induction A arbitrary: p d r)
  case Nil
  have "walk_rank h i k p r = Some (p, r)"
    using Nil.prems(1,3,5)
  proof (induction B arbitrary: d)
    case Nil
    then show ?case by (subst walk_rank.simps) simp
  next
    case (Cons b B)
    show ?case
    proof (cases "i < nd_height (h ! b)")
      case True
      then show ?thesis using Cons.prems by (subst walk_rank.simps) (simp add: sint_word_of_nat)
    next
      case False
      then show ?thesis using Cons.prems by (intro Cons.IH [of "Suc d"]) auto
    qed
  qed
  then show ?case using Nil.prems by simp
next
  case (Cons a A)
  show ?case
  proof (cases "i < nd_height (h ! a)")
    case True
    have "walk_rank h i k p r = walk_rank h i k a (r + int d + 1)"
      using Cons.prems True by (subst walk_rank.simps) (simp add: sint_word_of_nat)
    then show ?thesis using Cons.IH [of a 0 "r + int d + 1"] Cons.prems True by simp
  next
    case False
    then show ?thesis using Cons.IH [of p "Suc d" r] Cons.prems by simp
  qed
qed

lemma find_rank_seg:
  assumes "\<And>i. i < Suc n \<Longrightarrow> seg True h i p 0 (A @ B)" and "length (A @ B) < 2 ^ 63"
    and "A \<noteq> [] \<Longrightarrow> r + int (length A) \<le> sint k" and "B \<noteq> [] \<Longrightarrow> sint k < r + int (length A) + 1"
  shows "find_rank h k (Suc n) p r = Some (fst (last_at h 0 p 0 A), r + int (length A) - int (snd (last_at h 0 p 0 A)))"
  using assms
proof (induction n arbitrary: p A r)
  case 0
  obtain q e where q: "last_at h 0 p 0 A = (q, e)" by fastforce
  have "walk_rank h 0 k p r = Some (q, r + int 0 + int (length A) - int e)"
    by (rule walk_rank_seg [OF _ q]) (use 0 in auto)
  then show ?case using q by simp
next
  case (Suc n)
  obtain q e where q: "last_at h (Suc n) p 0 A = (q, e)" by fastforce
  have w: "walk_rank h (Suc n) k p r = Some (q, r + int 0 + int (length A) - int e)"
    by (rule walk_rank_seg [OF _ q]) (use Suc.prems in auto)
  obtain A2 where A2: "\<And>i. i < Suc n \<Longrightarrow> last_at h i p 0 A = last_at h i q 0 A2" "\<And>i. i < Suc n \<Longrightarrow> seg True h i q 0 (A2 @ B)"
      "set A2 \<subseteq> set A" "length A2 = e" "e \<le> length A"
    using last_at_below [OF q, of True B] Suc.prems(1) by (metis less_SucI)
  have "find_rank h k (Suc n) q (r + int (length A) - int e)
      = Some (fst (last_at h 0 q 0 A2), r + int (length A) - int e + int (length A2) - int (snd (last_at h 0 q 0 A2)))"
  proof (rule Suc.IH)
    show "r + int (length A) - int e + int (length A2) \<le> sint k" if "A2 \<noteq> []"
      using that A2(3,4) Suc.prems(3) by (cases "A = []") auto
  qed (use A2 Suc.prems in auto)
  then show ?case using w A2(1) [of 0] A2(4) by (simp del: find_rank.simps add: find_rank.simps(2) [of h k "Suc n"])
qed

lemma SkipList_SeekToRank_at:
  assumes "sl_rep True s es" and "length es < 2 ^ 63"
  shows "\<exists>it. SkipList_SeekToRank s k = Some it \<and> sl_at True s es it (drop (unat k) es)"
proof -
  let ?h = "sl_heap s"
  obtain u where u: "unat k = u" by blast
  obtain L where L: "sl_nodes True s L" "es = map (sl_entry ?h) L" using assms(1) by (auto simp: sl_rep_def)
  note sl = sl_nodesD [OF L(1)]
  let ?n = "if u < 2 ^ 63 then Suc (u) else 0"
  let ?A = "take ?n L" and ?B = "drop ?n L"
  have len: "length L < 2 ^ 63" using assms(2) L(2) by simp
  have sk: "sint k = int (u)" if "u < 2 ^ 63"
    using that sint_small [of k] unfolding u by blast
  have sk': "sint k < 0" if "\<not> u < 2 ^ 63"
    using that u by (intro sint_negative) simp
  obtain m where m: "sl_max_height s = Suc m" using sl(4) by (cases "sl_max_height s") auto
  have "find_rank ?h k (Suc m) (sl_head s) (- 1)
      = Some (fst (last_at ?h 0 (sl_head s) 0 ?A), - 1 + int (length ?A) - int (snd (last_at ?h 0 (sl_head s) 0 ?A)))"
  proof (rule find_rank_seg [where B = ?B])
    show "seg True ?h i (sl_head s) 0 (?A @ ?B)" if "i < Suc m" for i using sl(11) [of i] that m sl(5) by simp
  qed (use len sk sk' in \<open>auto simp: min_def\<close>)
  moreover have lv: "last_at ?h 0 (sl_head s) 0 ?A = ((if ?A = [] then sl_head s else last ?A), 0)"
    by (rule last_at_level0) (use sl(8) in \<open>fastforce simp: list_all_iff dest: in_set_takeD\<close>)
  ultimately have f: "find_rank ?h k (sl_max_height s) (sl_head s) (- 1)
      = Some ((if ?A = [] then sl_head s else last ?A), - 1 + int (length ?A))" by (simp add: m)
  have "\<exists>it. SkipList_SeekToRank s k = Some it \<and> sl_at True s es it (drop u es)"
  proof (cases "u < length L")
    case True
    then have "u < 2 ^ 63" using len by simp
    then have A: "?A = take (Suc (u)) L" "last ?A = L ! u" "?A \<noteq> []"
      using True by (auto simp: take_Suc_conv_app_nth)
    have "L ! u \<noteq> sl_head s" using sl(6) True by (auto simp: in_set_conv_nth)
    then have "SkipList_SeekToRank s k = Some (Some (L ! u))"
      using f A sk True \<open>u < 2 ^ 63\<close> by (simp add: SkipList_SeekToRank_def)
    moreover have "sl_at True s es (Some (L ! u)) (drop (u) es)"
    proof (rule sl_atI [of _ _ "take u L" "drop u L"])
      show "Some (L ! u) = (case drop u L of [] \<Rightarrow> None | b # _ \<Rightarrow> Some b)"
        using True by (simp add: Cons_nth_drop_Suc [symmetric])
    qed (use L in \<open>simp_all add: drop_map take_map\<close>)
    ultimately show ?thesis by blast
  next
    case False
    have "SkipList_SeekToRank s k = Some None"
      using f False sk sk' len by (auto simp: SkipList_SeekToRank_def)
    moreover have "sl_at True s es None (drop (u) es)"
      by (rule sl_atI [of _ _ L "[]"]) (use L False in auto)
    ultimately show ?thesis by blast
  qed
  then show ?thesis by (simp add: u)
qed

lemma Iterator_fields_at:
  assumes "sl_at rk s es it ((k, seq, del, v) # rest)"
  shows "Iterator_Valid it" "Iterator_key s it = Some k" "Iterator_seq s it = Some seq"
    "Iterator_IsDeleted s it = Some del" "Iterator_value s it = Some v"
proof -
  obtain a where "it = Some a" "a < length (sl_heap s)" "sl_entry (sl_heap s) a = (k, seq, del, v)"
    by (rule sl_at_entry [OF assms])
  then show "Iterator_Valid it" "Iterator_key s it = Some k" "Iterator_seq s it = Some seq"
    "Iterator_IsDeleted s it = Some del" "Iterator_value s it = Some v"
    by (simp_all add: Iterator_Valid_def Iterator_key_def Iterator_seq_def Iterator_IsDeleted_def Iterator_value_def
      Iterator_node_def sl_entry_def)
qed

subsection \<open>Insertion into a sorted sequence\<close>

lemma sl_rep_sorted: "sl_rep rk s es \<Longrightarrow> sorted (map fst es)"
  using sl_nodesD(10) by (fastforce simp: sl_rep_def sl_entry_def comp_def)

lemma insert_entry_mset: "mset (insert_entry e es) = add_mset e (mset es)"
proof -
  have "mset es = mset (takeWhile (\<lambda>x. fst x < fst e) es) + mset (dropWhile (\<lambda>x. fst x < fst e) es)"
    by (metis mset_append takeWhile_dropWhile_id)
  then show ?thesis by (simp add: insert_entry_def)
qed

lemma length_insert_entry [simp]: "length (insert_entry e es) = Suc (length es)"
  by (metis insert_entry_mset size_add_mset size_mset)

lemma set_insert_entry [simp]: "set (insert_entry e es) = insert e (set es)"
  by (metis insert_entry_mset set_mset_add_mset_insert set_mset_mset)

text \<open>A new version of a key comes before the older ones; the versions of other keys stay.\<close>

lemma filter_insert_entry:
  assumes "sorted (map fst es)"
  shows "filter (\<lambda>x. fst x = k) (insert_entry e es) = (if fst e = k then e # filter (\<lambda>x. fst x = k) es else filter (\<lambda>x. fst x = k) es)"
proof -
  let ?A = "takeWhile (\<lambda>x. fst x < fst e) es" and ?B = "dropWhile (\<lambda>x. fst x < fst e) es"
  have "filter (\<lambda>x. fst x = k) ?A = []" if "fst e = k"
    using that by (auto simp: filter_empty_conv dest: set_takeWhileD)
  moreover have "filter (\<lambda>x. fst x = k) es = filter (\<lambda>x. fst x = k) ?A @ filter (\<lambda>x. fst x = k) ?B"
    by (simp flip: filter_append)
  ultimately show ?thesis by (simp add: insert_entry_def)
qed

lemma remove_entry_length: "length (remove_entry k es) \<le> length es"
proof -
  have "length es = length (takeWhile (\<lambda>x. fst x < k) es) + length (dropWhile (\<lambda>x. fst x < k) es)"
    by (simp flip: length_append)
  then show ?thesis by (auto simp: remove_entry_def split: list.splits)
qed

subsection \<open>Sequences of operations\<close>

datatype ('k, 'v) sl_op = SlInsert 'k 'v u64 | SlErase 'k

fun sl_run :: "bool \<Rightarrow> ('g \<Rightarrow> u32 \<times> 'g) \<Rightarrow> ('k::linorder, 'v, 'g) SkipList \<Rightarrow> ('k, 'v) sl_op list \<Rightarrow> ('k, 'v, 'g) SkipList option" where
  "sl_run kRanked draw s [] = Some s"
| "sl_run kRanked draw s (SlInsert k v seq # ops) = SkipList_Insert kRanked draw s k v seq \<bind> (\<lambda>s. sl_run kRanked draw s ops)"
| "sl_run kRanked draw s (SlErase k # ops) = SkipList_Erase kRanked s k \<bind> (\<lambda>(_, s). sl_run kRanked draw s ops)"

fun sl_spec :: "('k::linorder \<times> u64 \<times> bool \<times> 'v) list \<Rightarrow> ('k, 'v) sl_op \<Rightarrow> ('k \<times> u64 \<times> bool \<times> 'v) list" where
  "sl_spec es (SlInsert k v seq) = insert_entry (k, seq, False, v) es"
| "sl_spec es (SlErase k) = remove_entry k es"

lemma sl_spec_length: "length (sl_spec es op) \<le> Suc (length es)"
  using remove_entry_length by (cases op) (auto intro: le_SucI)

lemma sl_run_rep:
  "sl_rep rk s es \<Longrightarrow> length es + length ops < 2 ^ 63 \<Longrightarrow> \<exists>s'. sl_run rk draw s ops = Some s' \<and> sl_rep rk s' (foldl sl_spec es ops)"
proof (induction ops arbitrary: s es)
  case (Cons op ops)
  have len: "length (sl_spec es op) + length ops < 2 ^ 63" "length es < 2 ^ 63"
    using Cons.prems(2) sl_spec_length [of es op] by simp_all
  show ?case
  proof (cases op)
    case (SlInsert k v seq)
    then show ?thesis
      using SkipList_Insert_rep [OF Cons.prems(1) len(2), of draw k v seq] Cons.IH len(1) by fastforce
  next
    case (SlErase k)
    then show ?thesis
      using SkipList_Erase_rep [OF Cons.prems(1) len(2), of k] Cons.IH len(1) by fastforce
  qed
qed simp

text \<open>What an iteration from \<open>SeekToFirst\<close> reports.\<close>

fun sl_scan :: "nat \<Rightarrow> ('k, 'v, 'g) SkipList \<Rightarrow> addr option \<Rightarrow> ('k \<times> u64 \<times> bool \<times> 'v) list option" where
  "sl_scan 0 s it = None"
| "sl_scan (Suc fuel) s it =
     (if \<not> Iterator_Valid it then Some []
      else do {
        k \<leftarrow> Iterator_key s it;
        seq \<leftarrow> Iterator_seq s it;
        del \<leftarrow> Iterator_IsDeleted s it;
        v \<leftarrow> Iterator_value s it;
        it \<leftarrow> Iterator_Next s it;
        rest \<leftarrow> sl_scan fuel s it;
        Some ((k, seq, del, v) # rest)
      })"

definition sl_contents :: "('k, 'v, 'g) SkipList \<Rightarrow> ('k \<times> u64 \<times> bool \<times> 'v) list option" where
  "sl_contents s = SkipList_SeekToFirst s \<bind> sl_scan (length (sl_heap s)) s"

lemma sl_scan_at: "sl_at rk s es it rest \<Longrightarrow> length rest < fuel \<Longrightarrow> sl_scan fuel s it = Some rest"
proof (induction rest arbitrary: it fuel)
  case Nil
  then show ?case by (cases fuel) (auto dest: sl_at_end simp: Iterator_Valid_def)
next
  case (Cons e rest)
  obtain k seq del v where e: "e = (k, seq, del, v)" by (metis prod_cases4)
  note f = Iterator_fields_at [OF Cons.prems(1) [unfolded e]]
  obtain it' where it': "Iterator_Next s it = Some it'" "sl_at rk s es it' rest" using Iterator_Next_at [OF Cons.prems(1)] by blast
  obtain n where n: "fuel = Suc n" "length rest < n" using Cons.prems(2) by (cases fuel) auto
  show ?case using Cons.IH [OF it'(2) n(2)] f it'(1) by (simp add: n(1) e)
qed

lemma sl_contents_rep:
  assumes "sl_rep rk s es"
  shows "sl_contents s = Some es"
proof -
  obtain L where L: "sl_nodes rk s L" "es = map (sl_entry (sl_heap s)) L" using assms by (auto simp: sl_rep_def)
  note sl = sl_nodesD [OF L(1)]
  have "set (sl_head s # L) \<subseteq> {..<length (sl_heap s)}" using sl(1,7) by auto
  then have "card (set (sl_head s # L)) \<le> length (sl_heap s)" using card_mono [of "{..<length (sl_heap s)}"] by simp
  then have "length es < length (sl_heap s)" using distinct_card [OF sl(6)] L(2) by simp
  moreover obtain it where "SkipList_SeekToFirst s = Some it" "sl_at rk s es it es"
    using SkipList_SeekToFirst_at [OF assms] by blast
  ultimately show ?thesis using sl_scan_at by (simp add: sl_contents_def)
qed

lemma SkipList_Contains_rep:
  assumes "sl_rep rk s es" and "length es < 2 ^ 63"
  shows "SkipList_Contains s key = Some (key \<in> fst ` set es)"
proof -
  obtain it where it: "SkipList_Find s key = Some it"
      "if key \<in> fst ` set es then sl_at rk s es it (dropWhile (\<lambda>x. fst x < key) es) else it = None"
    using SkipList_Find_at [OF assms] by blast
  have "it \<noteq> None" if "key \<in> fst ` set es"
  proof -
    have "dropWhile (\<lambda>x. fst x < key) es \<noteq> []" using that by (auto simp: dropWhile_eq_Nil_conv)
    then show ?thesis using it(2) that sl_at_entry by (metis list.exhaust option.distinct(1))
  qed
  then show ?thesis using it by (auto simp: SkipList_Contains_Find split: if_splits)
qed

lemma takeWhile_sorted_filter: "sorted (map f es) \<Longrightarrow> takeWhile (\<lambda>x. f x < k) es = filter (\<lambda>x. f x < k) es"
  for f :: "'a \<Rightarrow> 'k::linorder"
proof (induction es)
  case (Cons a es)
  have "filter (\<lambda>x. f x < k) es = []" if "\<not> f a < k" using that Cons.prems by (auto simp: filter_empty_conv)
  then show ?case using Cons by auto
qed simp

lemma sl_spec_foldl_length: "length (foldl sl_spec es ops) \<le> length es + length ops"
proof (induction ops arbitrary: es)
  case (Cons op ops)
  show ?case using Cons.IH [of "sl_spec es op"] sl_spec_length [of es op] by simp
qed simp

lemma sl_new_run:
  assumes "length ops < 2 ^ 63"
  obtains s where "sl_run rk draw (SkipList_new rk k0 v0 g) ops = Some s" "sl_rep rk s (foldl sl_spec [] ops)"
    "length (foldl sl_spec [] ops) < 2 ^ 63"
  using sl_run_rep [OF sl_new_rep [of rk k0 v0 g], of ops draw] sl_spec_foldl_length [of "[]" ops] assms by auto

subsection \<open>Properties of the list\<close>

text \<open>C15: The skip list refines a sorted sequence. Whatever heights are drawn, every sequence of
  insertions and deletions on an empty list succeeds; afterwards an iteration from
  \<open>SeekToFirst\<close> reports exactly the sorted sequence that insertion before the first key not
  smaller and removal of the first entry of a key produce, \<open>Contains\<close> answers for every key
  whether an entry with it is there, and \<open>Erase\<close> reports the same.\<close>

theorem skiplist_refines_sorted_sequence:
  assumes "length ops < 2 ^ 63"
  shows "\<exists>s. sl_run kRanked draw (SkipList_new kRanked k0 v0 g) ops = Some s
     \<and> sl_contents s = Some (foldl sl_spec [] ops)
     \<and> sorted (map fst (foldl sl_spec [] ops))
     \<and> SkipList_Contains s key = Some (key \<in> fst ` set (foldl sl_spec [] ops))
     \<and> map_option fst (SkipList_Erase kRanked s key) = Some (key \<in> fst ` set (foldl sl_spec [] ops))"
proof -
  obtain s where s: "sl_run kRanked draw (SkipList_new kRanked k0 v0 g) ops = Some s"
      "sl_rep kRanked s (foldl sl_spec [] ops)" "length (foldl sl_spec [] ops) < 2 ^ 63"
    using sl_new_run [OF assms] by metis
  show ?thesis
    using s(1) sl_contents_rep [OF s(2)] sl_rep_sorted [OF s(2)] SkipList_Contains_rep [OF s(2,3)]
      SkipList_Erase_rep [OF s(2,3), of key] by auto
qed

theorem skiplist_refines_sorted_sequence_witness:
  "length [SlInsert 5 ''e'' 1, SlInsert 3 ''c'' 2, SlInsert (5 :: nat) ''f'' 3, SlErase 3] < 2 ^ 63
   \<and> (\<exists>s. sl_run True (\<lambda>g. (g, g + 1)) (SkipList_new True 0 '''' 0)
          [SlInsert 5 ''e'' 1, SlInsert 3 ''c'' 2, SlInsert (5 :: nat) ''f'' 3, SlErase 3] = Some s
        \<and> sl_contents s = Some [(5, 3, False, ''f''), (5, 1, False, ''e'')]
        \<and> SkipList_Contains s 5 = Some True)"
  using skiplist_refines_sorted_sequence
    [of "[SlInsert 5 ''e'' 1, SlInsert 3 ''c'' 2, SlInsert (5 :: nat) ''f'' 3, SlErase 3]" True "\<lambda>g. (g, g + 1)" 0 "''''" 0 5]
  by (auto simp: insert_entry_def remove_entry_def)

text \<open>C16: Positions on a ranked list. After every sequence of insertions and deletions \<open>RankOf\<close>
  returns the number of entries below the key, or \<open>-1\<close> if the key is absent, and
  \<open>SeekToRank\<close> with any 64-bit position stands on the entry at that position, and on none if the
  position is past the end. The two are therefore inverse to each other.\<close>

theorem skiplist_rank_and_select:
  assumes "length ops < 2 ^ 63"
  shows "\<exists>s it. sl_run True draw (SkipList_new True k0 v0 g) ops = Some s
     \<and> SkipList_RankOf s key = Some (if key \<in> fst ` set (foldl sl_spec [] ops)
          then int (length (filter (\<lambda>x. fst x < key) (foldl sl_spec [] ops))) else - 1)
     \<and> SkipList_SeekToRank s k = Some it
     \<and> (if unat k < length (foldl sl_spec [] ops)
        then Iterator_key s it = Some (fst (foldl sl_spec [] ops ! unat k)) else \<not> Iterator_Valid it)"
proof -
  let ?es = "foldl sl_spec [] ops"
  obtain s where s: "sl_run True draw (SkipList_new True k0 v0 g) ops = Some s" "sl_rep True s ?es" "length ?es < 2 ^ 63"
    using sl_new_run [OF assms] by metis
  obtain it where it: "SkipList_SeekToRank s k = Some it" "sl_at True s ?es it (drop (unat k) ?es)"
    using SkipList_SeekToRank_at [OF s(2,3)] by blast
  have "if unat k < length ?es then Iterator_key s it = Some (fst (?es ! unat k)) else \<not> Iterator_Valid it"
  proof (cases "unat k < length ?es")
    case True
    obtain x sq d v where e: "?es ! unat k = (x, sq, d, v)" by (metis prod_cases4)
    have "drop (unat k) ?es = (x, sq, d, v) # drop (Suc (unat k)) ?es" using True e by (metis Cons_nth_drop_Suc)
    then show ?thesis using it(2) Iterator_fields_at(2) True e by fastforce
  next
    case False
    then show ?thesis using it(2) sl_at_end by (fastforce simp: Iterator_Valid_def)
  qed
  then show ?thesis
    using s(1) it(1) SkipList_RankOf_rep [OF s(2,3), of key] takeWhile_sorted_filter [OF sl_rep_sorted [OF s(2)], of key] by auto
qed

theorem skiplist_rank_and_select_witness:
  "length [SlInsert 5 ''e'' 1, SlInsert 3 ''c'' 2, SlInsert (9 :: nat) ''i'' 3] < 2 ^ 63
   \<and> (\<exists>s it. sl_run True (\<lambda>g. (g, g + 1)) (SkipList_new True 0 '''' 0)
          [SlInsert 5 ''e'' 1, SlInsert 3 ''c'' 2, SlInsert (9 :: nat) ''i'' 3] = Some s
        \<and> SkipList_RankOf s 9 = Some 2 \<and> SkipList_SeekToRank s 2 = Some it \<and> Iterator_key s it = Some 9)"
  using skiplist_rank_and_select
    [of "[SlInsert 5 ''e'' 1, SlInsert 3 ''c'' 2, SlInsert (9 :: nat) ''i'' 3]" "\<lambda>g. (g, g + 1)" 0 "''''" 0 9 2]
  by (auto simp: insert_entry_def)

text \<open>C18: The loops of the skip list end. A walk along a level runs until it meets a null pointer
  or a key not smaller, so on a damaged list it could run for ever or leave the allocated nodes, and
  would then have no result. On every list that represents a sequence each operation returns.\<close>

theorem skiplist_operations_return:
  assumes "sl_rep kRanked s es" and "length es < 2 ^ 63"
  shows "SkipList_Insert kRanked draw s key value seq \<noteq> None \<and> SkipList_Erase kRanked s key \<noteq> None
     \<and> SkipList_Find s key \<noteq> None \<and> SkipList_Contains s key \<noteq> None \<and> SkipList_SeekGE s key \<noteq> None
     \<and> SkipList_SeekToFirst s \<noteq> None \<and> sl_contents s \<noteq> None
     \<and> (if kRanked then SkipList_RankOf s key \<noteq> None \<and> SkipList_SeekToRank s k \<noteq> None
        else SkipList_InsertDeletion False draw value s key seq \<noteq> None)"
  using SkipList_Insert_rep [OF assms, of draw key "value" seq] SkipList_Erase_rep [OF assms, of key]
    SkipList_Find_at [OF assms, of key] SkipList_Contains_rep [OF assms, of key] SkipList_SeekGE_at [OF assms, of key]
    SkipList_SeekToFirst_at [OF assms(1)] sl_contents_rep [OF assms(1)] SkipList_RankOf_rep [of s es key]
    SkipList_SeekToRank_at [of s es k] SkipList_InsertDeletion_rep [of s es draw "value" key seq] assms
  by (cases kRanked) auto

theorem skiplist_operations_return_witness:
  "sl_rep True (SkipList_new True (0 :: nat) ''x'' (0 :: u32)) [] \<and> length ([] :: (nat \<times> u64 \<times> bool \<times> string) list) < 2 ^ 63
   \<and> SkipList_Insert True (\<lambda>g. (g, g + 1)) (SkipList_new True (0 :: nat) ''x'' (0 :: u32)) 5 ''e'' 1 \<noteq> None"
  using skiplist_operations_return [OF sl_new_rep [of True "0 :: nat" "''x''" "0 :: u32"], of "\<lambda>g. (g, g + 1)" 5 "''e''" 1]
    sl_new_rep [of True "0 :: nat" "''x''" "0 :: u32"] by simp

text \<open>C19: The shape of the nodes. After every sequence of operations each allocated node, whether
  linked or not, has between 1 and \<open>kMaxHeight\<close> levels, exactly as many pointers as its height says,
  as many spans on a ranked list and none on an unranked one, and \<open>max_height_\<close> stays in the same
  range, so that no access to \<open>next[]\<close> or to the spans behind it leaves the allocation.\<close>

theorem skiplist_nodes_well_formed:
  assumes "length ops < 2 ^ 63"
  shows "\<exists>s. sl_run kRanked draw (SkipList_new kRanked k0 v0 g) ops = Some s \<and> nodes_ok kRanked (sl_heap s)
     \<and> 1 \<le> sl_max_height s \<and> sl_max_height s \<le> kMaxHeight"
proof -
  obtain s where s: "sl_run kRanked draw (SkipList_new kRanked k0 v0 g) ops = Some s" "sl_rep kRanked s (foldl sl_spec [] ops)"
    using sl_new_run [OF assms] by metis
  then show ?thesis using sl_nodesD(3-5) by (fastforce simp: sl_rep_def)
qed

theorem skiplist_nodes_well_formed_witness:
  "length [SlInsert 5 ''e'' 1, SlErase (5 :: nat)] < 2 ^ 63
   \<and> (\<exists>s. sl_run False (\<lambda>g. (g, g + 1)) (SkipList_new False 0 '''' 0) [SlInsert 5 ''e'' 1, SlErase (5 :: nat)] = Some s
        \<and> nodes_ok False (sl_heap s))"
  using skiplist_nodes_well_formed [of "[SlInsert 5 ''e'' 1, SlErase (5 :: nat)]" False "\<lambda>g. (g, g + 1)" 0 "''''" 0] by auto

subsection \<open>Properties of the arena\<close>

fun Arena_run :: "Arena \<Rightarrow> nat list \<Rightarrow> (nat \<times> nat) list \<times> Arena" where
  "Arena_run a [] = ([], a)"
| "Arena_run a (n # ns) = (let (p, a) = Arena_Allocate a n; (ps, a) = Arena_run a ns in (p # ps, a))"

definition arena_ok :: "Arena \<Rightarrow> bool" where
  "arena_ok a \<longleftrightarrow> (\<forall>b \<in> set (ar_blocks a). bl_used b \<le> bl_capacity b)
     \<and> (case ar_current a of None \<Rightarrow> True
        | Some c \<Rightarrow> c < length (ar_blocks a) \<and> bl_capacity (ar_blocks a ! c) = kArenaBlockSize)"

text \<open>A pointer to \<open>n\<close> bytes below the fill mark of its block.\<close>

definition arena_holds :: "Arena \<Rightarrow> nat \<times> nat \<Rightarrow> nat \<Rightarrow> bool" where
  "arena_holds a p n \<longleftrightarrow> fst p < length (ar_blocks a) \<and> snd p + n \<le> bl_used (ar_blocks a ! fst p)"

lemma Arena_Allocate_ok:
  assumes "arena_ok a" and "Arena_Allocate a n = (p, a')"
  shows "arena_ok a'" "arena_holds a' p n"
    and "arena_holds a q m \<Longrightarrow> arena_holds a' q m"
    and "arena_holds a q m \<Longrightarrow> fst q = fst p \<Longrightarrow> snd q + m \<le> snd p"
proof -
  consider (large) "kArenaBlockSize div 2 < n"
    | (new) "\<not> kArenaBlockSize div 2 < n" "case ar_current a of None \<Rightarrow> True | Some c \<Rightarrow> kArenaBlockSize < bl_used (ar_blocks a ! c) + n"
    | (cur) c where "\<not> kArenaBlockSize div 2 < n" "ar_current a = Some c" "\<not> kArenaBlockSize < bl_used (ar_blocks a ! c) + n"
    by (cases "ar_current a") auto
  then have "arena_ok a' \<and> arena_holds a' p n \<and> (arena_holds a q m \<longrightarrow> arena_holds a' q m)
      \<and> (arena_holds a q m \<longrightarrow> fst q = fst p \<longrightarrow> snd q + m \<le> snd p)"
  proof cases
    case large
    then show ?thesis
      using assms by (auto simp: Arena_Allocate_def arena_ok_def arena_holds_def nth_append split: option.splits)
  next
    case new
    then have "p = (length (ar_blocks a), 0)"
        "a' = a\<lparr>ar_blocks := ar_blocks a @ [\<lparr>bl_capacity = kArenaBlockSize, bl_used = n, bl_array = False\<rparr>], ar_current := Some (length (ar_blocks a))\<rparr>"
      using assms(2) by (auto simp: Arena_Allocate_def Let_def)
    then show ?thesis using assms(1) new(1) by (auto simp: arena_ok_def arena_holds_def nth_append)
  next
    case cur
    have c: "c < length (ar_blocks a)" "bl_capacity (ar_blocks a ! c) = kArenaBlockSize" using assms(1) cur(2) by (auto simp: arena_ok_def)
    have "p = (c, bl_used (ar_blocks a ! c))"
        "a' = a\<lparr>ar_blocks := (ar_blocks a)[c := (ar_blocks a ! c)\<lparr>bl_used := bl_used (ar_blocks a ! c) + n\<rparr>]\<rparr>"
      using assms(2) cur by (auto simp: Arena_Allocate_def Let_def)
    then show ?thesis
      using assms(1) c cur(2,3) by (auto simp: arena_ok_def arena_holds_def nth_list_update dest: set_update_subset_insert [THEN subsetD])
  qed
  then show "arena_ok a'" "arena_holds a' p n" "arena_holds a q m \<Longrightarrow> arena_holds a' q m"
    "arena_holds a q m \<Longrightarrow> fst q = fst p \<Longrightarrow> snd q + m \<le> snd p" by blast+
qed

lemma Arena_run_ok:
  assumes "arena_ok a" and "Arena_run a ns = (ps, a')"
  shows "arena_ok a' \<and> length ps = length ns \<and> (\<forall>i < length ns. arena_holds a' (ps ! i) (ns ! i))
     \<and> (\<forall>q m. arena_holds a q m \<longrightarrow> arena_holds a' q m \<and> (\<forall>i < length ns. fst q = fst (ps ! i) \<longrightarrow> snd q + m \<le> snd (ps ! i)))
     \<and> (\<forall>j < length ns. \<forall>i < j. fst (ps ! i) = fst (ps ! j) \<longrightarrow> snd (ps ! i) + ns ! i \<le> snd (ps ! j))"
  using assms
proof (induction ns arbitrary: a ps)
  case Nil
  then show ?case by simp
next
  case (Cons n ns)
  obtain p a1 where p: "Arena_Allocate a n = (p, a1)" by fastforce
  obtain ps1 where ps: "Arena_run a1 ns = (ps1, a')" "ps = p # ps1"
    using Cons.prems(2) p by (auto simp: Let_def split: prod.splits)
  note al = Arena_Allocate_ok [OF Cons.prems(1) p]
  note IH = Cons.IH [OF al(1) ps(1)]
  have IH': "arena_ok a'" "length ps1 = length ns" "\<And>i. i < length ns \<Longrightarrow> arena_holds a' (ps1 ! i) (ns ! i)"
      "\<And>q m. arena_holds a1 q m \<Longrightarrow> arena_holds a' q m"
      "\<And>q m i. arena_holds a1 q m \<Longrightarrow> i < length ns \<Longrightarrow> fst q = fst (ps1 ! i) \<Longrightarrow> snd q + m \<le> snd (ps1 ! i)"
      "\<And>i j. j < length ns \<Longrightarrow> i < j \<Longrightarrow> fst (ps1 ! i) = fst (ps1 ! j) \<Longrightarrow> snd (ps1 ! i) + ns ! i \<le> snd (ps1 ! j)"
    using IH by blast+
  have 1: "arena_holds a' ((p # ps1) ! i) ((n # ns) ! i)" if "i < Suc (length ns)" for i
    using that IH'(3,4) al(2) by (cases i) auto
  have 2: "snd q + m \<le> snd ((p # ps1) ! i)" if "arena_holds a q m" "i < Suc (length ns)" "fst q = fst ((p # ps1) ! i)" for q m i
    using that IH'(5) al(3,4) by (cases i) auto
  have 3: "snd ((p # ps1) ! i) + (n # ns) ! i \<le> snd ((p # ps1) ! j)"
    if "j < Suc (length ns)" "i < j" "fst ((p # ps1) ! i) = fst ((p # ps1) ! j)" for i j
    using that IH'(5) [OF al(2)] IH'(6) by (cases i; cases j) auto
  show ?case using 1 2 3 IH'(1,2,4) al(3) unfolding ps(2) by auto
qed

text \<open>C34: The arena hands out memory that is really there and only once: of any sequence of
  requests each result lies inside the payload of its block, and two results in the same block do
  not overlap.\<close>

theorem arena_allocations_disjoint:
  assumes "Arena_run Arena_new ns = (ps, a)" and "j < length ns" and "i < j"
  shows "fst (ps ! j) < length (ar_blocks a) \<and> snd (ps ! j) + ns ! j \<le> bl_capacity (ar_blocks a ! fst (ps ! j))
     \<and> (fst (ps ! i) \<noteq> fst (ps ! j) \<or> snd (ps ! i) + ns ! i \<le> snd (ps ! j))"
proof -
  have "arena_ok Arena_new" by (simp add: arena_ok_def Arena_new_def)
  note run = Arena_run_ok [OF this assms(1)]
  have "arena_holds a (ps ! j) (ns ! j)" using run assms(2) by blast
  moreover have "bl_used b \<le> bl_capacity b" if "b \<in> set (ar_blocks a)" for b using run that by (simp add: arena_ok_def)
  ultimately show ?thesis
    using run assms(2,3) by (auto simp: arena_holds_def intro: order_trans)
qed

theorem arena_allocations_disjoint_witness:
  "Arena_run Arena_new [100, 3000, 200] = ([(0, 0), (1, 0), (0, 100)], snd (Arena_run Arena_new [100, 3000, 200]))
   \<and> fst ([(0 :: nat, 0 :: nat), (1, 0), (0, 100)] ! 2) < length (ar_blocks (snd (Arena_run Arena_new [100, 3000, 200])))"
proof -
  have "Arena_run Arena_new [100, 3000, 200] = ([(0, 0), (1, 0), (0, 100)], snd (Arena_run Arena_new [100, 3000, 200]))"
    by (simp add: Arena_new_def Arena_Allocate_def kArenaBlockSize_def Let_def)
  from arena_allocations_disjoint [OF this, of 2 0] this show ?thesis by simp
qed

text \<open>A request of more than half and at most a whole block gets memory from \<open>new char[]\<close>, but
  the destructor, which tells such blocks by \<open>used > kArenaBlockSize\<close> although the request was compared
  with \<open>kArenaBlockSize / 2\<close>, gives it back with the plain \<open>delete\<close> of a \<open>Block\<close>.\<close>

theorem arena_mismatched_delete:
  assumes "kArenaBlockSize div 2 < n" and "n \<le> kArenaBlockSize"
  shows "map bl_array (ar_blocks (snd (Arena_Allocate Arena_new n))) = [True]
     \<and> Arena_delete (snd (Arena_Allocate Arena_new n)) = [DeleteBlock]"
  using assms by (simp add: Arena_Allocate_def Arena_new_def Arena_delete_def)

theorem arena_mismatched_delete_witness:
  "kArenaBlockSize div 2 < 3000 \<and> 3000 \<le> kArenaBlockSize \<and> Arena_delete (snd (Arena_Allocate Arena_new 3000)) = [DeleteBlock]"
  using arena_mismatched_delete [of 3000] by (simp add: kArenaBlockSize_def)

subsection \<open>The wrapper over byte strings\<close>

text \<open>\<open>lightkv::SkipList\<close> owns an arena and an unranked list over it. The heap of the list keeps the
  nodes in the order in which \<open>NewNode\<close> asked the arena for them, so the arena is determined by it;
  \<open>sizeof(Node)\<close> stays a parameter.\<close>

type_synonym 'g KVList = "(bytes, bytes, 'g) SkipList"

definition KVList_new :: "'g \<Rightarrow> 'g KVList" where
  "KVList_new rng = SkipList_new False [] [] rng"

definition KVList_Insert :: "('g \<Rightarrow> u32 \<times> 'g) \<Rightarrow> 'g KVList \<Rightarrow> bytes \<Rightarrow> bytes \<Rightarrow> u64 \<Rightarrow> 'g KVList option" where
  "KVList_Insert draw s key value seq = SkipList_Insert_view False draw s key value seq"

definition KVList_InsertDeletion :: "('g \<Rightarrow> u32 \<times> 'g) \<Rightarrow> 'g KVList \<Rightarrow> bytes \<Rightarrow> u64 \<Rightarrow> 'g KVList option" where
  "KVList_InsertDeletion draw s key seq = SkipList_InsertDeletion_view False draw s key seq"

definition KVList_Contains :: "'g KVList \<Rightarrow> bytes \<Rightarrow> bool option" where
  "KVList_Contains s key = SkipList_Contains_view s key"

definition KVList_Find :: "'g KVList \<Rightarrow> bytes \<Rightarrow> addr option option" where
  "KVList_Find s key = SkipList_Find_view s key"

definition KVList_SeekGE :: "'g KVList \<Rightarrow> bytes \<Rightarrow> addr option option" where
  "KVList_SeekGE s key = SkipList_SeekGE_view s key"

definition KVList_SeekToFirst :: "'g KVList \<Rightarrow> addr option option" where
  "KVList_SeekToFirst s = SkipList_SeekToFirst s"

definition KVList_MemoryUsage :: "nat \<Rightarrow> 'g KVList \<Rightarrow> nat" where
  "KVList_MemoryUsage sizeof_Node s =
     Arena_MemoryUsage (snd (Arena_run Arena_new (map (\<lambda>n. NodeSize False sizeof_Node (nd_height n)) (sl_heap s))))"

subsection \<open>An index that keeps every version\<close>

text \<open>What the write path relies on: entries go in under a key, nothing is lost, and the versions of
  one key are met in the reverse of the order in which they were inserted.\<close>

locale version_index =
  fixes rep :: "'s \<Rightarrow> ('k::linorder \<times> 'e) list \<Rightarrow> bool"
    and ins :: "'s \<Rightarrow> 'k \<Rightarrow> 'e \<Rightarrow> 's option"
  assumes rep_sorted: "rep s es \<Longrightarrow> sorted (map fst es)"
    and ins_rep: "rep s es \<Longrightarrow> length es < 2 ^ 63 \<Longrightarrow> \<exists>s'. ins s k e = Some s' \<and> rep s' (insert_entry (k, e) es)"
begin

fun ins_all :: "'s \<Rightarrow> ('k \<times> 'e) list \<Rightarrow> 's option" where
  "ins_all s [] = Some s"
| "ins_all s ((k, e) # kes) = ins s k e \<bind> (\<lambda>s. ins_all s kes)"

lemma ins_all_versions:
  assumes "rep s es" and "length es + length kes < 2 ^ 63"
  shows "\<exists>s' es'. ins_all s kes = Some s' \<and> rep s' es' \<and> length es' = length es + length kes
     \<and> (\<forall>k. filter (\<lambda>x. fst x = k) es' = rev (filter (\<lambda>x. fst x = k) kes) @ filter (\<lambda>x. fst x = k) es)"
  using assms
proof (induction kes arbitrary: s es)
  case (Cons ke kes)
  obtain k e where ke: "ke = (k, e)" by fastforce
  obtain s1 where s1: "ins s k e = Some s1" "rep s1 (insert_entry (k, e) es)"
    using ins_rep [OF Cons.prems(1)] Cons.prems(2) by fastforce
  from Cons.IH [OF s1(2)] Cons.prems(2) obtain s' es' where IH: "ins_all s1 kes = Some s'" "rep s' es'"
      "length es' = Suc (length es) + length kes"
      "\<And>k'. filter (\<lambda>x. fst x = k') es' = rev (filter (\<lambda>x. fst x = k') kes) @ filter (\<lambda>x. fst x = k') (insert_entry (k, e) es)"
    by auto
  then show ?case
    using s1(1) filter_insert_entry [OF rep_sorted [OF Cons.prems(1)]] by (intro exI [of _ s'] exI [of _ es']) (simp add: ke)
qed auto

end

text \<open>The wrapper provides it: an entry is a sequence number with a value, or with none for a
  deletion.\<close>

definition kv_entry :: "bytes \<times> u64 \<times> bytes option \<Rightarrow> bytes \<times> u64 \<times> bool \<times> bytes" where
  "kv_entry e = (case e of (k, seq, v) \<Rightarrow> (k, seq, v = None, case v of None \<Rightarrow> [] | Some v \<Rightarrow> v))"

definition kv_rep :: "'g KVList \<Rightarrow> (bytes \<times> u64 \<times> bytes option) list \<Rightarrow> bool" where
  "kv_rep s es \<longleftrightarrow> sl_rep False s (map kv_entry es)"

definition kv_put :: "('g \<Rightarrow> u32 \<times> 'g) \<Rightarrow> 'g KVList \<Rightarrow> bytes \<Rightarrow> u64 \<times> bytes option \<Rightarrow> 'g KVList option" where
  "kv_put draw s key e = (case e of (seq, None) \<Rightarrow> KVList_InsertDeletion draw s key seq
     | (seq, Some v) \<Rightarrow> KVList_Insert draw s key v seq)"

lemma fst_kv_entry [simp]: "fst (kv_entry e) = fst e"
  by (simp add: kv_entry_def split: prod.splits)

lemma map_kv_insert: "map kv_entry (insert_entry e es) = insert_entry (kv_entry e) (map kv_entry es)"
  by (simp add: insert_entry_def takeWhile_map dropWhile_map comp_def)

interpretation kv: version_index kv_rep "kv_put draw"
  for draw :: "'g \<Rightarrow> u32 \<times> 'g"
proof unfold_locales
  show "sorted (map fst es)" if "kv_rep s es" for s :: "'g KVList" and es
    using sl_rep_sorted [OF that [unfolded kv_rep_def]] by (simp add: comp_def)
  show "\<exists>s'. kv_put draw s k e = Some s' \<and> kv_rep s' (insert_entry (k, e) es)" if "kv_rep s es" "length es < 2 ^ 63"
    for s :: "'g KVList" and es k e
  proof -
    have r: "sl_rep False s (map kv_entry es)" "length (map kv_entry es) < 2 ^ 63" using that by (auto simp: kv_rep_def)
    show ?thesis
      using insert_view_rep [OF r, of draw k] unfolding kv_rep_def map_kv_insert
      by (cases e; cases "snd e")
        (auto simp: kv_put_def kv_entry_def KVList_Insert_def KVList_InsertDeletion_def)
  qed
qed

end
