(* ===== verification/Lkv_MemTable.thy ===== *)
theory Lkv_MemTable
  imports Lkv_SkipList
begin

section \<open>The memtable (memtable.h, memtable.cpp)\<close>

text \<open>
  A memtable is the skip list of the point writes and deletions, the range tombstones in the order
  of their arrival, and the highest sequence number so far. The mutexes and the atomic
  compare-and-exchange of \<open>NoteSeq\<close> order the calls; a sequence of calls is a sequence of
  operations here. The results of \<open>Find\<close> carry the two output parameters.

  The lemmas describe \<open>Find\<close> by the sequence of the operations: it reports the most recently
  inserted visible version of the key. That is the newest one as long as the operations arrive in
  the order of their sequence numbers, and it is not if they do not.
\<close>

datatype Lookup = NotFound | Deleted u64 | Value bytes u64

record RangeTombstone =
  rt_begin_key :: bytes
  rt_end_key :: bytes
  rt_seq :: u64

record 'g MemTable =
  mt_table :: "'g KVList"
  mt_range_tombstones :: "RangeTombstone list"
  mt_max_seq :: u64

definition MemTable_new :: "'g \<Rightarrow> 'g MemTable" where
  "MemTable_new rng = \<lparr>mt_table = KVList_new rng, mt_range_tombstones = [], mt_max_seq = 0\<rparr>"

definition MemTable_NoteSeq :: "'g MemTable \<Rightarrow> u64 \<Rightarrow> 'g MemTable" where
  "MemTable_NoteSeq m seq = (if mt_max_seq m < seq then m\<lparr>mt_max_seq := seq\<rparr> else m)"

definition MemTable_Insert :: "('g \<Rightarrow> u32 \<times> 'g) \<Rightarrow> 'g MemTable \<Rightarrow> u64 \<Rightarrow> bytes \<Rightarrow> bytes \<Rightarrow> 'g MemTable option" where
  "MemTable_Insert draw m seq key value = do {
     t \<leftarrow> KVList_Insert draw (mt_table m) key value seq;
     Some (MemTable_NoteSeq (m\<lparr>mt_table := t\<rparr>) seq)
   }"

definition MemTable_InsertDeletion :: "('g \<Rightarrow> u32 \<times> 'g) \<Rightarrow> 'g MemTable \<Rightarrow> u64 \<Rightarrow> bytes \<Rightarrow> 'g MemTable option" where
  "MemTable_InsertDeletion draw m seq key = do {
     t \<leftarrow> KVList_InsertDeletion draw (mt_table m) key seq;
     Some (MemTable_NoteSeq (m\<lparr>mt_table := t\<rparr>) seq)
   }"

definition MemTable_InsertRangeDeletion :: "'g MemTable \<Rightarrow> u64 \<Rightarrow> bytes \<Rightarrow> bytes \<Rightarrow> 'g MemTable" where
  "MemTable_InsertRangeDeletion m seq begin_key end_key =
     MemTable_NoteSeq (m\<lparr>mt_range_tombstones := mt_range_tombstones m
        @ [\<lparr>rt_begin_key = begin_key, rt_end_key = end_key, rt_seq = seq\<rparr>]\<rparr>) seq"

definition MemTable_IsRangeDeleted :: "'g MemTable \<Rightarrow> bytes \<Rightarrow> u64 \<Rightarrow> u64 \<Rightarrow> bool" where
  "MemTable_IsRangeDeleted m key version_seq snapshot_seq =
     list_ex (\<lambda>t. version_seq < rt_seq t \<and> rt_seq t \<le> snapshot_seq \<and> \<not> Slice_less key (rt_begin_key t)
                  \<and> Slice_less key (rt_end_key t)) (mt_range_tombstones m)"

text \<open>The loop over the versions of the key; its result is the iterator it stops on.\<close>

partial_function (option) MemTable_Find_loop :: "'g KVList \<Rightarrow> bytes \<Rightarrow> u64 \<Rightarrow> addr option \<Rightarrow> addr option option" where
  "MemTable_Find_loop s key snapshot_seq it =
     (if \<not> Iterator_Valid it then Some None
      else do {
        k \<leftarrow> Iterator_key s it;
        if k \<noteq> key then Some None
        else do {
          seq \<leftarrow> Iterator_seq s it;
          if seq \<le> snapshot_seq then Some it
          else do {
            it \<leftarrow> Iterator_Next s it;
            MemTable_Find_loop s key snapshot_seq it
          }
        }
      })"

definition MemTable_Find :: "'g MemTable \<Rightarrow> bytes \<Rightarrow> u64 \<Rightarrow> Lookup option" where
  "MemTable_Find m key snapshot_seq = do {
     it \<leftarrow> KVList_Find (mt_table m) key;
     it \<leftarrow> MemTable_Find_loop (mt_table m) key snapshot_seq it;
     if it = None then Some NotFound
     else do {
       version_seq \<leftarrow> Iterator_seq (mt_table m) it;
       deleted \<leftarrow> Iterator_IsDeleted (mt_table m) it;
       if deleted then Some (Deleted version_seq)
       else if MemTable_IsRangeDeleted m key version_seq snapshot_seq then Some (Deleted version_seq)
       else do {
         v \<leftarrow> Iterator_value (mt_table m) it;
         Some (Value v version_seq)
       }
     }
   }"

definition MemTable_Get :: "'g MemTable \<Rightarrow> bytes \<Rightarrow> u64 \<Rightarrow> bytes option option" where
  "MemTable_Get m key snapshot_seq = do {
     r \<leftarrow> MemTable_Find m key snapshot_seq;
     Some (case r of Value v _ \<Rightarrow> Some v | _ \<Rightarrow> None)
   }"

definition MemTable_ApproximateMemoryUsage :: "nat \<Rightarrow> 'g MemTable \<Rightarrow> nat" where
  "MemTable_ApproximateMemoryUsage sizeof_Node m = KVList_MemoryUsage sizeof_Node (mt_table m)"

definition MemTable_empty :: "'g MemTable \<Rightarrow> bool option" where
  "MemTable_empty m = do {
     it \<leftarrow> KVList_SeekToFirst (mt_table m);
     Some (\<not> Iterator_Valid it)
   }"

definition MemTable_HasContent :: "'g MemTable \<Rightarrow> bool option" where
  "MemTable_HasContent m = do {
     e \<leftarrow> MemTable_empty m;
     if \<not> e then Some True else Some (mt_range_tombstones m \<noteq> [])
   }"

definition MemTable_MaxSeq :: "'g MemTable \<Rightarrow> u64" where "MemTable_MaxSeq m = mt_max_seq m"

definition MemTable_SeekToFirst :: "'g MemTable \<Rightarrow> addr option option" where
  "MemTable_SeekToFirst m = KVList_SeekToFirst (mt_table m)"

definition MemTable_Seek :: "'g MemTable \<Rightarrow> bytes \<Rightarrow> addr option option" where
  "MemTable_Seek m key = KVList_SeekGE (mt_table m) key"

definition MemTable_GetRangeTombstones :: "'g MemTable \<Rightarrow> RangeTombstone list" where
  "MemTable_GetRangeTombstones m = mt_range_tombstones m"

subsection \<open>Sequences of writes\<close>

datatype mt_op = MtPut u64 bytes bytes | MtDelete u64 bytes | MtRange u64 bytes bytes

fun mt_run :: "('g \<Rightarrow> u32 \<times> 'g) \<Rightarrow> 'g MemTable \<Rightarrow> mt_op list \<Rightarrow> 'g MemTable option" where
  "mt_run draw m [] = Some m"
| "mt_run draw m (MtPut seq k v # ops) = MemTable_Insert draw m seq k v \<bind> (\<lambda>m. mt_run draw m ops)"
| "mt_run draw m (MtDelete seq k # ops) = MemTable_InsertDeletion draw m seq k \<bind> (\<lambda>m. mt_run draw m ops)"
| "mt_run draw m (MtRange seq b e # ops) = mt_run draw (MemTable_InsertRangeDeletion m seq b e) ops"

fun mt_seq :: "mt_op \<Rightarrow> u64" where
  "mt_seq (MtPut seq k v) = seq" | "mt_seq (MtDelete seq k) = seq" | "mt_seq (MtRange seq b e) = seq"

text \<open>The point writes as entries, and the tombstones.\<close>

fun mt_points :: "mt_op list \<Rightarrow> (bytes \<times> u64 \<times> bytes option) list" where
  "mt_points [] = []"
| "mt_points (MtPut seq k v # ops) = (k, seq, Some v) # mt_points ops"
| "mt_points (MtDelete seq k # ops) = (k, seq, None) # mt_points ops"
| "mt_points (MtRange seq b e # ops) = mt_points ops"

fun mt_ranges :: "mt_op list \<Rightarrow> RangeTombstone list" where
  "mt_ranges [] = []"
| "mt_ranges (MtRange seq b e # ops) = \<lparr>rt_begin_key = b, rt_end_key = e, rt_seq = seq\<rparr> # mt_ranges ops"
| "mt_ranges (MtPut seq k v # ops) = mt_ranges ops"
| "mt_ranges (MtDelete seq k # ops) = mt_ranges ops"

text \<open>The versions of a key that a snapshot sees, in the order of their insertion, and what a
  lookup has to answer: the last of them decides, unless a newer visible tombstone covers the key.\<close>

definition mt_visible :: "mt_op list \<Rightarrow> bytes \<Rightarrow> u64 \<Rightarrow> (u64 \<times> bytes option) list" where
  "mt_visible ops key snapshot = map snd (filter (\<lambda>(k, seq, v). k = key \<and> seq \<le> snapshot) (mt_points ops))"

definition mt_covered :: "mt_op list \<Rightarrow> bytes \<Rightarrow> u64 \<Rightarrow> u64 \<Rightarrow> bool" where
  "mt_covered ops key seq snapshot \<longleftrightarrow>
     (\<exists>t \<in> set (mt_ranges ops). seq < rt_seq t \<and> rt_seq t \<le> snapshot \<and> rt_begin_key t \<le> key \<and> key < rt_end_key t)"

definition mt_answer :: "mt_op list \<Rightarrow> bytes \<Rightarrow> u64 \<Rightarrow> Lookup" where
  "mt_answer ops key snapshot =
     (if mt_visible ops key snapshot = [] then NotFound
      else case last (mt_visible ops key snapshot) of
        (seq, None) \<Rightarrow> Deleted seq
      | (seq, Some v) \<Rightarrow> if mt_covered ops key seq snapshot then Deleted seq else Value v seq)"

subsection \<open>The state after a sequence of writes\<close>

definition mt_ok :: "'g MemTable \<Rightarrow> mt_op list \<Rightarrow> bool" where
  "mt_ok m ops \<longleftrightarrow> (\<exists>es. kv_rep (mt_table m) es \<and> length es = length (mt_points ops)
       \<and> (\<forall>k. filter (\<lambda>x. fst x = k) es = rev (filter (\<lambda>x. fst x = k) (mt_points ops))))
     \<and> mt_range_tombstones m = mt_ranges ops \<and> mt_max_seq m = fold (\<lambda>op s. max (mt_seq op) s) ops 0"

lemma mt_points_append: "mt_points (ops @ ops') = mt_points ops @ mt_points ops'"
  by (induction ops rule: mt_points.induct) auto

lemma mt_ranges_append: "mt_ranges (ops @ ops') = mt_ranges ops @ mt_ranges ops'"
  by (induction ops rule: mt_ranges.induct) auto

lemma length_mt_points: "length (mt_points ops) \<le> length ops"
  by (induction ops rule: mt_points.induct) auto

lemma MemTable_NoteSeq_simps [simp]:
  "mt_table (MemTable_NoteSeq m seq) = mt_table m"
  "mt_range_tombstones (MemTable_NoteSeq m seq) = mt_range_tombstones m"
  "mt_max_seq (MemTable_NoteSeq m seq) = max seq (mt_max_seq m)"
  by (auto simp: MemTable_NoteSeq_def max_def)

lemma mt_ok_new: "mt_ok (MemTable_new g) []"
  using sl_new_rep [of False "[]" "[]" g] by (simp add: mt_ok_def MemTable_new_def kv_rep_def KVList_new_def)

lemma mt_ok_put:
  assumes "mt_ok m ops" and "length ops < 2 ^ 63" and "mt_points [op] = [(k, e)]" and "mt_ranges [op] = []"
  shows "\<exists>t. kv_put draw (mt_table m) k e = Some t \<and> mt_ok (MemTable_NoteSeq (m\<lparr>mt_table := t\<rparr>) (mt_seq op)) (ops @ [op])"
proof -
  obtain es where es: "kv_rep (mt_table m) es" "length es = length (mt_points ops)"
      "\<And>k. filter (\<lambda>x. fst x = k) es = rev (filter (\<lambda>x. fst x = k) (mt_points ops))"
    using assms(1) by (auto simp: mt_ok_def)
  have len: "length es + length [(k, e)] < 2 ^ 63 \<or> length es + 1 = 2 ^ 63"
    using es(2) length_mt_points [of ops] assms(2) by auto
  obtain t where t: "kv_put draw (mt_table m) k e = Some t" "kv_rep t (insert_entry (k, e) es)"
    using kv.ins_rep [OF es(1), of draw k e] es(2) length_mt_points [of ops] assms(2) by auto
  have "filter (\<lambda>x. fst x = k') (insert_entry (k, e) es) = rev (filter (\<lambda>x. fst x = k') (mt_points (ops @ [op])))" for k'
    using filter_insert_entry [OF kv.rep_sorted [OF es(1)]] es(3) assms(3) by (simp add: mt_points_append)
  then have "mt_ok (MemTable_NoteSeq (m\<lparr>mt_table := t\<rparr>) (mt_seq op)) (ops @ [op])"
    using t(2) es(2) assms(1,3,4) by (auto simp: mt_ok_def mt_points_append mt_ranges_append intro!: exI [of _ "insert_entry (k, e) es"])
  then show ?thesis using t(1) by blast
qed

lemma mt_run_ok:
  "mt_ok m done_ops \<Longrightarrow> length done_ops + length ops < 2 ^ 63 \<Longrightarrow> \<exists>m'. mt_run draw m ops = Some m' \<and> mt_ok m' (done_ops @ ops)"
proof (induction ops arbitrary: m done_ops)
  case (Cons op ops)
  have step: "\<exists>m'. mt_run draw m1 ops = Some m' \<and> mt_ok m' (done_ops @ op # ops)" if "mt_ok m1 (done_ops @ [op])" for m1
    using Cons.IH [OF that] Cons.prems(2) by simp
  have len: "length done_ops < 2 ^ 63" using Cons.prems(2) by simp
  show ?case
  proof (cases op)
    case (MtPut seq k v)
    then show ?thesis
      using mt_ok_put [OF Cons.prems(1) len, of op k "(seq, Some v)" draw] step
      by (auto simp: MemTable_Insert_def kv_put_def)
  next
    case (MtDelete seq k)
    then show ?thesis
      using mt_ok_put [OF Cons.prems(1) len, of op k "(seq, None)" draw] step
      by (auto simp: MemTable_InsertDeletion_def kv_put_def)
  next
    case (MtRange seq b e)
    have "mt_ok (MemTable_InsertRangeDeletion m seq b e) (done_ops @ [op])"
      using Cons.prems(1) MtRange
      by (auto simp: mt_ok_def MemTable_InsertRangeDeletion_def mt_points_append mt_ranges_append)
    then show ?thesis using step MtRange by simp
  qed
qed auto

subsection \<open>Lookup\<close>

lemma dropWhile_sorted_filter:
  "sorted (map fst es) \<Longrightarrow> dropWhile (\<lambda>x. fst x < k) es = filter (\<lambda>x. fst x = k) es @ filter (\<lambda>x. k < fst x) es"
proof (induction es)
  case (Cons e es)
  have le: "\<And>x. x \<in> set es \<Longrightarrow> fst e \<le> fst x" using Cons.prems by auto
  have "filter (\<lambda>x. fst x = k) es = []" "filter (\<lambda>x. k < fst x) es = es" if "k < fst e"
    using that le by (force simp: filter_empty_conv filter_id_conv)+
  moreover have "dropWhile (\<lambda>x. fst x < k) es = es" if "k = fst e"
    using that le by (cases es) (auto simp: not_less)
  ultimately show ?case using Cons by (cases "fst e" k rule: linorder_cases) auto
qed simp

text \<open>The loop runs over the versions of the key until one is visible.\<close>

lemma MemTable_Find_loop_at:
  assumes "sl_at False s es it (vs @ rest)" and "\<And>x. x \<in> set vs \<Longrightarrow> fst x = key" and "\<And>x. x \<in> set rest \<Longrightarrow> key < fst x"
  shows "\<exists>it'. MemTable_Find_loop s key snap it = Some it'
     \<and> (case dropWhile (\<lambda>x. snap < fst (snd x)) vs of [] \<Rightarrow> it' = None
        | v # vs' \<Rightarrow> sl_at False s es it' (v # vs' @ rest))"
  using assms
proof (induction vs arbitrary: it)
  case Nil
  show ?case
  proof (cases rest)
    case Nil
    then show ?thesis using Nil.prems(1) sl_at_end by (subst MemTable_Find_loop.simps) (fastforce simp: Iterator_Valid_def)
  next
    case (Cons e r)
    obtain k sq d v where e: "e = (k, sq, d, v)" by (metis prod_cases4)
    then have "k \<noteq> key" using Nil.prems(3) [of e] Cons by auto
    then show ?thesis
      using Iterator_fields_at [of False s es it k sq d v r] Nil.prems(1) Cons e by (subst MemTable_Find_loop.simps) simp
  qed
next
  case (Cons e vs)
  obtain k sq d v where e: "e = (k, sq, d, v)" by (metis prod_cases4)
  note f = Iterator_fields_at [OF Cons.prems(1) [unfolded append_Cons e]]
  have k: "k = key" using Cons.prems(2) [of e] e by auto
  show ?case
  proof (cases "snap < sq")
    case False
    then have "MemTable_Find_loop s key snap it = Some it" using f k by (subst MemTable_Find_loop.simps) (simp add: not_less)
    then show ?thesis using False Cons.prems(1) e by simp
  next
    case True
    obtain it' where it': "Iterator_Next s it = Some it'" "sl_at False s es it' (vs @ rest)"
      using Iterator_Next_at [of False s es it e "vs @ rest"] Cons.prems(1) by auto
    have "MemTable_Find_loop s key snap it = MemTable_Find_loop s key snap it'"
      using f k it'(1) True by (subst MemTable_Find_loop.simps) (simp flip: not_le)
    then show ?thesis using Cons.IH [OF it'(2)] Cons.prems(2,3) True e by simp
  qed
qed

lemma MemTable_Find_loop_null [simp]: "MemTable_Find_loop s key snap None = Some None"
  by (subst MemTable_Find_loop.simps) (simp add: Iterator_Valid_def)

lemma MemTable_Find_rep:
  assumes "sl_rep False (mt_table m) es" and "length es < 2 ^ 63"
  shows "MemTable_Find m key snap = Some
     (case dropWhile (\<lambda>x. snap < fst (snd x)) (filter (\<lambda>x. fst x = key) es) of [] \<Rightarrow> NotFound
      | (_, sq, del, v) # _ \<Rightarrow> if del \<or> MemTable_IsRangeDeleted m key sq snap then Deleted sq else Value v sq)"
proof -
  let ?s = "mt_table m" and ?vs = "filter (\<lambda>x. fst x = key) es"
  obtain it where it: "SkipList_Find ?s key = Some it"
      "if key \<in> fst ` set es then sl_at False ?s es it (dropWhile (\<lambda>x. fst x < key) es) else it = None"
    using SkipList_Find_at [OF assms] by blast
  let ?rest = "filter (\<lambda>x. key < fst x) es"
  have rest: "dropWhile (\<lambda>x. fst x < key) es = ?vs @ ?rest"
    by (rule dropWhile_sorted_filter [OF sl_rep_sorted [OF assms(1)]])
  have "\<exists>it'. MemTable_Find_loop ?s key snap it = Some it'
     \<and> (case dropWhile (\<lambda>x. snap < fst (snd x)) ?vs of [] \<Rightarrow> it' = None | v # vs' \<Rightarrow> sl_at False ?s es it' (v # vs' @ ?rest))"
  proof (cases "key \<in> fst ` set es")
    case True
    then show ?thesis using it(2) rest by (intro MemTable_Find_loop_at) auto
  next
    case False
    then have "?vs = []" by (force simp: filter_empty_conv)
    then show ?thesis using False it(2) by simp
  qed
  then obtain it' where it': "MemTable_Find_loop ?s key snap it = Some it'"
      "case dropWhile (\<lambda>x. snap < fst (snd x)) ?vs of [] \<Rightarrow> it' = None | v # vs' \<Rightarrow> sl_at False ?s es it' (v # vs' @ ?rest)"
    by blast
  show ?thesis
  proof (cases "dropWhile (\<lambda>x. snap < fst (snd x)) ?vs")
    case Nil
    have "it' = None" using it'(2) unfolding Nil by simp
    then show ?thesis using it(1) it'(1) unfolding Nil by (simp add: MemTable_Find_def KVList_Find_def view_overloads)
  next
    case (Cons x vs')
    obtain k sq d v where x: "x = (k, sq, d, v)" by (metis prod_cases4)
    have "sl_at False ?s es it' ((k, sq, d, v) # vs' @ ?rest)" using it'(2) unfolding Cons x by simp
    note f = Iterator_fields_at [OF this]
    show ?thesis
      using it(1) it'(1) f unfolding Cons x by (simp add: MemTable_Find_def KVList_Find_def view_overloads Iterator_Valid_def)
  qed
qed

lemma last_filter_dropWhile: "filter P xs \<noteq> [] \<Longrightarrow> dropWhile (\<lambda>x. \<not> P x) (rev xs) = last (filter P xs) # tl (dropWhile (\<lambda>x. \<not> P x) (rev xs))"
  by (induction xs rule: rev_induct) (auto split: if_splits)

lemma MemTable_Find_answer:
  assumes "mt_ok m ops" and "length ops < 2 ^ 63"
  shows "MemTable_Find m key snap = Some (mt_answer ops key snap)"
proof -
  obtain es where es: "kv_rep (mt_table m) es" "length es = length (mt_points ops)"
      "\<And>k. filter (\<lambda>x. fst x = k) es = rev (filter (\<lambda>x. fst x = k) (mt_points ops))"
    using assms(1) by (auto simp: mt_ok_def)
  have len: "length (map kv_entry es) < 2 ^ 63" using es(2) length_mt_points [of ops] assms(2) by simp
  let ?ps = "filter (\<lambda>x. fst x = key) (mt_points ops)" and ?P = "\<lambda>x :: bytes \<times> u64 \<times> bytes option. \<not> snap < fst (snd x)"
  have vs: "dropWhile (\<lambda>x. snap < fst (snd x)) (filter (\<lambda>x. fst x = key) (map kv_entry es)) = map kv_entry (dropWhile (\<lambda>x. \<not> ?P x) (rev ?ps))"
    by (simp add: filter_map comp_def es(3) dropWhile_map kv_entry_def case_prod_unfold)
  have vis: "mt_visible ops key snap = map snd (filter ?P ?ps)"
    by (simp add: mt_visible_def filter_filter case_prod_unfold not_less conj_commute)
  have rd: "MemTable_IsRangeDeleted m key sq snap = mt_covered ops key sq snap" for sq
    using assms(1) by (auto simp: MemTable_IsRangeDeleted_def mt_ok_def mt_covered_def list_ex_iff not_less)
  show ?thesis
  proof (cases "filter ?P ?ps = []")
    case True
    then have d: "dropWhile (\<lambda>x. \<not> ?P x) (rev ?ps) = []" by (auto simp: dropWhile_eq_Nil_conv filter_empty_conv)
    show ?thesis
      using MemTable_Find_rep [OF es(1) [unfolded kv_rep_def] len, of key snap]
      unfolding vs mt_answer_def vis True d by simp
  next
    case False
    obtain k sq vo where l: "last (filter ?P ?ps) = (k, sq, vo)" by (metis prod_cases3)
    have d: "dropWhile (\<lambda>x. \<not> ?P x) (rev ?ps) = (k, sq, vo) # tl (dropWhile (\<lambda>x. \<not> ?P x) (rev ?ps))"
      using last_filter_dropWhile [OF False] l by simp
    have "mt_visible ops key snap \<noteq> []" "last (mt_visible ops key snap) = (sq, vo)"
      using False l by (auto simp: vis last_map)
    then have "mt_answer ops key snap = (case vo of None \<Rightarrow> Deleted sq | Some v \<Rightarrow> if mt_covered ops key sq snap then Deleted sq else Value v sq)"
      by (simp add: mt_answer_def)
    moreover have "MemTable_Find m key snap = Some (case (kv_entry (k, sq, vo)) of (_, sq, del, v) \<Rightarrow>
        if del \<or> MemTable_IsRangeDeleted m key sq snap then Deleted sq else Value v sq)"
      using MemTable_Find_rep [OF es(1) [unfolded kv_rep_def] len, of key snap] unfolding vs by (subst (asm) d) simp
    ultimately show ?thesis by (cases vo) (simp_all add: kv_entry_def rd)
  qed
qed

subsection \<open>Properties\<close>

lemma mt_new_run:
  assumes "length ops < 2 ^ 63"
  obtains m where "mt_run draw (MemTable_new g) ops = Some m" "mt_ok m ops"
  using mt_run_ok [OF mt_ok_new, of ops draw g] assms by auto

lemma sorted_mt_points: "sorted (map mt_seq ops) \<Longrightarrow> sorted (map (fst \<circ> snd) (mt_points ops))"
proof (induction ops rule: mt_points.induct)
  case (2 seq k v ops)
  have "seq \<le> fst (snd p)" if "p \<in> set (mt_points ops)" for p
    using that 2(2) by (induction ops rule: mt_points.induct) auto
  then show ?case using 2 by auto
next
  case (3 seq k ops)
  have "seq \<le> fst (snd p)" if "p \<in> set (mt_points ops)" for p
    using that 3(2) by (induction ops rule: mt_points.induct) auto
  then show ?case using 3 by auto
qed auto

lemma mt_visible_newest:
  assumes "sorted (map mt_seq ops)" and "e \<in> set (mt_visible ops key snap)"
  shows "fst e \<le> fst (last (mt_visible ops key snap))"
proof -
  have "map fst (mt_visible ops key snap) = map (fst \<circ> snd) (filter (\<lambda>(k, seq, v). k = key \<and> seq \<le> snap) (mt_points ops))"
    by (simp add: mt_visible_def)
  then have "sorted (map fst (mt_visible ops key snap))"
    using sorted_filter [of "fst \<circ> snd" "mt_points ops"] sorted_mt_points [OF assms(1)] by simp
  moreover obtain i where "i < length (mt_visible ops key snap)" "mt_visible ops key snap ! i = e"
    using assms(2) by (auto simp: in_set_conv_nth)
  moreover have "mt_visible ops key snap \<noteq> []" using assms(2) by auto
  ultimately show ?thesis
    using sorted_nth_mono [of "map fst (mt_visible ops key snap)" i "length (mt_visible ops key snap) - 1"]
    by (simp add: last_conv_nth)
qed

text \<open>C17: A memtable answers with the newest visible version. When writes, deletions and range
  deletions arrive in the order of their sequence numbers, \<open>Find\<close> at a snapshot reports the version
  of the key with the greatest sequence number not above the snapshot: its value, or that it is
  deleted, if it is a deletion or a range tombstone with a greater number that the snapshot sees
  covers the key; and \<open>NotFound\<close> exactly if no version is visible.\<close>

theorem memtable_find_newest:
  assumes "length ops < 2 ^ 63" and "sorted (map mt_seq ops)"
  shows "\<exists>m. mt_run draw (MemTable_new g) ops = Some m
     \<and> MemTable_Find m key snap = Some (mt_answer ops key snap)
     \<and> (\<forall>e \<in> set (mt_visible ops key snap). fst e \<le> fst (last (mt_visible ops key snap)))
     \<and> (mt_answer ops key snap = NotFound \<longleftrightarrow> mt_visible ops key snap = [])"
proof -
  obtain m where m: "mt_run draw (MemTable_new g) ops = Some m" "mt_ok m ops" by (rule mt_new_run [OF assms(1)])
  have "mt_answer ops key snap = NotFound \<longleftrightarrow> mt_visible ops key snap = []"
    by (auto simp: mt_answer_def split: prod.splits option.splits)
  then show ?thesis
    using m(1) MemTable_Find_answer [OF m(2) assms(1)] mt_visible_newest [OF assms(2)] by blast
qed

theorem memtable_find_newest_witness:
  "length [MtPut 1 [7] [10], MtPut 2 [7] [20], MtDelete 3 [7], MtRange 4 [5] [9]] < 2 ^ 63
   \<and> sorted (map mt_seq [MtPut 1 [7] [10], MtPut 2 [7] [20], MtDelete 3 [7], MtRange 4 [5] [9]])
   \<and> (\<exists>m. mt_run (\<lambda>g. (g, g + 1)) (MemTable_new 0) [MtPut 1 [7] [10], MtPut 2 [7] [20], MtDelete 3 [7], MtRange 4 [5] [9]] = Some m
        \<and> MemTable_Find m [7] 2 = Some (Value [20] 2))"
  using memtable_find_newest [of "[MtPut 1 [7] [10], MtPut 2 [7] [20], MtDelete 3 [7], MtRange 4 [5] [9]]" "\<lambda>g. (g, g + 1)" 0 "[7]" 2]
  by (auto simp: mt_answer_def mt_visible_def mt_covered_def)

text \<open>C36: The order of arrival matters. If a write with a smaller sequence number reaches the
  memtable after one with a greater number, \<open>Find\<close> returns the older of the two although the
  snapshot sees both: the loop stops at the first visible version, and the skip list keeps the
  versions of a key in the reverse order of their insertion, not in that of their numbers.\<close>

theorem memtable_find_out_of_order:
  assumes "seq1 < seq2" and "seq2 \<le> snap"
  shows "\<exists>m. mt_run draw (MemTable_new g) [MtPut seq2 key v2, MtPut seq1 key v1] = Some m
     \<and> MemTable_Find m key snap = Some (Value v1 seq1)"
proof -
  obtain m where m: "mt_run draw (MemTable_new g) [MtPut seq2 key v2, MtPut seq1 key v1] = Some m"
      "mt_ok m [MtPut seq2 key v2, MtPut seq1 key v1]"
    by (rule mt_new_run [of "[MtPut seq2 key v2, MtPut seq1 key v1]"]) simp
  have "mt_answer [MtPut seq2 key v2, MtPut seq1 key v1] key snap = Value v1 seq1"
    using assms by (auto simp: mt_answer_def mt_visible_def mt_covered_def)
  then show ?thesis using m(1) MemTable_Find_answer [OF m(2), of key snap] by simp
qed

theorem memtable_find_out_of_order_witness:
  "(1 :: u64) < 2 \<and> (2 :: u64) \<le> 5
   \<and> (\<exists>m. mt_run (\<lambda>g. (g, g + 1)) (MemTable_new 0) [MtPut 2 [7] [20], MtPut 1 [7] [10]] = Some m
        \<and> MemTable_Find m [7] 5 = Some (Value [10] 1))"
  using memtable_find_out_of_order [of 1 2 5 "\<lambda>g. (g, g + 1)" 0 "[7]" "[20]" "[10]"] by simp

lemma fold_max_start: "s \<le> fold (\<lambda>op s. max (mt_seq op) s) ops s"
  by (induction ops arbitrary: s) (auto intro: order_trans [OF max.cobounded2])

lemma fold_max_ge: "op \<in> set ops \<Longrightarrow> mt_seq op \<le> fold (\<lambda>op s. max (mt_seq op) s) ops s"
proof (induction ops arbitrary: s)
  case (Cons o' ops)
  then show ?case using fold_max_start [of "max (mt_seq o') s" ops] by (cases "op = o'") auto
qed simp

lemma fold_max_attained: "ops \<noteq> [] \<Longrightarrow> fold (\<lambda>op s. max (mt_seq op) s) ops 0 \<in> mt_seq ` set ops"
proof -
  have "fold (\<lambda>op s. max (mt_seq op) s) ops s \<in> insert s (mt_seq ` set ops)" for s
    by (induction ops arbitrary: s) (auto simp: max_def split: if_splits)
  moreover have "fold (\<lambda>op s. max (mt_seq op) s) ops 0 \<noteq> 0 \<or> (\<forall>op \<in> set ops. mt_seq op = 0)"
    using fold_max_ge [of _ ops 0] by fastforce
  ultimately show "ops \<noteq> [] \<Longrightarrow> ?thesis" by (metis image_eqI insertE last_in_set)
qed

text \<open>The flush boundary. After any non-empty sequence of writes, in any order, \<open>MaxSeq\<close> is the
  greatest sequence number among them, over values, deletions and range deletions, and
  \<open>HasContent\<close> says that there is something to write out, also when only range deletions came in
  and \<open>empty\<close> holds.\<close>

theorem memtable_max_seq:
  assumes "length ops < 2 ^ 63" and "ops \<noteq> []"
  shows "\<exists>m. mt_run draw (MemTable_new g) ops = Some m \<and> MemTable_MaxSeq m = Max (mt_seq ` set ops)
     \<and> MemTable_HasContent m = Some True \<and> MemTable_empty m = Some (mt_points ops = [])"
proof -
  obtain m where m: "mt_run draw (MemTable_new g) ops = Some m" "mt_ok m ops" by (rule mt_new_run [OF assms(1)])
  have "MemTable_MaxSeq m = Max (mt_seq ` set ops)"
    using m(2) fold_max_attained [OF assms(2)] fold_max_ge [of _ ops 0]
    by (intro Max_eqI [symmetric]) (auto simp: MemTable_MaxSeq_def mt_ok_def)
  moreover have e: "MemTable_empty m = Some (mt_points ops = [])"
  proof -
    obtain es where es: "kv_rep (mt_table m) es" "length es = length (mt_points ops)" using m(2) by (auto simp: mt_ok_def)
    obtain it where it: "SkipList_SeekToFirst (mt_table m) = Some it" "sl_at False (mt_table m) (map kv_entry es) it (map kv_entry es)"
      using SkipList_SeekToFirst_at [OF es(1) [unfolded kv_rep_def]] by blast
    have "Iterator_Valid it \<longleftrightarrow> es \<noteq> []"
    proof (cases es)
      case Nil
      then show ?thesis using it(2) sl_at_end by (fastforce simp: Iterator_Valid_def)
    next
      case (Cons e es')
      then obtain a where "it = Some a" using it(2) by (metis list.simps(9) sl_at_entry)
      then show ?thesis using Cons by (simp add: Iterator_Valid_def)
    qed
    then show ?thesis using it(1) es(2) by (auto simp: MemTable_empty_def KVList_SeekToFirst_def)
  qed
  moreover have "MemTable_HasContent m = Some True"
  proof -
    have "mt_ranges ops \<noteq> []" if "mt_points ops = []"
      using that assms(2) by (cases ops rule: mt_points.cases) auto
    then show ?thesis using e m(2) by (auto simp: MemTable_HasContent_def mt_ok_def)
  qed
  ultimately show ?thesis using m(1) by blast
qed

theorem memtable_max_seq_witness:
  "length [MtRange 4 [5] [9]] < 2 ^ 63 \<and> [MtRange 4 [5] [9]] \<noteq> []
   \<and> (\<exists>m. mt_run (\<lambda>g. (g, g + 1)) (MemTable_new 0) [MtRange 4 [5] [9]] = Some m
        \<and> MemTable_MaxSeq m = 4 \<and> MemTable_HasContent m = Some True \<and> MemTable_empty m = Some True)"
  using memtable_max_seq [of "[MtRange 4 [5] [9]]" "\<lambda>g. (g, g + 1)" 0] by simp

end
