(* ===== verification/Lkv_Raft.thy ===== *)
theory Lkv_Raft
  imports Lkv_Options Lkv_Encoding "HOL-Library.Monad_Syntax"
begin

section \<open>The Raft engine: state, log and persistence (raft.h, raft.cpp)\<close>

text \<open>
  One node of the cluster is a record of its options, its persistent and volatile state, the
  snapshot it keeps, its state machine and the files it writes. The state machine is a type
  parameter, and what its virtual functions do is a record of functions. The mutex makes every
  handler one step; where the code releases it around a call to another node, the answer and what
  other threads did to the node meanwhile are a parameter. The clock and the random election
  timeouts only decide when \<open>HandleElectionTimeout\<close> runs and are left out, and so are the threads
  and the log messages. \<open>ApplyCommitted\<close> also releases the mutex while the state machine applies an
  entry; here it runs to its end.

  An index is an unsigned 64-bit number, \<open>log_[i]\<close> holds the entry with index \<open>log_base_ + i\<close>, and
  \<open>kNoPos\<close> is \<open>None\<close>. A read past the end of a buffer has no result.
\<close>

subsection \<open>Data\<close>

datatype RaftRole = kFollower | kCandidate | kLeader

text \<open>The entry type is a byte; a byte read from a file is converted without a check.\<close>

definition kCommand :: byte where "kCommand = 0"
definition kConfChange :: byte where "kConfChange = 1"
definition kNoOp :: byte where "kNoOp = 2"

record RaftLogEntry =
  le_index :: u64
  le_term :: u64
  le_type :: byte
  le_data :: bytes

record RaftPeer =
  pr_id :: u64
  pr_host :: string
  pr_port :: nat
  pr_is_voter :: bool

record AppendEntriesRequest =
  ae_term :: u64
  ae_leader_id :: u64
  ae_prev_log_index :: u64
  ae_prev_log_term :: u64
  ae_entries :: "RaftLogEntry list"
  ae_leader_commit :: u64

record AppendEntriesResponse =
  ar_term :: u64
  ar_success :: bool
  ar_conflict_term :: u64
  ar_conflict_index :: u64

record RequestVoteRequest =
  rv_term :: u64
  rv_candidate_id :: u64
  rv_last_log_index :: u64
  rv_last_log_term :: u64

record RequestVoteResponse =
  vr_term :: u64
  vr_vote_granted :: bool

record InstallSnapshotRequest =
  is_term :: u64
  is_leader_id :: u64
  is_last_included_index :: u64
  is_last_included_term :: u64
  is_data :: bytes

record InstallSnapshotResponse =
  ir_term :: u64
  ir_success :: bool

record InstallSnapshotChunkRequest =
  ic_term :: u64
  ic_leader_id :: u64
  ic_last_included_index :: u64
  ic_last_included_term :: u64
  ic_chunk_offset :: u64
  ic_total_size :: u64
  ic_is_last :: bool
  ic_data :: bytes

record InstallSnapshotChunkResponse =
  cr_term :: u64
  cr_accepted_len :: u64
  cr_complete :: bool
  cr_rejected :: bool

record RaftConfiguration =
  rc_voters :: "u64 set"
  rc_new_voters :: "u64 set"

record RaftOptions =
  ro_node_id :: u64
  ro_peers :: "RaftPeer list"
  ro_enable_raft :: bool
  ro_max_log_entries_per_append :: nat
  ro_snapshot_chunk_size :: nat
  ro_snapshot_send_budget :: nat
  ro_max_snapshot_size :: u64

record SnapshotSendState =
  ss_last_included_index :: u64
  ss_last_included_term :: u64
  ss_total_size :: u64
  ss_sent :: u64

record SnapshotStaging =
  sg_active :: bool
  sg_term :: u64
  sg_leader_id :: u64
  sg_last_included_index :: u64
  sg_last_included_term :: u64
  sg_expected_size :: u64
  sg_buffer :: bytes

definition SnapshotStaging_new :: SnapshotStaging where
  "SnapshotStaging_new = \<lparr>sg_active = False, sg_term = 0, sg_leader_id = 0, sg_last_included_index = 0,
     sg_last_included_term = 0, sg_expected_size = 0, sg_buffer = []\<rparr>"

text \<open>A slot for the result of an application is empty until it is done. The slots are shared between
  the threads, so they have addresses: indices into \<open>rf_slots\<close>.\<close>

type_synonym PendingResult = "bytes option"

record 'sm Raft =
  rf_opts :: RaftOptions
  rf_db_path :: string
  rf_current_term :: u64
  rf_voted_for :: u64
  rf_log :: "RaftLogEntry list"
  rf_log_base :: u64
  rf_commit_index :: u64
  rf_last_applied :: u64
  rf_next_index :: "u64 list"
  rf_match_index :: "u64 list"
  rf_role :: RaftRole
  rf_leader_id :: u64
  rf_initialized :: bool
  rf_slots :: "PendingResult list"
  rf_pending_results :: "u64 \<rightharpoonup> nat"
  rf_last_snapshot_index :: u64
  rf_last_snapshot_term :: u64
  rf_snapshot_data :: bytes
  rf_snapshot_threshold :: nat
  rf_snapshot_staging :: SnapshotStaging
  rf_snapshot_sends :: "u64 \<rightharpoonup> SnapshotSendState"
  rf_configuration :: RaftConfiguration
  rf_sm :: 'sm
  rf_fs :: fs

text \<open>The state machine behind the engine.\<close>

record 'sm RaftStateMachine =
  sm_Apply :: "bytes \<Rightarrow> 'sm \<Rightarrow> bytes \<times> 'sm"
  sm_TakeSnapshot :: "'sm \<Rightarrow> bytes"
  sm_ApplySnapshot :: "bytes \<Rightarrow> 'sm \<Rightarrow> Status \<times> 'sm"

subsection \<open>Serialization\<close>

definition raft_PutFixed32 :: "bytes \<Rightarrow> u32 \<Rightarrow> bytes" where "raft_PutFixed32 dst v = dst @ le_bytes 4 v"
definition raft_PutFixed64 :: "bytes \<Rightarrow> u64 \<Rightarrow> bytes" where "raft_PutFixed64 dst v = dst @ le_bytes 8 v"

definition raft_GetFixed32 :: "bytes \<Rightarrow> nat \<Rightarrow> (u32 \<times> nat) option" where
  "raft_GetFixed32 src off = (if off + 4 \<le> length src then Some (le_val (take 4 (drop off src)), off + 4) else None)"

definition raft_GetFixed64 :: "bytes \<Rightarrow> nat \<Rightarrow> (u64 \<times> nat) option" where
  "raft_GetFixed64 src off = (if off + 8 \<le> length src then Some (le_val (take 8 (drop off src)), off + 8) else None)"

definition RaftLogEntry_Serialize :: "RaftLogEntry \<Rightarrow> bytes" where
  "RaftLogEntry_Serialize e =
     (let buf = raft_PutFixed64 [] (le_index e);
          buf = raft_PutFixed64 buf (le_term e);
          buf = buf @ [le_type e];
          buf = raft_PutFixed32 buf (word_of_nat (length (le_data e)))
      in buf @ le_data e)"

text \<open>The argument is the memory from the start of the slice on: the reads do not look at its size.\<close>

definition RaftLogEntry_Deserialize :: "bytes \<Rightarrow> RaftLogEntry option" where
  "RaftLogEntry_Deserialize mem = do {
     (index, off) \<leftarrow> raft_GetFixed64 mem 0;
     (tm, off) \<leftarrow> raft_GetFixed64 mem off;
     ty \<leftarrow> (if off < length mem then Some (mem ! off) else None);
     (data_len, off) \<leftarrow> raft_GetFixed32 mem (off + 1);
     if off + unat data_len \<le> length mem
     then Some \<lparr>le_index = index, le_term = tm, le_type = ty, le_data = take (unat data_len) (drop off mem)\<rparr>
     else None
   }"

subsection \<open>The log\<close>

definition dummy_entry :: RaftLogEntry where
  "dummy_entry = \<lparr>le_index = 0, le_term = 0, le_type = kNoOp, le_data = []\<rparr>"

definition Raft_new :: "RaftOptions \<Rightarrow> 'sm \<Rightarrow> fs \<Rightarrow> 'sm Raft" where
  "Raft_new opts sm fs =
     \<lparr>rf_opts = opts, rf_db_path = '''', rf_current_term = 0, rf_voted_for = 0, rf_log = [dummy_entry],
      rf_log_base = 0, rf_commit_index = 0, rf_last_applied = 0,
      rf_next_index = replicate (length (ro_peers opts)) 1, rf_match_index = replicate (length (ro_peers opts)) 0,
      rf_role = kFollower, rf_leader_id = 0, rf_initialized = False, rf_slots = [], rf_pending_results = Map.empty,
      rf_last_snapshot_index = 0, rf_last_snapshot_term = 0, rf_snapshot_data = [], rf_snapshot_threshold = 10000,
      rf_snapshot_staging = SnapshotStaging_new, rf_snapshot_sends = Map.empty,
      rf_configuration = \<lparr>rc_voters = {}, rc_new_voters = {}\<rparr>, rf_sm = sm, rf_fs = fs\<rparr>"

definition Raft_LogPos :: "'sm Raft \<Rightarrow> u64 \<Rightarrow> nat option" where
  "Raft_LogPos r absolute_index =
     (if absolute_index < rf_log_base r then None
      else let pos = absolute_index - rf_log_base r
           in if word_of_nat (length (rf_log r)) \<le> pos then None else Some (unat pos))"

definition Raft_LastLogIndex :: "'sm Raft \<Rightarrow> u64" where
  "Raft_LastLogIndex r = rf_log_base r + word_of_nat (length (rf_log r)) - 1"

definition Raft_GetLastLogIndex :: "'sm Raft \<Rightarrow> u64" where
  "Raft_GetLastLogIndex r = Raft_LastLogIndex r"

definition Raft_GetLastLogTerm :: "'sm Raft \<Rightarrow> u64" where
  "Raft_GetLastLogTerm r = le_term (last (rf_log r))"

definition Raft_GetLogEntry :: "'sm Raft \<Rightarrow> u64 \<Rightarrow> RaftLogEntry" where
  "Raft_GetLogEntry r index =
     (case Raft_LogPos r index of Some pos \<Rightarrow> rf_log r ! pos | None \<Rightarrow> dummy_entry)"

definition Raft_GetTermForIndex :: "'sm Raft \<Rightarrow> u64 \<Rightarrow> u64" where
  "Raft_GetTermForIndex r index =
     (case Raft_LogPos r index of Some pos \<Rightarrow> le_term (rf_log r ! pos) | None \<Rightarrow> 0)"

definition Raft_LiveLogSize :: "'sm Raft \<Rightarrow> nat" where
  "Raft_LiveLogSize r = length (rf_log r)"

subsection \<open>Persistence\<close>

definition Raft_RaftStatePath :: "'sm Raft \<Rightarrow> string" where
  "Raft_RaftStatePath r = (if rf_db_path r = '''' then ''./raft_state.dat'' else rf_db_path r @ ''/raft_state.dat'')"

definition Raft_RaftSnapshotPath :: "'sm Raft \<Rightarrow> string" where
  "Raft_RaftSnapshotPath r = (if rf_db_path r = '''' then ''./raft_snapshot.dat'' else rf_db_path r @ ''/raft_snapshot.dat'')"

text \<open>Both files are written to a temporary file that then replaces the old one.\<close>

definition write_and_rename :: "Env \<Rightarrow> fs \<Rightarrow> string \<Rightarrow> bytes \<Rightarrow> string \<Rightarrow> Status \<times> fs" where
  "write_and_rename env fs path buf what =
     (let tmp_path = path @ ''.tmp''
      in if \<not> env_open env tmp_path then (Status_IOError (''cannot write '' @ what), fs)
         else if env_pwrite env tmp_path 0 (length buf) \<noteq> int (length buf)
         then (Status_IOError (''short write to '' @ what), fs(tmp_path := None))
         else if \<not> env_rename env tmp_path path
         then (Status_IOError (''cannot atomically replace '' @ what), fs(tmp_path := None))
         else (Status_OK, fs(tmp_path := None, path \<mapsto> buf)))"

definition Raft_SaveSnapshotData :: "Env \<Rightarrow> 'sm Raft \<Rightarrow> Status \<times> 'sm Raft" where
  "Raft_SaveSnapshotData env r =
     (if rf_snapshot_data r = [] then (Status_OK, r)
      else let buf = raft_PutFixed64 [] (rf_last_snapshot_index r);
               buf = raft_PutFixed64 buf (rf_last_snapshot_term r);
               buf = raft_PutFixed32 buf (word_of_nat (length (rf_snapshot_data r)));
               buf = buf @ rf_snapshot_data r;
               (s, fs) = write_and_rename env (rf_fs r) (Raft_RaftSnapshotPath r) buf ''raft snapshot''
           in (s, r\<lparr>rf_fs := fs\<rparr>))"

fun put_entries :: "RaftLogEntry list \<Rightarrow> bytes \<Rightarrow> bytes" where
  "put_entries [] buf = buf"
| "put_entries (e # es) buf =
     (let serialized = RaftLogEntry_Serialize e
      in put_entries es (raft_PutFixed32 buf (word_of_nat (length serialized)) @ serialized))"

definition Raft_SavePersistentState :: "Env \<Rightarrow> 'sm Raft \<Rightarrow> Status \<times> 'sm Raft" where
  "Raft_SavePersistentState env r =
     (if \<not> ro_enable_raft (rf_opts r) then (Status_OK, r)
      else let buf = raft_PutFixed64 [] (rf_current_term r);
               buf = raft_PutFixed64 buf (rf_voted_for r);
               buf = raft_PutFixed64 buf (rf_last_snapshot_index r);
               buf = raft_PutFixed64 buf (rf_last_snapshot_term r);
               buf = raft_PutFixed32 buf (word_of_nat (length (rf_log r)));
               buf = put_entries (rf_log r) buf;
               (s, fs) = write_and_rename env (rf_fs r) (Raft_RaftStatePath r) buf ''raft state''
           in (s, r\<lparr>rf_fs := fs\<rparr>))"

text \<open>The handlers drop the status of a save.\<close>

definition save :: "Env \<Rightarrow> 'sm Raft \<Rightarrow> 'sm Raft" where
  "save env r = snd (Raft_SavePersistentState env r)"

text \<open>\<open>fopen\<close> for reading, the size and \<open>fread\<close>: no file, an unreadable one, or its bytes.\<close>

definition read_file :: "Env \<Rightarrow> fs \<Rightarrow> string \<Rightarrow> bytes option" where
  "read_file env fs path = (if env_open env path then fs path else None)"

definition Raft_LoadSnapshotData :: "Env \<Rightarrow> 'sm Raft \<Rightarrow> 'sm Raft option" where
  "Raft_LoadSnapshotData env r =
     (case read_file env (rf_fs r) (Raft_RaftSnapshotPath r) of
        None \<Rightarrow> Some r
      | Some buf \<Rightarrow>
          if buf = [] then Some r
          else if env_read env (Raft_RaftSnapshotPath r) (length buf) \<noteq> int (length buf) then Some r
          else if length buf \<le> 8 + 8 + 4 then Some r
          else do {
            (snap_index, off) \<leftarrow> raft_GetFixed64 buf 0;
            (snap_term, off) \<leftarrow> raft_GetFixed64 buf off;
            (data_len, off) \<leftarrow> raft_GetFixed32 buf off;
            if data_len = 0 \<or> off + unat data_len \<noteq> length buf then Some r
            else if snap_index < rf_log_base r \<or> Raft_LastLogIndex r < snap_index
                    \<or> Raft_GetTermForIndex r snap_index \<noteq> snap_term
            then Some r
            else Some (r\<lparr>rf_snapshot_data := take (unat data_len) (drop off buf),
                         rf_last_snapshot_index := snap_index, rf_last_snapshot_term := snap_term\<rparr>)
          })"

fun load_entries :: "nat \<Rightarrow> bytes \<Rightarrow> nat \<Rightarrow> (RaftLogEntry list \<times> nat) option" where
  "load_entries 0 buf off = Some ([], off)"
| "load_entries (Suc n) buf off = do {
     (entry_size, off) \<leftarrow> raft_GetFixed32 buf off;
     e \<leftarrow> RaftLogEntry_Deserialize (drop off buf);
     (es, off) \<leftarrow> load_entries n buf (off + unat entry_size);
     Some (e # es, off)
   }"

definition Raft_LoadPersistentState :: "Env \<Rightarrow> 'sm Raft \<Rightarrow> string \<Rightarrow> (Status \<times> 'sm Raft) option" where
  "Raft_LoadPersistentState env r dir =
     (if \<not> ro_enable_raft (rf_opts r) then Some (Status_OK, r)
      else let r = r\<lparr>rf_db_path := dir\<rparr>
      in case read_file env (rf_fs r) (Raft_RaftStatePath r) of
           None \<Rightarrow> Some (Status_OK, r)
         | Some buf \<Rightarrow>
             if buf = [] then Some (Status_OK, r)
             else if env_read env (Raft_RaftStatePath r) (length buf) \<noteq> int (length buf)
             then Some (Status_Corruption ''failed to read raft state'', r)
             else do {
               (current_term, off) \<leftarrow> raft_GetFixed64 buf 0;
               (voted_for, off) \<leftarrow> raft_GetFixed64 buf off;
               (_, off) \<leftarrow> raft_GetFixed64 buf off;
               (_, off) \<leftarrow> raft_GetFixed64 buf off;
               (log_count, off) \<leftarrow> raft_GetFixed32 buf off;
               (log, _) \<leftarrow> load_entries (unat log_count) buf off;
               let r = r\<lparr>rf_current_term := current_term, rf_voted_for := voted_for\<rparr>;
               let base = (if log = [] then 0 else le_index (last log) - (word_of_nat (length log) - 1));
               let r = (if log = [] \<or> le_index (hd log) \<noteq> base
                        then r\<lparr>rf_log := [dummy_entry], rf_log_base := 0\<rparr>
                        else r\<lparr>rf_log := log, rf_log_base := base\<rparr>);
               r \<leftarrow> Raft_LoadSnapshotData env r;
               Some (Status_OK, r)
             })"

text \<open>The first argument says whether the directory exists or could be created.\<close>

definition Raft_Initialize :: "(string \<Rightarrow> bool) \<Rightarrow> Env \<Rightarrow> 'sm Raft \<Rightarrow> string \<Rightarrow> (Status \<times> 'sm Raft) option" where
  "Raft_Initialize mkdir env r dir =
     (if \<not> ro_enable_raft (rf_opts r) then Some (Status_OK, r)
      else if ro_peers (rf_opts r) = [] then Some (Status_InvalidArgument ''Raft peers list is empty'', r)
      else if ro_node_id (rf_opts r) = 0 then Some (Status_InvalidArgument ''Raft node_id must be non-zero'', r)
      else if \<not> mkdir dir then Some (Status_IOError (''cannot create raft directory: '' @ dir), r)
      else do {
        (loaded, r) \<leftarrow> Raft_LoadPersistentState env (r\<lparr>rf_db_path := dir\<rparr>) dir;
        if \<not> ok loaded then Some (loaded, r)
        else if ro_node_id (rf_opts r) \<notin> pr_id ` set (ro_peers (rf_opts r))
        then Some (Status_InvalidArgument ''Raft node_id not found in peers list'', r)
        else Some (Status_OK, r\<lparr>rf_initialized := True\<rparr>)
      })"

subsection \<open>Roles\<close>

definition Raft_BecomeFollower :: "Env \<Rightarrow> 'sm Raft \<Rightarrow> u64 \<Rightarrow> 'sm Raft" where
  "Raft_BecomeFollower env r tm =
     save env (r\<lparr>rf_current_term := tm, rf_role := kFollower, rf_voted_for := 0\<rparr>)"

definition Raft_BecomeCandidate :: "Env \<Rightarrow> 'sm Raft \<Rightarrow> 'sm Raft" where
  "Raft_BecomeCandidate env r =
     save env (r\<lparr>rf_current_term := rf_current_term r + 1, rf_role := kCandidate,
                 rf_voted_for := ro_node_id (rf_opts r), rf_leader_id := 0\<rparr>)"

definition Raft_BecomeLeader :: "Env \<Rightarrow> 'sm Raft \<Rightarrow> 'sm Raft" where
  "Raft_BecomeLeader env r =
     (let last_log_index = Raft_GetLastLogIndex r;
          self = ro_node_id (rf_opts r);
          ps = ro_peers (rf_opts r);
          nexts = map (\<lambda>i. if pr_id (ps ! i) \<noteq> self then last_log_index + 1 else rf_next_index r ! i) [0..<length ps];
          matches = map (\<lambda>i. if pr_id (ps ! i) \<noteq> self then 0 else last_log_index) [0..<length ps];
          noop = \<lparr>le_index = last_log_index + 1, le_term = rf_current_term r, le_type = kNoOp, le_data = []\<rparr>
      in save env (r\<lparr>rf_role := kLeader, rf_leader_id := self, rf_next_index := nexts, rf_match_index := matches,
                     rf_log := rf_log r @ [noop]\<rparr>))"

subsection \<open>Client interface\<close>

definition Raft_Propose :: "Env \<Rightarrow> 'sm Raft \<Rightarrow> bytes \<Rightarrow> int \<times> 'sm Raft" where
  "Raft_Propose env r data =
     (if rf_role r \<noteq> kLeader then (- 1, r)
      else let e = \<lparr>le_index = Raft_GetLastLogIndex r + 1, le_term = rf_current_term r, le_type = kCommand, le_data = data\<rparr>
           in (sint (le_index e), save env (r\<lparr>rf_log := rf_log r @ [e]\<rparr>)))"

definition Raft_GetRole :: "'sm Raft \<Rightarrow> RaftRole" where "Raft_GetRole r = rf_role r"
definition Raft_GetLeaderId :: "'sm Raft \<Rightarrow> u64" where "Raft_GetLeaderId r = rf_leader_id r"
definition Raft_GetCurrentTerm :: "'sm Raft \<Rightarrow> u64" where "Raft_GetCurrentTerm r = rf_current_term r"

definition Raft_GetLeaderAddr :: "'sm Raft \<Rightarrow> string" where
  "Raft_GetLeaderAddr r =
     (let lid = rf_leader_id r
      in if lid = 0 \<or> lid = ro_node_id (rf_opts r) then ''''
         else case find (\<lambda>p. pr_id p = lid) (ro_peers (rf_opts r)) of
                None \<Rightarrow> ''''
              | Some p \<Rightarrow> pr_host p @ '':'' @ to_string (pr_port p))"

text \<open>\<open>ProposeSync\<close> with a result: the index is read, a slot is registered under it, the command is
  proposed, and the call waits. What the other threads do to the node between the first three critical
  sections, until the wait for the commit index ends and until the wait for the slot ends are the
  functions \<open>w0\<close>, \<open>w1\<close>, \<open>w2\<close> and \<open>w3\<close>. The result is whether the command counts as committed
  and the response.\<close>

definition Raft_ProposeSync ::
  "Env \<Rightarrow> ('sm Raft \<Rightarrow> 'sm Raft) \<Rightarrow> ('sm Raft \<Rightarrow> 'sm Raft) \<Rightarrow> ('sm Raft \<Rightarrow> 'sm Raft) \<Rightarrow> ('sm Raft \<Rightarrow> 'sm Raft)
   \<Rightarrow> 'sm Raft \<Rightarrow> bytes \<Rightarrow> (bool \<times> bytes option) \<times> 'sm Raft" where
  "Raft_ProposeSync env w0 w1 w2 w3 r data =
     (let propose_idx = Raft_GetLastLogIndex r + 1;
          r = w0 r;
          slot = length (rf_slots r);
          r = w1 (r\<lparr>rf_slots := rf_slots r @ [None], rf_pending_results := (rf_pending_results r)(propose_idx \<mapsto> slot)\<rparr>);
          (idx, r) = Raft_Propose env r data
      in if idx < 0 then ((False, None), r\<lparr>rf_pending_results := (rf_pending_results r)(propose_idx := None)\<rparr>)
         else let r = w2 r;
                  committed = (propose_idx \<le> rf_commit_index r);
                  r = (if committed \<and> rf_pending_results r propose_idx \<noteq> None then w3 r else r);
                  r = r\<lparr>rf_pending_results := (rf_pending_results r)(propose_idx := None)\<rparr>
              in ((committed, if committed then rf_slots r ! slot else None), r))"

subsection \<open>Elections\<close>

definition voter_count :: "RaftPeer list \<Rightarrow> nat" where
  "voter_count ps = length (filter pr_is_voter ps)"

text \<open>The loop over the peers. \<open>rpc\<close> sends a request and returns the response and the node as it is
  when the mutex is taken again.\<close>

type_synonym 'sm vote_rpc = "u64 \<Rightarrow> RequestVoteRequest \<Rightarrow> 'sm Raft \<Rightarrow> RequestVoteResponse \<times> 'sm Raft"

fun election_loop ::
  "Env \<Rightarrow> 'sm vote_rpc \<Rightarrow> RequestVoteRequest \<Rightarrow> nat \<Rightarrow> RaftPeer list \<Rightarrow> nat \<Rightarrow> 'sm Raft \<Rightarrow> 'sm Raft" where
  "election_loop env rpc req majority [] votes r =
     (if majority \<le> votes then Raft_BecomeLeader env r else r)"
| "election_loop env rpc req majority (p # ps) votes r =
     (if pr_id p = ro_node_id (rf_opts r) \<or> \<not> pr_is_voter p then election_loop env rpc req majority ps votes r
      else let (resp, r) = rpc (pr_id p) req r
           in if rf_role r \<noteq> kCandidate \<or> rf_current_term r \<noteq> rv_term req then r
              else if rf_current_term r < vr_term resp then Raft_BecomeFollower env r (vr_term resp)
              else if vr_vote_granted resp
              then (if majority \<le> votes + 1 then Raft_BecomeLeader env r
                    else election_loop env rpc req majority ps (votes + 1) r)
              else election_loop env rpc req majority ps votes r)"

definition Raft_StartElection :: "Env \<Rightarrow> 'sm vote_rpc \<Rightarrow> 'sm Raft \<Rightarrow> 'sm Raft" where
  "Raft_StartElection env rpc r =
     (let req = \<lparr>rv_term = rf_current_term r, rv_candidate_id = ro_node_id (rf_opts r),
                 rv_last_log_index = Raft_GetLastLogIndex r, rv_last_log_term = Raft_GetLastLogTerm r\<rparr>;
          majority = voter_count (ro_peers (rf_opts r)) div 2 + 1
      in election_loop env rpc req majority (ro_peers (rf_opts r)) 1 r)"

definition Raft_HandleElectionTimeout :: "Env \<Rightarrow> 'sm vote_rpc \<Rightarrow> 'sm Raft \<Rightarrow> 'sm Raft" where
  "Raft_HandleElectionTimeout env rpc r = Raft_StartElection env rpc (Raft_BecomeCandidate env r)"

subsection \<open>Application of committed entries\<close>

lemma unat_Suc_less: "a < b \<Longrightarrow> unat (a + 1) = Suc (unat a)" for a b :: u64
  by unat_arith

function Raft_ApplyCommitted :: "'sm RaftStateMachine \<Rightarrow> 'sm Raft \<Rightarrow> 'sm Raft" where
  "Raft_ApplyCommitted sm r =
     (if rf_last_applied r < rf_commit_index r
      then let n = rf_last_applied r + 1
           in case Raft_LogPos r n of
                None \<Rightarrow> Raft_ApplyCommitted sm (r\<lparr>rf_last_applied := n\<rparr>)
              | Some pos \<Rightarrow>
                  let e = rf_log r ! pos
                  in if le_type e = kCommand
                     then let (res, st) = sm_Apply sm (le_data e) (rf_sm r);
                              slots = (case rf_pending_results r n of
                                         None \<Rightarrow> rf_slots r
                                       | Some a \<Rightarrow> if rf_slots r ! a = None then (rf_slots r)[a := Some res] else rf_slots r)
                          in Raft_ApplyCommitted sm (r\<lparr>rf_last_applied := n, rf_sm := st, rf_slots := slots\<rparr>)
                     else Raft_ApplyCommitted sm (r\<lparr>rf_last_applied := n\<rparr>)
      else r)"
  by pat_completeness auto

termination
proof (relation "measure (\<lambda>(sm, r). unat (rf_commit_index r) - unat (rf_last_applied r))")
  show "wf (measure (\<lambda>(sm :: 'sm RaftStateMachine, r :: 'sm Raft). unat (rf_commit_index r) - unat (rf_last_applied r)))" by simp
qed (auto simp: unat_Suc_less word_less_nat_alt)

declare Raft_ApplyCommitted.simps [simp del]

subsection \<open>Handlers of requests\<close>

text \<open>The first index of the conflicting term: from position \<open>scan\<close> down, not below the base.\<close>

fun conflict_scan :: "RaftLogEntry list \<Rightarrow> u64 \<Rightarrow> u64 \<Rightarrow> nat \<Rightarrow> u64 \<Rightarrow> u64" where
  "conflict_scan log tm base 0 conflict_index = conflict_index"
| "conflict_scan log tm base (Suc scan) conflict_index =
     (if base < conflict_index \<and> le_term (log ! scan) = tm
      then conflict_scan log tm base scan (conflict_index - 1) else conflict_index)"

text \<open>The loop over the new entries; the result says whether all were taken.\<close>

fun append_loop :: "RaftLogEntry list \<Rightarrow> 'sm Raft \<Rightarrow> bool \<times> 'sm Raft" where
  "append_loop [] r = (True, r)"
| "append_loop (e # es) r =
     (case Raft_LogPos r (le_index e) of
        Some pos \<Rightarrow>
          if le_term (rf_log r ! pos) = le_term e then append_loop es r
          else let r = r\<lparr>rf_log := take pos (rf_log r)\<rparr>
               in if le_index e \<noteq> rf_log_base r + word_of_nat (length (rf_log r)) then (False, r)
                  else append_loop es (r\<lparr>rf_log := rf_log r @ [e]\<rparr>)
      | None \<Rightarrow>
          if le_index e \<noteq> rf_log_base r + word_of_nat (length (rf_log r)) then (False, r)
          else append_loop es (r\<lparr>rf_log := rf_log r @ [e]\<rparr>))"

definition Raft_HandleAppendEntries ::
  "Env \<Rightarrow> 'sm RaftStateMachine \<Rightarrow> 'sm Raft \<Rightarrow> AppendEntriesRequest \<Rightarrow> AppendEntriesResponse \<times> 'sm Raft" where
  "Raft_HandleAppendEntries env sm r req =
     (let resp = \<lparr>ar_term = rf_current_term r, ar_success = False, ar_conflict_term = 0, ar_conflict_index = 0\<rparr>
      in if ae_term req < rf_current_term r then (resp, r)
         else
           let r = (Raft_BecomeFollower env r (ae_term req))\<lparr>rf_leader_id := ae_leader_id req\<rparr>;
               prev = ae_prev_log_index req
           in if prev < rf_last_snapshot_index r then (resp\<lparr>ar_conflict_index := rf_last_snapshot_index r + 1\<rparr>, r)
              else if 0 < prev \<and> Raft_LogPos r prev = None then (resp\<lparr>ar_conflict_index := Raft_LastLogIndex r + 1\<rparr>, r)
              else if 0 < prev \<and> le_term (rf_log r ! the (Raft_LogPos r prev)) \<noteq> ae_prev_log_term req
              then let pos = the (Raft_LogPos r prev); tm = le_term (rf_log r ! pos)
                   in (resp\<lparr>ar_conflict_term := tm,
                            ar_conflict_index := conflict_scan (rf_log r) tm (rf_log_base r) pos prev\<rparr>, r)
              else
                let (taken, r) = append_loop (ae_entries req) r
                in if \<not> taken
                   then (resp\<lparr>ar_conflict_index := rf_log_base r + word_of_nat (length (rf_log r))\<rparr>, r)
                   else
                     let r = (if ae_entries req \<noteq> [] then save env r else r);
                         r = (if rf_commit_index r < ae_leader_commit req
                              then Raft_ApplyCommitted sm
                                     (r\<lparr>rf_commit_index := min (ae_leader_commit req) (Raft_GetLastLogIndex r)\<rparr>)
                              else r)
                     in (resp\<lparr>ar_term := rf_current_term r, ar_success := True\<rparr>, r))"

definition Raft_HandleRequestVote :: "Env \<Rightarrow> 'sm Raft \<Rightarrow> RequestVoteRequest \<Rightarrow> RequestVoteResponse \<times> 'sm Raft" where
  "Raft_HandleRequestVote env r req =
     (let resp = \<lparr>vr_term = rf_current_term r, vr_vote_granted = False\<rparr>
      in if rv_term req < rf_current_term r then (resp, r)
         else
           let r = (if rf_current_term r < rv_term req then Raft_BecomeFollower env r (rv_term req) else r)
           in if rf_voted_for r \<noteq> 0 \<and> rf_voted_for r \<noteq> rv_candidate_id req then (resp, r)
              else
                let last_log_index = Raft_GetLastLogIndex r;
                    last_log_term = Raft_GetLastLogTerm r;
                    log_up_to_date = (last_log_term < rv_last_log_term req
                      \<or> rv_last_log_term req = last_log_term \<and> last_log_index \<le> rv_last_log_index req)
                in if \<not> log_up_to_date then (resp, r)
                   else (resp\<lparr>vr_vote_granted := True\<rparr>, save env (r\<lparr>rf_voted_for := rv_candidate_id req\<rparr>)))"

definition Raft_CommitInstalledSnapshot :: "Env \<Rightarrow> 'sm Raft \<Rightarrow> u64 \<Rightarrow> u64 \<Rightarrow> bytes \<Rightarrow> 'sm Raft" where
  "Raft_CommitInstalledSnapshot env r cut_index cut_term data =
     (let r = r\<lparr>rf_log := [\<lparr>le_index = cut_index, le_term = cut_term, le_type = kNoOp, le_data = []\<rparr>],
                rf_log_base := cut_index, rf_commit_index := cut_index, rf_last_applied := cut_index,
                rf_last_snapshot_index := cut_index, rf_last_snapshot_term := cut_term, rf_snapshot_data := data\<rparr>
      in save env (snd (Raft_SaveSnapshotData env r)))"

definition Raft_HandleInstallSnapshot ::
  "Env \<Rightarrow> 'sm RaftStateMachine \<Rightarrow> 'sm Raft \<Rightarrow> InstallSnapshotRequest \<Rightarrow> InstallSnapshotResponse \<times> 'sm Raft" where
  "Raft_HandleInstallSnapshot env sm r req =
     (let resp = \<lparr>ir_term = rf_current_term r, ir_success = False\<rparr>
      in if is_term req < rf_current_term r then (resp, r)
         else
           let r = (if rf_current_term r < is_term req then Raft_BecomeFollower env r (is_term req) else r);
               r = r\<lparr>rf_leader_id := is_leader_id req\<rparr>
           in if is_data req = [] then (resp, r)
              else if is_last_included_index req \<le> rf_last_applied r then (resp\<lparr>ir_success := True\<rparr>, r)
              else let (s, st) = sm_ApplySnapshot sm (is_data req) (rf_sm r); r = r\<lparr>rf_sm := st\<rparr>
                   in if \<not> ok s then (resp, r)
                      else (resp\<lparr>ir_success := True\<rparr>,
                            Raft_CommitInstalledSnapshot env r (is_last_included_index req) (is_last_included_term req) (is_data req)))"

definition Raft_HandleInstallSnapshotChunk ::
  "Env \<Rightarrow> 'sm RaftStateMachine \<Rightarrow> 'sm Raft \<Rightarrow> InstallSnapshotChunkRequest \<Rightarrow> InstallSnapshotChunkResponse \<times> 'sm Raft" where
  "Raft_HandleInstallSnapshotChunk env sm r req =
     (let resp = \<lparr>cr_term = rf_current_term r, cr_accepted_len = 0, cr_complete = False, cr_rejected = True\<rparr>
      in if ic_term req < rf_current_term r then (resp, r)
         else
           let r = (if rf_current_term r < ic_term req then Raft_BecomeFollower env r (ic_term req) else r);
               resp = resp\<lparr>cr_term := rf_current_term r\<rparr>
           in if ic_data req = [] then (resp, r)
              else if ic_total_size req = 0 \<or> ro_max_snapshot_size (rf_opts r) < ic_total_size req then (resp, r)
              else if ic_total_size req < ic_chunk_offset req + word_of_nat (length (ic_data req)) then (resp, r)
              else
                let sg = rf_snapshot_staging r;
                    identity_changed = (sg_active sg \<and> (sg_last_included_index sg \<noteq> ic_last_included_index req
                      \<or> sg_last_included_term sg \<noteq> ic_last_included_term req \<or> sg_expected_size sg \<noteq> ic_total_size req));
                    sg = (if identity_changed then SnapshotStaging_new else sg)
                in if word_of_nat (length (sg_buffer sg)) < ic_chunk_offset req
                   then (resp, r\<lparr>rf_snapshot_staging := SnapshotStaging_new\<rparr>)
                   else
                     let sg = sg\<lparr>sg_buffer := take (unat (ic_chunk_offset req)) (sg_buffer sg)\<rparr>;
                         sg = (if \<not> sg_active sg
                               then sg\<lparr>sg_active := True, sg_term := ic_term req, sg_leader_id := ic_leader_id req,
                                       sg_last_included_index := ic_last_included_index req,
                                       sg_last_included_term := ic_last_included_term req,
                                       sg_expected_size := ic_total_size req\<rparr>
                               else sg);
                         sg = sg\<lparr>sg_buffer := sg_buffer sg @ ic_data req\<rparr>;
                         resp = resp\<lparr>cr_accepted_len := word_of_nat (length (sg_buffer sg))\<rparr>
                     in if word_of_nat (length (sg_buffer sg)) < ic_total_size req
                        then (resp\<lparr>cr_rejected := False\<rparr>, r\<lparr>rf_snapshot_staging := sg\<rparr>)
                        else
                          let full = sg_buffer sg;
                              r = r\<lparr>rf_snapshot_staging := SnapshotStaging_new, rf_leader_id := ic_leader_id req\<rparr>;
                              (s, st) = sm_ApplySnapshot sm full (rf_sm r);
                              r = r\<lparr>rf_sm := st\<rparr>
                          in if \<not> ok s then (resp, r)
                             else (resp\<lparr>cr_complete := True, cr_rejected := False\<rparr>,
                                   Raft_CommitInstalledSnapshot env r (ic_last_included_index req) (ic_last_included_term req) full))"

subsection \<open>Commitment\<close>

definition replicated_count :: "'sm Raft \<Rightarrow> u64 \<Rightarrow> nat" where
  "replicated_count r n =
     1 + length (filter (\<lambda>i. pr_id (ro_peers (rf_opts r) ! i) \<noteq> ro_node_id (rf_opts r)
                             \<and> pr_is_voter (ro_peers (rf_opts r) ! i) \<and> n \<le> rf_match_index r ! i)
                   [0..<length (ro_peers (rf_opts r))])"

definition commit_majority :: "'sm Raft \<Rightarrow> nat" where
  "commit_majority r =
     (let ps = filter pr_is_voter (ro_peers (rf_opts r));
          voters = length ps;
          voters = (if ro_node_id (rf_opts r) \<in> pr_id ` set ps then voters else voters + 1);
          voters = (if voters = 0 then 1 else voters)
      in voters div 2 + 1)"

text \<open>The loop over \<open>n\<close> from the first index that is not committed.\<close>

fun commit_loop :: "u64 list \<Rightarrow> 'sm Raft \<Rightarrow> 'sm Raft" where
  "commit_loop [] r = r"
| "commit_loop (n # ns) r =
     (case Raft_LogPos r n of
        None \<Rightarrow> commit_loop ns r
      | Some pos \<Rightarrow>
          if le_term (rf_log r ! pos) \<noteq> rf_current_term r then commit_loop ns r
          else if commit_majority r \<le> replicated_count r n then commit_loop ns (r\<lparr>rf_commit_index := n\<rparr>)
          else r)"

definition Raft_AdvanceCommitIndex :: "'sm RaftStateMachine \<Rightarrow> 'sm Raft \<Rightarrow> 'sm Raft" where
  "Raft_AdvanceCommitIndex sm r =
     (if rf_role r \<noteq> kLeader then r
      else let ns = map word_of_nat [Suc (unat (rf_commit_index r))..<Suc (unat (Raft_GetLastLogIndex r))]
           in Raft_ApplyCommitted sm (commit_loop ns r))"

subsection \<open>Snapshots\<close>

definition Raft_CompactLog :: "'sm Raft \<Rightarrow> u64 \<Rightarrow> 'sm Raft" where
  "Raft_CompactLog r snap_index =
     (case Raft_LogPos r snap_index of
        None \<Rightarrow> r
      | Some pos \<Rightarrow> if snap_index = 0 then r
                    else r\<lparr>rf_log := [rf_log r ! pos], rf_log_base := snap_index\<rparr>)"

definition Raft_TriggerSnapshot :: "Env \<Rightarrow> 'sm RaftStateMachine \<Rightarrow> 'sm Raft \<Rightarrow> bool \<times> 'sm Raft" where
  "Raft_TriggerSnapshot env sm r =
     (if rf_last_applied r = 0 then (False, r)
      else if rf_last_applied r \<le> rf_last_snapshot_index r then (True, r)
      else
        let snap_index = rf_last_applied r;
            snap_term = le_term (Raft_GetLogEntry r snap_index);
            snap_data = sm_TakeSnapshot sm (rf_sm r)
        in if snap_data = [] then (False, r)
           else
             let (persisted, r') = Raft_SaveSnapshotData env
                   (r\<lparr>rf_last_snapshot_index := snap_index, rf_last_snapshot_term := snap_term, rf_snapshot_data := snap_data\<rparr>)
             in if \<not> ok persisted
                then (False, r'\<lparr>rf_last_snapshot_index := rf_last_snapshot_index r,
                                rf_last_snapshot_term := rf_last_snapshot_term r, rf_snapshot_data := rf_snapshot_data r\<rparr>)
                else (True, save env (Raft_CompactLog r' snap_index)))"

definition Raft_CheckAndCompactLog :: "Env \<Rightarrow> 'sm RaftStateMachine \<Rightarrow> 'sm Raft \<Rightarrow> 'sm Raft" where
  "Raft_CheckAndCompactLog env sm r =
     (if rf_role r \<noteq> kLeader then r
      else if rf_snapshot_threshold r < Raft_LiveLogSize r then snd (Raft_TriggerSnapshot env sm r)
      else r)"

definition Raft_GetSnapshotData :: "'sm Raft \<Rightarrow> bytes" where "Raft_GetSnapshotData r = rf_snapshot_data r"

text \<open>The position of a peer in the peer list.\<close>

fun peer_position :: "RaftPeer list \<Rightarrow> u64 \<Rightarrow> nat \<Rightarrow> nat option" where
  "peer_position [] pid i = None"
| "peer_position (p # ps) pid i = (if pr_id p = pid then Some i else peer_position ps pid (i + 1))"

definition snapshot_installed :: "'sm Raft \<Rightarrow> u64 \<Rightarrow> u64 \<Rightarrow> 'sm Raft" where
  "snapshot_installed r follower_id snap_index =
     (let r = r\<lparr>rf_snapshot_sends := (rf_snapshot_sends r)(follower_id := None)\<rparr>
      in case peer_position (ro_peers (rf_opts r)) follower_id 0 of
           None \<Rightarrow> r
         | Some i \<Rightarrow> r\<lparr>rf_next_index := (rf_next_index r)[i := snap_index + 1],
                        rf_match_index := (rf_match_index r)[i := snap_index]\<rparr>)"

type_synonym 'sm snapshot_rpc = "u64 \<Rightarrow> InstallSnapshotRequest \<Rightarrow> 'sm Raft \<Rightarrow> InstallSnapshotResponse \<times> 'sm Raft"
type_synonym 'sm chunk_rpc = "u64 \<Rightarrow> InstallSnapshotChunkRequest \<Rightarrow> 'sm Raft \<Rightarrow> InstallSnapshotChunkResponse \<times> 'sm Raft"

text \<open>The progress of a transfer, started over when it is for another snapshot.\<close>

definition send_state :: "'sm Raft \<Rightarrow> u64 \<Rightarrow> u64 \<Rightarrow> u64 \<Rightarrow> u64 \<Rightarrow> SnapshotSendState" where
  "send_state r follower_id snap_index snap_term total_size =
     (let st = (case rf_snapshot_sends r follower_id of
                  None \<Rightarrow> \<lparr>ss_last_included_index = 0, ss_last_included_term = 0, ss_total_size = 0, ss_sent = 0\<rparr>
                | Some st \<Rightarrow> st)
      in if ss_last_included_index st \<noteq> snap_index \<or> ss_last_included_term st \<noteq> snap_term \<or> ss_total_size st \<noteq> total_size
         then \<lparr>ss_last_included_index = snap_index, ss_last_included_term = snap_term, ss_total_size = total_size, ss_sent = 0\<rparr>
         else st)"

partial_function (option) send_chunks ::
  "Env \<Rightarrow> 'sm chunk_rpc \<Rightarrow> u64 \<Rightarrow> u64 \<Rightarrow> u64 \<Rightarrow> u64 \<Rightarrow> bytes \<Rightarrow> nat \<Rightarrow> 'sm Raft \<Rightarrow> 'sm Raft option" where
  "send_chunks env rpc follower_id tm snap_index snap_term data budget r =
     (if rf_role r \<noteq> kLeader then Some r
      else if rf_current_term r \<noteq> tm then Some r
      else
        let total_size = word_of_nat (length data);
            st = send_state r follower_id snap_index snap_term total_size;
            r = r\<lparr>rf_snapshot_sends := (rf_snapshot_sends r)(follower_id \<mapsto> st)\<rparr>;
            sent = ss_sent st
        in if total_size \<le> sent then Some (snapshot_installed r follower_id snap_index)
           else
             let take_len = min (ro_snapshot_chunk_size (rf_opts r)) (unat (total_size - sent));
                 req = \<lparr>ic_term = tm, ic_leader_id = ro_node_id (rf_opts r), ic_last_included_index = snap_index,
                        ic_last_included_term = snap_term, ic_chunk_offset = sent, ic_total_size = total_size,
                        ic_is_last = (total_size \<le> sent + word_of_nat take_len),
                        ic_data = take take_len (drop (unat sent) data)\<rparr>;
                 (resp, r) = rpc follower_id req r
             in if rf_role r \<noteq> kLeader then Some r
                else if rf_current_term r < cr_term resp then Some (Raft_BecomeFollower env r (cr_term resp))
                else if cr_rejected resp then Some (r\<lparr>rf_snapshot_sends := (rf_snapshot_sends r)(follower_id := None)\<rparr>)
                else if cr_accepted_len resp \<le> sent
                then Some (if cr_accepted_len resp < sent
                           then r\<lparr>rf_snapshot_sends := (rf_snapshot_sends r)(follower_id := None)\<rparr> else r)
                else
                  let st = (case rf_snapshot_sends r follower_id of
                              None \<Rightarrow> \<lparr>ss_last_included_index = 0, ss_last_included_term = 0, ss_total_size = 0, ss_sent = 0\<rparr>
                            | Some st \<Rightarrow> st);
                      r = r\<lparr>rf_snapshot_sends := (rf_snapshot_sends r)(follower_id \<mapsto> st\<lparr>ss_sent := cr_accepted_len resp\<rparr>)\<rparr>
                  in if budget \<le> take_len then Some r
                     else send_chunks env rpc follower_id tm snap_index snap_term data (budget - take_len) r)"

definition Raft_SendSnapshotToFollower ::
  "Env \<Rightarrow> 'sm snapshot_rpc \<Rightarrow> 'sm chunk_rpc \<Rightarrow> u64 \<Rightarrow> 'sm Raft \<Rightarrow> 'sm Raft option" where
  "Raft_SendSnapshotToFollower env rpc chunk_rpc follower_id r =
     (let data = rf_snapshot_data r; snap_index = rf_last_snapshot_index r; snap_term = rf_last_snapshot_term r
      in if rf_role r \<noteq> kLeader then Some r
         else if data = [] then Some r
         else if length data \<le> ro_snapshot_chunk_size (rf_opts r)
         then
           let req = \<lparr>is_term = rf_current_term r, is_leader_id = ro_node_id (rf_opts r), is_last_included_index = snap_index,
                      is_last_included_term = snap_term, is_data = data\<rparr>;
               (resp, r) = rpc follower_id req r
           in if rf_role r \<noteq> kLeader then Some r
              else if rf_current_term r < ir_term resp then Some (Raft_BecomeFollower env r (ir_term resp))
              else if \<not> ir_success resp then Some r
              else Some (snapshot_installed r follower_id snap_index)
         else
           let budget = ro_snapshot_send_budget (rf_opts r);
               budget = (if budget = 0 then ro_snapshot_chunk_size (rf_opts r) else budget)
           in send_chunks env chunk_rpc follower_id (rf_current_term r) snap_index snap_term data budget r)"

subsection \<open>Replication\<close>

type_synonym 'sm append_rpc = "u64 \<Rightarrow> AppendEntriesRequest \<Rightarrow> 'sm Raft \<Rightarrow> AppendEntriesResponse \<times> 'sm Raft"

text \<open>The last entry of the conflicting term in the leader's log, 0 if there is none.\<close>

fun conflict_last :: "RaftLogEntry list \<Rightarrow> u64 \<Rightarrow> u64 \<Rightarrow> u64 \<Rightarrow> u64" where
  "conflict_last [] pos tm found = found"
| "conflict_last (e # es) pos tm found =
     (if le_term e = tm then conflict_last es (pos + 1) tm pos
      else if tm < le_term e then found
      else conflict_last es (pos + 1) tm found)"

definition back_off :: "'sm Raft \<Rightarrow> nat \<Rightarrow> AppendEntriesResponse \<Rightarrow> u64" where
  "back_off r i resp =
     (if 0 < ar_conflict_term resp
      then let conflict_last_idx = conflict_last (rf_log r) (rf_log_base r) (ar_conflict_term resp) 0
           in if 0 < conflict_last_idx then conflict_last_idx + 1 else ar_conflict_index resp
      else if 0 < ar_conflict_index resp then ar_conflict_index resp
      else if 1 < rf_next_index r ! i then rf_next_index r ! i - 1
      else rf_next_index r ! i)"

definition append_request :: "'sm Raft \<Rightarrow> bool \<Rightarrow> u64 \<Rightarrow> u64 \<Rightarrow> u64 \<Rightarrow> AppendEntriesRequest" where
  "append_request r is_heartbeat leader_commit current_term next_idx =
     \<lparr>ae_term = current_term, ae_leader_id = ro_node_id (rf_opts r), ae_prev_log_index = next_idx - 1,
      ae_prev_log_term = Raft_GetTermForIndex r (next_idx - 1),
      ae_entries = (case Raft_LogPos r next_idx of
          None \<Rightarrow> []
        | Some first_pos \<Rightarrow> if is_heartbeat then []
            else take (ro_max_log_entries_per_append (rf_opts r)) (drop first_pos (rf_log r))),
      ae_leader_commit = leader_commit\<rparr>"

fun replicate_loop ::
  "Env \<Rightarrow> 'sm append_rpc \<Rightarrow> 'sm snapshot_rpc \<Rightarrow> 'sm chunk_rpc \<Rightarrow> bool \<Rightarrow> u64 \<Rightarrow> u64 \<Rightarrow> nat list \<Rightarrow> 'sm Raft \<Rightarrow> 'sm Raft option" where
  "replicate_loop env rpc srpc crpc is_heartbeat leader_commit current_term [] r = Some r"
| "replicate_loop env rpc srpc crpc is_heartbeat leader_commit current_term (i # is) r =
     (let p = ro_peers (rf_opts r) ! i
      in if pr_id p = ro_node_id (rf_opts r) \<or> \<not> pr_is_voter p
         then replicate_loop env rpc srpc crpc is_heartbeat leader_commit current_term is r
         else if rf_next_index r ! i \<le> rf_last_snapshot_index r
         then do {
           r \<leftarrow> Raft_SendSnapshotToFollower env srpc crpc (pr_id p) r;
           if rf_role r \<noteq> kLeader \<or> rf_current_term r \<noteq> current_term then Some r
           else replicate_loop env rpc srpc crpc is_heartbeat leader_commit current_term is r
         }
         else
           let req = append_request r is_heartbeat leader_commit current_term (rf_next_index r ! i);
               (resp, r) = rpc (pr_id p) req r
           in if rf_role r \<noteq> kLeader \<or> rf_current_term r \<noteq> current_term then Some r
              else if rf_current_term r < ar_term resp then Some (Raft_BecomeFollower env r (ar_term resp))
              else
                let r = (if ar_success resp
                         then (if ae_entries req = [] then r
                               else r\<lparr>rf_next_index := (rf_next_index r)[i := le_index (last (ae_entries req)) + 1],
                                      rf_match_index := (rf_match_index r)[i := le_index (last (ae_entries req))]\<rparr>)
                         else r\<lparr>rf_next_index := (rf_next_index r)[i := back_off r i resp]\<rparr>)
                in replicate_loop env rpc srpc crpc is_heartbeat leader_commit current_term is r)"

definition Raft_ReplicateLog ::
  "Env \<Rightarrow> 'sm RaftStateMachine \<Rightarrow> 'sm append_rpc \<Rightarrow> 'sm snapshot_rpc \<Rightarrow> 'sm chunk_rpc \<Rightarrow> bool \<Rightarrow> 'sm Raft \<Rightarrow> 'sm Raft option" where
  "Raft_ReplicateLog env sm rpc srpc crpc is_heartbeat r =
     (if rf_role r \<noteq> kLeader then Some r
      else do {
        r \<leftarrow> replicate_loop env rpc srpc crpc is_heartbeat (rf_commit_index r) (rf_current_term r)
               [0..<length (ro_peers (rf_opts r))] r;
        Some (Raft_AdvanceCommitIndex sm r)
      })"

definition Raft_SendHeartbeat ::
  "Env \<Rightarrow> 'sm RaftStateMachine \<Rightarrow> 'sm append_rpc \<Rightarrow> 'sm snapshot_rpc \<Rightarrow> 'sm chunk_rpc \<Rightarrow> 'sm Raft \<Rightarrow> 'sm Raft option" where
  "Raft_SendHeartbeat env sm rpc srpc crpc r = Raft_ReplicateLog env sm rpc srpc crpc True r"

subsection \<open>Membership\<close>

definition IsJointConsensus :: "RaftConfiguration \<Rightarrow> bool" where
  "IsJointConsensus c \<longleftrightarrow> rc_new_voters c \<noteq> {}"

definition IsVoter :: "RaftConfiguration \<Rightarrow> u64 \<Rightarrow> bool" where
  "IsVoter c node_id \<longleftrightarrow> node_id \<in> rc_voters c \<or> rc_new_voters c \<noteq> {} \<and> node_id \<in> rc_new_voters c"

definition GetVoterCount :: "RaftConfiguration \<Rightarrow> nat" where
  "GetVoterCount c = (if rc_new_voters c = {} then card (rc_voters c) else card (rc_voters c \<union> rc_new_voters c))"

definition RaftConfiguration_IsMajority :: "RaftConfiguration \<Rightarrow> u32 \<Rightarrow> bool" where
  "RaftConfiguration_IsMajority c votes \<longleftrightarrow>
     (if rc_new_voters c = {} then card (rc_voters c) div 2 < unat votes else GetVoterCount c div 2 < unat votes)"

definition Raft_GetConfiguration :: "'sm Raft \<Rightarrow> RaftConfiguration" where
  "Raft_GetConfiguration r = rf_configuration r"

definition Raft_IsMajority :: "'sm Raft \<Rightarrow> int \<Rightarrow> bool" where
  "Raft_IsMajority r count \<longleftrightarrow>
     (if IsJointConsensus (rf_configuration r) then RaftConfiguration_IsMajority (rf_configuration r) (word_of_int count)
      else int (voter_count (ro_peers (rf_opts r)) div 2) < count)"

definition conf_change :: "Env \<Rightarrow> 'sm Raft \<Rightarrow> string \<Rightarrow> u64 \<Rightarrow> bool \<times> 'sm Raft" where
  "conf_change env r op peer_node_id =
     (if rf_role r \<noteq> kLeader then (False, r)
      else let e = \<lparr>le_index = Raft_GetLastLogIndex r + 1, le_term = rf_current_term r, le_type = kConfChange,
                    le_data = bytes_of (op @ ''|'' @ to_string (unat peer_node_id))\<rparr>
           in (True, save env (r\<lparr>rf_log := rf_log r @ [e]\<rparr>)))"

definition Raft_AddPeer :: "Env \<Rightarrow> 'sm Raft \<Rightarrow> u64 \<Rightarrow> bool \<times> 'sm Raft" where
  "Raft_AddPeer env r peer_node_id = conf_change env r ''ADD'' peer_node_id"

definition Raft_RemovePeer :: "Env \<Rightarrow> 'sm Raft \<Rightarrow> u64 \<Rightarrow> bool \<times> 'sm Raft" where
  "Raft_RemovePeer env r peer_node_id = conf_change env r ''REM'' peer_node_id"

subsection \<open>Lifecycle and statistics\<close>

definition Raft_Stop :: "Env \<Rightarrow> 'sm Raft \<Rightarrow> 'sm Raft" where
  "Raft_Stop env r = (if rf_initialized r then save env r else r)"

record RaftStats =
  st_current_term :: u64
  st_commit_index :: u64
  st_last_applied :: u64
  st_log_count :: u64
  st_role :: RaftRole
  st_leader_id :: u64

definition Raft_GetStats :: "'sm Raft \<Rightarrow> RaftStats" where
  "Raft_GetStats r = \<lparr>st_current_term = rf_current_term r, st_commit_index = rf_commit_index r,
     st_last_applied = rf_last_applied r, st_log_count = word_of_nat (Raft_LiveLogSize r), st_role = rf_role r,
     st_leader_id = rf_leader_id r\<rparr>"

text \<open>\<open>std::stoull\<close>: white space, a sign, and at least one digit; \<open>None\<close> is an exception. Nothing
  calls \<open>ApplyConfigChange\<close>: a committed configuration entry changes nothing.\<close>

definition stoull :: "bytes \<Rightarrow> u64 option" where
  "stoull s =
     (let s = dropWhile (\<lambda>c. c = 32 \<or> 9 \<le> c \<and> c \<le> 13) s;
          negative = (s \<noteq> [] \<and> hd s = 45);
          s = (if s \<noteq> [] \<and> (hd s = 45 \<or> hd s = 43) then tl s else s);
          ds = takeWhile (\<lambda>c. 48 \<le> c \<and> c \<le> 57) s;
          v = foldl (\<lambda>a d. a * 10 + (unat d - 48)) 0 ds
      in if ds = [] then None else if 2 ^ 64 \<le> v then None
         else Some (if negative then - word_of_nat v else word_of_nat v))"

definition Raft_ApplyConfigChange :: "'sm Raft \<Rightarrow> bytes \<Rightarrow> 'sm Raft option" where
  "Raft_ApplyConfigChange r command =
     (if length command < 5 then Some r
      else do {
        node_id \<leftarrow> stoull (drop 4 command);
        let c = rf_configuration r;
        if take 3 command = bytes_of ''ADD''
        then Some (r\<lparr>rf_configuration := c\<lparr>rc_voters := insert node_id (rc_voters c)\<rparr>\<rparr>)
        else if take 3 command = bytes_of ''REM''
        then Some (r\<lparr>rf_configuration := c\<lparr>rc_voters := rc_voters c - {node_id}\<rparr>\<rparr>)
        else Some r
      })"

end
