(* ===== verification/Lkv_RaftSafety.thy ===== *)
theory Lkv_RaftSafety
  imports Lkv_Raft
begin

section \<open>The Raft engine: what it guarantees\<close>

text \<open>
  Lemmas on the definitions of \<open>Lkv_Raft\<close>, in this order: persistence; the positions of the log and the
  well-formedness invariant over every reachable node; log matching and what it gives for the state
  machines; quorums (a locale, interpreted on the majority that the code computes), commitment and
  elections; snapshot transfer; replication returns. The last part is a cluster of three nodes on
  which four executions of the code break what Raft promises: two leaders in one term, entries that
  compaction loses, a heartbeat that commits a stale entry, and a proposal that succeeds with the
  result of another one.
\<close>

subsection \<open>What a save leaves alone\<close>

lemma save_simps [simp]:
  "rf_opts (save env r) = rf_opts r" "rf_db_path (save env r) = rf_db_path r"
  "rf_current_term (save env r) = rf_current_term r" "rf_voted_for (save env r) = rf_voted_for r"
  "rf_log (save env r) = rf_log r" "rf_log_base (save env r) = rf_log_base r"
  "rf_commit_index (save env r) = rf_commit_index r" "rf_last_applied (save env r) = rf_last_applied r"
  "rf_next_index (save env r) = rf_next_index r" "rf_match_index (save env r) = rf_match_index r"
  "rf_role (save env r) = rf_role r" "rf_leader_id (save env r) = rf_leader_id r"
  "rf_slots (save env r) = rf_slots r" "rf_pending_results (save env r) = rf_pending_results r"
  "rf_last_snapshot_index (save env r) = rf_last_snapshot_index r"
  "rf_last_snapshot_term (save env r) = rf_last_snapshot_term r"
  "rf_snapshot_data (save env r) = rf_snapshot_data r" "rf_snapshot_staging (save env r) = rf_snapshot_staging r"
  "rf_snapshot_sends (save env r) = rf_snapshot_sends r" "rf_sm (save env r) = rf_sm r"
  by (auto simp: save_def Raft_SavePersistentState_def Let_def split: prod.splits)

lemma BecomeFollower_simps [simp]:
  "rf_opts (Raft_BecomeFollower env r t) = rf_opts r" "rf_current_term (Raft_BecomeFollower env r t) = t"
  "rf_voted_for (Raft_BecomeFollower env r t) = 0" "rf_role (Raft_BecomeFollower env r t) = kFollower"
  "rf_log (Raft_BecomeFollower env r t) = rf_log r" "rf_log_base (Raft_BecomeFollower env r t) = rf_log_base r"
  "rf_commit_index (Raft_BecomeFollower env r t) = rf_commit_index r"
  "rf_last_applied (Raft_BecomeFollower env r t) = rf_last_applied r"
  "rf_last_snapshot_index (Raft_BecomeFollower env r t) = rf_last_snapshot_index r"
  "rf_snapshot_staging (Raft_BecomeFollower env r t) = rf_snapshot_staging r"
  "rf_sm (Raft_BecomeFollower env r t) = rf_sm r" "rf_leader_id (Raft_BecomeFollower env r t) = rf_leader_id r"
  "rf_db_path (Raft_BecomeFollower env r t) = rf_db_path r" "rf_snapshot_data (Raft_BecomeFollower env r t) = rf_snapshot_data r"
  by (simp_all add: Raft_BecomeFollower_def)

text \<open>The functions that look at the log only.\<close>

lemma LogPos_cong: "rf_log r' = rf_log r \<Longrightarrow> rf_log_base r' = rf_log_base r \<Longrightarrow> Raft_LogPos r' = Raft_LogPos r"
  by (simp add: Raft_LogPos_def fun_eq_iff)

lemma LastLogIndex_cong: "rf_log r' = rf_log r \<Longrightarrow> rf_log_base r' = rf_log_base r \<Longrightarrow> Raft_LastLogIndex r' = Raft_LastLogIndex r"
  by (simp add: Raft_LastLogIndex_def)

subsection \<open>Persistence\<close>

definition raft_entry_bytes :: "RaftLogEntry \<Rightarrow> bytes" where
  "raft_entry_bytes e = le_bytes 4 (word_of_nat (length (RaftLogEntry_Serialize e)) :: u32) @ RaftLogEntry_Serialize e"

lemma put_entries_eq: "put_entries es buf = buf @ concat (map raft_entry_bytes es)"
  by (induction es arbitrary: buf) (simp_all add: raft_PutFixed32_def raft_entry_bytes_def Let_def)

lemma Serialize_eq:
  "RaftLogEntry_Serialize e = le_bytes 8 (le_index e) @ le_bytes 8 (le_term e) @ [le_type e]
     @ le_bytes 4 (word_of_nat (length (le_data e)) :: u32) @ le_data e"
  by (simp add: RaftLogEntry_Serialize_def raft_PutFixed64_def raft_PutFixed32_def Let_def)

lemma length_Serialize: "length (RaftLogEntry_Serialize e) = 21 + length (le_data e)"
  by (simp add: Serialize_eq)

lemma GetFixed_skip:
  "raft_GetFixed64 (le_bytes 8 v @ rest) 0 = Some (v, 8)" "raft_GetFixed32 (le_bytes 4 w @ rest) 0 = Some (w, 4)"
  "length pre = n \<Longrightarrow> raft_GetFixed64 (pre @ le_bytes 8 v @ rest) n = Some (v, n + 8)"
  "length pre = n \<Longrightarrow> raft_GetFixed32 (pre @ le_bytes 4 w @ rest) n = Some (w, n + 4)"
  by (simp_all add: raft_GetFixed64_def raft_GetFixed32_def)

lemma Deserialize_Serialize:
  assumes "length (le_data e) < 2 ^ 32"
  shows "RaftLogEntry_Deserialize (RaftLogEntry_Serialize e @ rest) = Some e"
proof -
  let ?n = "word_of_nat (length (le_data e)) :: u32"
  let ?i = "le_bytes 8 (le_index e)" and ?t = "le_bytes 8 (le_term e)"
  have s: "RaftLogEntry_Serialize e @ rest = ?i @ ?t @ [le_type e] @ le_bytes 4 ?n @ le_data e @ rest"
    by (simp add: Serialize_eq)
  have g1: "raft_GetFixed64 (RaftLogEntry_Serialize e @ rest) 0 = Some (le_index e, 8)"
    unfolding s by (rule GetFixed_skip(1))
  have g2: "raft_GetFixed64 (RaftLogEntry_Serialize e @ rest) 8 = Some (le_term e, 16)"
    unfolding s using GetFixed_skip(3) [of ?i 8 "le_term e" "[le_type e] @ le_bytes 4 ?n @ le_data e @ rest"] by simp
  have g3: "(RaftLogEntry_Serialize e @ rest) ! 16 = le_type e" "16 < length (RaftLogEntry_Serialize e @ rest)"
    unfolding s by (simp_all add: nth_append)
  have g4: "raft_GetFixed32 (RaftLogEntry_Serialize e @ rest) 17 = Some (?n, 21)"
    unfolding s using GetFixed_skip(4) [of "?i @ ?t @ [le_type e]" 17 ?n "le_data e @ rest"] by simp
  have g5: "drop 21 (RaftLogEntry_Serialize e @ rest) = le_data e @ rest"
    unfolding s by simp
  have n: "unat ?n = length (le_data e)" using assms by (rule unat_length_u32)
  have l: "21 + length (le_data e) \<le> length (RaftLogEntry_Serialize e @ rest)" by (simp add: length_Serialize)
  obtain B where B: "RaftLogEntry_Serialize e @ rest = B" by blast
  show ?thesis
    using g1 g2 g3 g4 g5 n l unfolding B RaftLogEntry_Deserialize_def by simp
qed

definition entry_fits :: "RaftLogEntry \<Rightarrow> bool" where
  "entry_fits e \<longleftrightarrow> length (le_data e) + 21 < 2 ^ 32"

lemma load_entries_put:
  assumes "\<And>e. e \<in> set es \<Longrightarrow> entry_fits e" and "length pre = off"
  shows "load_entries (length es) (pre @ concat (map raft_entry_bytes es)) off
     = Some (es, off + length (concat (map raft_entry_bytes es)))"
  using assms
proof (induction es arbitrary: pre off)
  case (Cons e es)
  let ?rest = "concat (map raft_entry_bytes es)" and ?n = "word_of_nat (length (RaftLogEntry_Serialize e)) :: u32"
  let ?buf = "pre @ concat (map raft_entry_bytes (e # es))"
  have f: "length (RaftLogEntry_Serialize e) < 2 ^ 32" "length (le_data e) < 2 ^ 32"
    using Cons.prems(1) [of e] by (auto simp: entry_fits_def length_Serialize)
  have b: "?buf = pre @ le_bytes 4 ?n @ RaftLogEntry_Serialize e @ ?rest" by (simp add: raft_entry_bytes_def)
  have g1: "raft_GetFixed32 ?buf off = Some (?n, off + 4)" unfolding b by (rule GetFixed_skip(4) [OF Cons.prems(2)])
  have g2: "RaftLogEntry_Deserialize (drop (off + 4) ?buf) = Some e"
    unfolding b using Deserialize_Serialize [OF f(2), of ?rest] Cons.prems(2) by simp
  have n: "unat ?n = length (RaftLogEntry_Serialize e)" using f(1) by (rule unat_length_u32)
  have "load_entries (length es) ((pre @ le_bytes 4 ?n @ RaftLogEntry_Serialize e) @ ?rest) (off + 4 + length (RaftLogEntry_Serialize e))
      = Some (es, off + 4 + length (RaftLogEntry_Serialize e) + length ?rest)"
    by (rule Cons.IH) (use Cons.prems in auto)
  then have g3: "load_entries (length es) ?buf (off + 4 + unat ?n) = Some (es, off + 4 + length (RaftLogEntry_Serialize e) + length ?rest)"
    unfolding b n by simp
  have l: "length (concat (map raft_entry_bytes (e # es))) = 4 + length (RaftLogEntry_Serialize e) + length ?rest"
    by (simp add: raft_entry_bytes_def)
  obtain B where B: "?buf = B" by blast
  show ?case using g1 g2 g3 unfolding B l by simp
qed simp

text \<open>The indices of the log are consecutive from its base.\<close>

definition log_wf :: "'sm Raft \<Rightarrow> bool" where
  "log_wf r \<longleftrightarrow> rf_log r \<noteq> [] \<and> (\<forall>i < length (rf_log r). le_index (rf_log r ! i) = rf_log_base r + word_of_nat i)"

lemma LoadSnapshotData_log:
  "\<exists>r'. Raft_LoadSnapshotData env r = Some r' \<and> rf_log r' = rf_log r \<and> rf_log_base r' = rf_log_base r
     \<and> rf_current_term r' = rf_current_term r \<and> rf_voted_for r' = rf_voted_for r"
  by (auto simp: Raft_LoadSnapshotData_def raft_GetFixed64_def raft_GetFixed32_def Let_def split: option.splits)

lemma write_and_rename_result:
  "write_and_rename env fs path buf what = (s, fs') \<Longrightarrow> fs' path = (if ok s then Some buf else fs path)"
  by (auto simp: write_and_rename_def Let_def ok_def Status_IOError_def Status_OK_def split: if_splits)

lemma save_file:
  assumes "ro_enable_raft (rf_opts r)" and "Raft_SavePersistentState env r = (s, r1)"
  shows "rf_fs r1 (Raft_RaftStatePath r) = (if ok s
     then Some (le_bytes 8 (rf_current_term r) @ le_bytes 8 (rf_voted_for r) @ le_bytes 8 (rf_last_snapshot_index r)
       @ le_bytes 8 (rf_last_snapshot_term r) @ le_bytes 4 (word_of_nat (length (rf_log r)) :: u32) @ concat (map raft_entry_bytes (rf_log r)))
     else rf_fs r (Raft_RaftStatePath r))"
  using assms
  by (auto simp: Raft_SavePersistentState_def raft_PutFixed64_def raft_PutFixed32_def put_entries_eq Let_def
      dest!: write_and_rename_result split: prod.splits)

lemma load_state_bytes:
  fixes t v a b :: u64
  assumes "\<And>e. e \<in> set es \<Longrightarrow> entry_fits e" and "length es < 2 ^ 32"
  defines "buf \<equiv> le_bytes 8 t @ le_bytes 8 v @ le_bytes 8 a @ le_bytes 8 b @ le_bytes 4 (word_of_nat (length es) :: u32) @ concat (map raft_entry_bytes es)"
  shows "raft_GetFixed64 buf 0 = Some (t, 8)" "raft_GetFixed64 buf 8 = Some (v, 16)" "raft_GetFixed64 buf 16 = Some (a, 24)"
    "raft_GetFixed64 buf 24 = Some (b, 32)" "raft_GetFixed32 buf 32 = Some (word_of_nat (length es), 36)"
    "load_entries (length es) buf 36 = Some (es, 36 + length (concat (map raft_entry_bytes es)))" "buf \<noteq> []"
proof -
  show "raft_GetFixed64 buf 0 = Some (t, 8)" unfolding buf_def by (rule GetFixed_skip(1))
  show "raft_GetFixed64 buf 8 = Some (v, 16)" unfolding buf_def using GetFixed_skip(3) [of "le_bytes 8 t" 8 v] by simp
  show "raft_GetFixed64 buf 16 = Some (a, 24)" unfolding buf_def using GetFixed_skip(3) [of "le_bytes 8 t @ le_bytes 8 v" 16 a] by simp
  show "raft_GetFixed64 buf 24 = Some (b, 32)" unfolding buf_def
    using GetFixed_skip(3) [of "le_bytes 8 t @ le_bytes 8 v @ le_bytes 8 a" 24 b] by simp
  show "raft_GetFixed32 buf 32 = Some (word_of_nat (length es), 36)" unfolding buf_def
    using GetFixed_skip(4) [of "le_bytes 8 t @ le_bytes 8 v @ le_bytes 8 a @ le_bytes 8 b" 32] by simp
  show "load_entries (length es) buf 36 = Some (es, 36 + length (concat (map raft_entry_bytes es)))" unfolding buf_def
    using load_entries_put [OF assms(1), where pre = "le_bytes 8 t @ le_bytes 8 v @ le_bytes 8 a @ le_bytes 8 b @ le_bytes 4 (word_of_nat (length es) :: u32)" and off = 36]
    by simp
  show "buf \<noteq> []" unfolding buf_def by (simp flip: length_greater_0_conv)
qed

lemma Load_saved:
  fixes r r1 r0 :: "'sm Raft"
  assumes "ro_enable_raft (rf_opts r)" and "Raft_SavePersistentState env r = (s, r1)" and "ok s"
    and "log_wf r" and "length (rf_log r) < 2 ^ 32" and "\<And>e. e \<in> set (rf_log r) \<Longrightarrow> entry_fits e"
    and "ro_enable_raft (rf_opts r0)" and "rf_fs r0 = rf_fs r1"
    and "env_open env (Raft_RaftStatePath r)" and "\<And>n. env_read env (Raft_RaftStatePath r) n = int n"
  shows "\<exists>r2. Raft_LoadPersistentState env r0 (rf_db_path r) = Some (Status_OK, r2)
     \<and> rf_current_term r2 = rf_current_term r \<and> rf_voted_for r2 = rf_voted_for r \<and> rf_log r2 = rf_log r \<and> rf_log_base r2 = rf_log_base r"
proof -
  let ?r0 = "r0\<lparr>rf_db_path := rf_db_path r\<rparr>" and ?p = "Raft_RaftStatePath r" and ?log = "rf_log r"
  let ?buf = "le_bytes 8 (rf_current_term r) @ le_bytes 8 (rf_voted_for r) @ le_bytes 8 (rf_last_snapshot_index r)
       @ le_bytes 8 (rf_last_snapshot_term r) @ le_bytes 4 (word_of_nat (length ?log) :: u32) @ concat (map raft_entry_bytes ?log)"
  note b = load_state_bytes [OF assms(6,5), of "rf_current_term r" "rf_voted_for r" "rf_last_snapshot_index r" "rf_last_snapshot_term r"]
  have p: "Raft_RaftStatePath ?r0 = ?p" by (simp add: Raft_RaftStatePath_def)
  have f: "read_file env (rf_fs r0) ?p = Some ?buf"
    using save_file [OF assms(1,2)] assms(3,8,9) by (simp add: read_file_def)
  have ne: "?log \<noteq> []" and ix: "\<And>i. i < length ?log \<Longrightarrow> le_index (?log ! i) = rf_log_base r + word_of_nat i"
    using assms(4) by (auto simp: log_wf_def)
  have base: "le_index (last ?log) - (word_of_nat (length ?log) - 1) = rf_log_base r" "le_index (hd ?log) = rf_log_base r"
    using ix [of "length ?log - 1"] ix [of 0] ne by (cases "length ?log"; force simp: last_conv_nth hd_conv_nth)+
  have n: "unat (word_of_nat (length ?log) :: u32) = length ?log" using assms(5) by (simp add: unsigned_of_nat take_bit_nat_eq_self)
  define r3 where "r3 = ?r0\<lparr>rf_current_term := rf_current_term r, rf_voted_for := rf_voted_for r, rf_log := ?log, rf_log_base := rf_log_base r\<rparr>"
  obtain r4 where r4: "Raft_LoadSnapshotData env r3 = Some r4" "rf_log r4 = rf_log r3" "rf_log_base r4 = rf_log_base r3"
      "rf_current_term r4 = rf_current_term r3" "rf_voted_for r4 = rf_voted_for r3"
    using LoadSnapshotData_log by blast
  obtain B where B: "?buf = B" by blast
  have "Raft_LoadPersistentState env r0 (rf_db_path r) = Some (Status_OK, r4)"
    using assms(7,10) p f b ne base n r4(1) unfolding Raft_LoadPersistentState_def Let_def B
    by (simp add: r3_def)
  then show ?thesis using r4(2-5) by (auto simp: r3_def)
qed

text \<open>C20: persistence. \<open>SavePersistentState\<close> writes the term, the vote and the log. If it succeeds, a node
  that is started on the same files loads them back; if it fails, the file still holds what it held
  before.\<close>

theorem raft_persistence_roundtrip:
  fixes r r1 r0 :: "'sm Raft"
  assumes "ro_enable_raft (rf_opts r)" and "Raft_SavePersistentState env r = (s, r1)"
    and "log_wf r" and "length (rf_log r) < 2 ^ 32" and "\<And>e. e \<in> set (rf_log r) \<Longrightarrow> entry_fits e"
    and "ro_enable_raft (rf_opts r0)" and "rf_fs r0 = rf_fs r1"
    and "env_open env (Raft_RaftStatePath r)" and "\<And>n. env_read env (Raft_RaftStatePath r) n = int n"
  shows "(ok s \<longrightarrow> (\<exists>r2. Raft_LoadPersistentState env r0 (rf_db_path r) = Some (Status_OK, r2)
       \<and> rf_current_term r2 = rf_current_term r \<and> rf_voted_for r2 = rf_voted_for r \<and> rf_log r2 = rf_log r \<and> rf_log_base r2 = rf_log_base r))
     \<and> (\<not> ok s \<longrightarrow> rf_fs r1 (Raft_RaftStatePath r) = rf_fs r (Raft_RaftStatePath r))"
proof (cases "ok s")
  case True
  then show ?thesis using Load_saved [OF assms(1,2) True assms(3-9)] by blast
next
  case False
  then show ?thesis using save_file [OF assms(1,2)] by simp
qed

subsection \<open>Positions in the log\<close>

lemma LogPos_Some:
  assumes "Raft_LogPos r n = Some pos"
  shows "rf_log_base r \<le> n" "pos = unat (n - rf_log_base r)" "pos < length (rf_log r)" "n = rf_log_base r + word_of_nat pos"
proof -
  show b: "rf_log_base r \<le> n" and p: "pos = unat (n - rf_log_base r)"
    using assms by (auto simp: Raft_LogPos_def Let_def split: if_splits)
  have "n - rf_log_base r < word_of_nat (length (rf_log r))"
    using assms by (auto simp: Raft_LogPos_def Let_def split: if_splits)
  then have "pos < unat (word_of_nat (length (rf_log r)) :: u64)" using p by (simp add: word_less_nat_alt)
  also have "\<dots> \<le> length (rf_log r)" by (simp add: unsigned_of_nat take_bit_nat_less_eq_self)
  finally show "pos < length (rf_log r)" .
  show "n = rf_log_base r + word_of_nat pos" using p by simp
qed

lemma log_wf_pos: "log_wf r \<Longrightarrow> Raft_LogPos r n = Some pos \<Longrightarrow> le_index (rf_log r ! pos) = n"
  using LogPos_Some [of r n pos] by (simp add: log_wf_def)

lemma log_wf_cong: "rf_log r' = rf_log r \<Longrightarrow> rf_log_base r' = rf_log_base r \<Longrightarrow> log_wf r' = log_wf r"
  by (simp add: log_wf_def)

lemma log_wf_snoc:
  "log_wf r \<Longrightarrow> rf_log r' = rf_log r @ [e] \<Longrightarrow> rf_log_base r' = rf_log_base r \<Longrightarrow>
     le_index e = rf_log_base r + word_of_nat (length (rf_log r)) \<Longrightarrow> log_wf r'"
  by (auto simp: log_wf_def nth_append less_Suc_eq)

lemma next_index: "log_wf r \<Longrightarrow> Raft_GetLastLogIndex r + 1 = rf_log_base r + word_of_nat (length (rf_log r))"
  by (simp add: Raft_GetLastLogIndex_def Raft_LastLogIndex_def)

subsection \<open>The loop over new entries\<close>

lemma append_loop_frame:
  "append_loop es r = (t, r') \<Longrightarrow> \<exists>log. r' = r\<lparr>rf_log := log\<rparr>"
proof (induction es arbitrary: r)
  case Nil
  then show ?case by (auto intro: exI [of _ "rf_log r"])
next
  case (Cons e es)
  then show ?case
    by (force simp: Let_def intro: exI [of _ "rf_log r"] split: option.splits if_splits)
qed

lemma append_loop_log_wf: "log_wf r \<Longrightarrow> append_loop es r = (t, r') \<Longrightarrow> log_wf r'"
proof (induction es arbitrary: r)
  case (Cons e es)
  show ?case
  proof (cases "Raft_LogPos r (le_index e)")
    case None
    show ?thesis
    proof (cases "le_index e = rf_log_base r + word_of_nat (length (rf_log r))")
      case True
      have "log_wf (r\<lparr>rf_log := rf_log r @ [e]\<rparr>)" by (rule log_wf_snoc [OF Cons.prems(1)]) (use True in auto)
      then show ?thesis using Cons True None by simp
    next
      case False
      then show ?thesis using Cons.prems None by simp
    qed
  next
    case (Some pos)
    note p = LogPos_Some [OF Some]
    show ?thesis
    proof (cases "le_term (rf_log r ! pos) = le_term e")
      case True
      then show ?thesis using Cons Some by simp
    next
      case False
      have ix: "le_index e = rf_log_base r + word_of_nat (length (take pos (rf_log r)))"
        using p(3,4) by simp
      have "log_wf (r\<lparr>rf_log := take pos (rf_log r) @ [e]\<rparr>)"
        using Cons.prems(1) ix p(3) by (auto simp: log_wf_def nth_append less_Suc_eq)
      then show ?thesis using Cons False Some ix by (simp add: Let_def)
    qed
  qed
qed simp

subsection \<open>Every operation keeps the log consecutive\<close>

lemma ApplyCommitted_frame:
  "\<exists>a st sl. Raft_ApplyCommitted sm r = r\<lparr>rf_last_applied := a, rf_sm := st, rf_slots := sl\<rparr> \<and> length sl = length (rf_slots r)"
proof (induction sm r rule: Raft_ApplyCommitted.induct)
  case (1 sm r)
  let ?n = "rf_last_applied r + 1"
  show ?case
  proof (cases "rf_last_applied r < rf_commit_index r")
    case False
    have "r = r\<lparr>rf_last_applied := rf_last_applied r, rf_sm := rf_sm r, rf_slots := rf_slots r\<rparr>" by simp
    moreover have "Raft_ApplyCommitted sm r = r" using False by (subst Raft_ApplyCommitted.simps) simp
    ultimately show ?thesis by metis
  next
    case True
    note IH = "1.IH" [OF True refl]
    show ?thesis
    proof (cases "Raft_LogPos r ?n")
      case None
      obtain a st sl where "Raft_ApplyCommitted sm (r\<lparr>rf_last_applied := ?n\<rparr>)
          = (r\<lparr>rf_last_applied := ?n\<rparr>)\<lparr>rf_last_applied := a, rf_sm := st, rf_slots := sl\<rparr>" "length sl = length (rf_slots r)" using IH(1) [OF None] by auto
      then show ?thesis using True None by (subst Raft_ApplyCommitted.simps) (auto simp: Let_def)
    next
      case (Some pos)
      show ?thesis
      proof (cases "le_type (rf_log r ! pos) = kCommand")
        case False
        obtain a st sl where "Raft_ApplyCommitted sm (r\<lparr>rf_last_applied := ?n\<rparr>)
            = (r\<lparr>rf_last_applied := ?n\<rparr>)\<lparr>rf_last_applied := a, rf_sm := st, rf_slots := sl\<rparr>" "length sl = length (rf_slots r)"
          using IH(3) [OF Some refl False] by auto
        then show ?thesis using True Some False by (subst Raft_ApplyCommitted.simps) (auto simp: Let_def)
      next
        case cmd: True
        obtain res st where ap: "sm_Apply sm (le_data (rf_log r ! pos)) (rf_sm r) = (res, st)" by fastforce
        let ?sl = "case rf_pending_results r ?n of None \<Rightarrow> rf_slots r
          | Some a \<Rightarrow> if rf_slots r ! a = None then (rf_slots r)[a := Some res] else rf_slots r"
        have l: "length ?sl = length (rf_slots r)" by (simp split: option.splits)
        obtain a st' sl where "Raft_ApplyCommitted sm (r\<lparr>rf_last_applied := ?n, rf_sm := st, rf_slots := ?sl\<rparr>)
            = (r\<lparr>rf_last_applied := ?n, rf_sm := st, rf_slots := ?sl\<rparr>)\<lparr>rf_last_applied := a, rf_sm := st', rf_slots := sl\<rparr>" "length sl = length ?sl"
          using IH(2) [OF Some refl cmd ap [symmetric] refl refl] by auto
        then show ?thesis using True Some cmd ap l
          by (subst Raft_ApplyCommitted.simps) (auto simp: Let_def)
      qed
    qed
  qed
qed

lemma ApplyCommitted_simps [simp]:
  "rf_log (Raft_ApplyCommitted sm r) = rf_log r" "rf_log_base (Raft_ApplyCommitted sm r) = rf_log_base r"
  "rf_commit_index (Raft_ApplyCommitted sm r) = rf_commit_index r" "rf_current_term (Raft_ApplyCommitted sm r) = rf_current_term r"
  "rf_role (Raft_ApplyCommitted sm r) = rf_role r" "rf_voted_for (Raft_ApplyCommitted sm r) = rf_voted_for r"
  "rf_opts (Raft_ApplyCommitted sm r) = rf_opts r" "rf_next_index (Raft_ApplyCommitted sm r) = rf_next_index r"
  "rf_match_index (Raft_ApplyCommitted sm r) = rf_match_index r" "rf_pending_results (Raft_ApplyCommitted sm r) = rf_pending_results r"
  "length (rf_slots (Raft_ApplyCommitted sm r)) = length (rf_slots r)"
proof -
  obtain a st sl where "Raft_ApplyCommitted sm r = r\<lparr>rf_last_applied := a, rf_sm := st, rf_slots := sl\<rparr>" "length sl = length (rf_slots r)"
    using ApplyCommitted_frame [of sm r] by blast
  then show "rf_log (Raft_ApplyCommitted sm r) = rf_log r" "rf_log_base (Raft_ApplyCommitted sm r) = rf_log_base r"
    "rf_commit_index (Raft_ApplyCommitted sm r) = rf_commit_index r" "rf_current_term (Raft_ApplyCommitted sm r) = rf_current_term r"
    "rf_role (Raft_ApplyCommitted sm r) = rf_role r" "rf_voted_for (Raft_ApplyCommitted sm r) = rf_voted_for r"
    "rf_opts (Raft_ApplyCommitted sm r) = rf_opts r" "rf_next_index (Raft_ApplyCommitted sm r) = rf_next_index r"
    "rf_match_index (Raft_ApplyCommitted sm r) = rf_match_index r" "rf_pending_results (Raft_ApplyCommitted sm r) = rf_pending_results r"
    "length (rf_slots (Raft_ApplyCommitted sm r)) = length (rf_slots r)" by simp_all
qed

text \<open>A node is well formed when its log is consecutive, it has a \<open>next_index\<close> and a \<open>match_index\<close> for
  every peer, and every registered slot exists. So every access by position is inside its list.\<close>

definition raft_wf :: "'sm Raft \<Rightarrow> bool" where
  "raft_wf r \<longleftrightarrow> log_wf r \<and> length (rf_next_index r) = length (ro_peers (rf_opts r))
     \<and> length (rf_match_index r) = length (ro_peers (rf_opts r))
     \<and> (\<forall>n a. rf_pending_results r n = Some a \<longrightarrow> a < length (rf_slots r))"

named_theorems keeps_wf

lemma raft_wf_cong:
  "raft_wf r \<Longrightarrow> rf_log r' = rf_log r \<Longrightarrow> rf_log_base r' = rf_log_base r \<Longrightarrow> rf_opts r' = rf_opts r
     \<Longrightarrow> length (rf_next_index r') = length (rf_next_index r) \<Longrightarrow> length (rf_match_index r') = length (rf_match_index r)
     \<Longrightarrow> rf_pending_results r' = rf_pending_results r \<Longrightarrow> length (rf_slots r') = length (rf_slots r) \<Longrightarrow> raft_wf r'"
  by (simp add: raft_wf_def log_wf_def)

lemma raft_wf_snoc:
  "raft_wf r \<Longrightarrow> rf_log r' = rf_log r @ [e] \<Longrightarrow> le_index e = Raft_GetLastLogIndex r + 1 \<Longrightarrow> rf_log_base r' = rf_log_base r
     \<Longrightarrow> rf_opts r' = rf_opts r \<Longrightarrow> length (rf_next_index r') = length (rf_next_index r)
     \<Longrightarrow> length (rf_match_index r') = length (rf_match_index r)
     \<Longrightarrow> rf_pending_results r' = rf_pending_results r \<Longrightarrow> length (rf_slots r') = length (rf_slots r) \<Longrightarrow> raft_wf r'"
  using log_wf_snoc [of r r' e] next_index [of r] by (simp add: raft_wf_def)

lemma raft_wf_new: "raft_wf (Raft_new opts st fs)"
  by (simp add: raft_wf_def log_wf_def Raft_new_def dummy_entry_def)

lemma save_wf [keeps_wf]: "raft_wf r \<Longrightarrow> raft_wf (save env r)"
  by (erule raft_wf_cong) simp_all

lemma BecomeFollower_wf [keeps_wf]: "raft_wf r \<Longrightarrow> raft_wf (Raft_BecomeFollower env r t)"
  by (erule raft_wf_cong) (simp_all add: Raft_BecomeFollower_def)

lemma BecomeCandidate_wf [keeps_wf]: "raft_wf r \<Longrightarrow> raft_wf (Raft_BecomeCandidate env r)"
  by (erule raft_wf_cong) (simp_all add: Raft_BecomeCandidate_def)

lemma BecomeLeader_wf [keeps_wf]: "raft_wf r \<Longrightarrow> raft_wf (Raft_BecomeLeader env r)"
  by (rule raft_wf_snoc, assumption, simp add: Raft_BecomeLeader_def Let_def, simp_all add: Raft_BecomeLeader_def Let_def raft_wf_def)

lemma Propose_wf [keeps_wf]: "raft_wf r \<Longrightarrow> raft_wf (snd (Raft_Propose env r data))"
  by (cases "rf_role r = kLeader") (auto simp: Raft_Propose_def Let_def intro!: save_wf elim!: raft_wf_snoc)

lemma ApplyCommitted_wf [keeps_wf]: "raft_wf r \<Longrightarrow> raft_wf (Raft_ApplyCommitted sm r)"
  by (erule raft_wf_cong) simp_all

lemma append_loop_wf:
  assumes "raft_wf r" and "append_loop es r = (t, r')"
  shows "raft_wf r'"
proof -
  obtain l where "r' = r\<lparr>rf_log := l\<rparr>" using append_loop_frame [OF assms(2)] by blast
  moreover have "log_wf r'" using append_loop_log_wf [OF _ assms(2)] assms(1) by (simp add: raft_wf_def)
  ultimately show ?thesis using assms(1) by (simp add: raft_wf_def)
qed

lemma update_wf [simp]:
  "raft_wf (r\<lparr>rf_commit_index := n\<rparr>) = raft_wf r" "raft_wf (r\<lparr>rf_leader_id := n\<rparr>) = raft_wf r"
  "raft_wf (r\<lparr>rf_voted_for := n\<rparr>) = raft_wf r" "raft_wf (r\<lparr>rf_snapshot_staging := sg\<rparr>) = raft_wf r"
  "raft_wf (r\<lparr>rf_sm := st\<rparr>) = raft_wf r" "raft_wf (r\<lparr>rf_snapshot_sends := ss\<rparr>) = raft_wf r"
  by (simp_all add: raft_wf_def log_wf_def)

lemma HandleAppendEntries_wf [keeps_wf]:
  assumes "raft_wf r"
  shows "raft_wf (snd (Raft_HandleAppendEntries env sm r req))"
proof -
  let ?r1 = "(Raft_BecomeFollower env r (ae_term req))\<lparr>rf_leader_id := ae_leader_id req\<rparr>"
  have w: "raft_wf ?r1" using assms by (simp add: keeps_wf)
  obtain t r2 where a: "append_loop (ae_entries req) ?r1 = (t, r2)" by fastforce
  have "raft_wf r2" by (rule append_loop_wf [OF w a])
  then show ?thesis using assms w a by (simp add: Raft_HandleAppendEntries_def Let_def keeps_wf)
qed

lemma HandleRequestVote_wf [keeps_wf]: "raft_wf r \<Longrightarrow> raft_wf (snd (Raft_HandleRequestVote env r req))"
  by (simp add: Raft_HandleRequestVote_def Let_def keeps_wf)

lemma SaveSnapshotData_simps [simp]:
  "rf_log (snd (Raft_SaveSnapshotData env r)) = rf_log r" "rf_log_base (snd (Raft_SaveSnapshotData env r)) = rf_log_base r"
  "rf_opts (snd (Raft_SaveSnapshotData env r)) = rf_opts r" "rf_slots (snd (Raft_SaveSnapshotData env r)) = rf_slots r"
  "rf_next_index (snd (Raft_SaveSnapshotData env r)) = rf_next_index r"
  "rf_match_index (snd (Raft_SaveSnapshotData env r)) = rf_match_index r"
  "rf_pending_results (snd (Raft_SaveSnapshotData env r)) = rf_pending_results r"
  "rf_sm (snd (Raft_SaveSnapshotData env r)) = rf_sm r" "rf_commit_index (snd (Raft_SaveSnapshotData env r)) = rf_commit_index r"
  "rf_last_applied (snd (Raft_SaveSnapshotData env r)) = rf_last_applied r"
  "rf_snapshot_data (snd (Raft_SaveSnapshotData env r)) = rf_snapshot_data r"
  by (simp_all add: Raft_SaveSnapshotData_def Let_def split_def)

lemma CommitInstalledSnapshot_wf [keeps_wf]: "raft_wf r \<Longrightarrow> raft_wf (Raft_CommitInstalledSnapshot env r i t data)"
  by (simp add: Raft_CommitInstalledSnapshot_def raft_wf_def log_wf_def)

lemma HandleInstallSnapshot_wf [keeps_wf]: "raft_wf r \<Longrightarrow> raft_wf (snd (Raft_HandleInstallSnapshot env sm r req))"
  by (simp add: Raft_HandleInstallSnapshot_def Let_def split_def keeps_wf)

lemma HandleInstallSnapshotChunk_wf [keeps_wf]: "raft_wf r \<Longrightarrow> raft_wf (snd (Raft_HandleInstallSnapshotChunk env sm r req))"
  by (simp add: Raft_HandleInstallSnapshotChunk_def Let_def split_def keeps_wf)

lemma commit_loop_wf: "raft_wf r \<Longrightarrow> raft_wf (commit_loop ns r)"
  by (induction ns arbitrary: r) (auto split: option.splits)

lemma AdvanceCommitIndex_wf [keeps_wf]: "raft_wf r \<Longrightarrow> raft_wf (Raft_AdvanceCommitIndex sm r)"
  by (simp add: Raft_AdvanceCommitIndex_def Let_def commit_loop_wf keeps_wf)

lemma CompactLog_wf [keeps_wf]: "raft_wf r \<Longrightarrow> raft_wf (Raft_CompactLog r n)"
  using log_wf_pos [of r n] by (auto simp: Raft_CompactLog_def raft_wf_def log_wf_def split: option.splits)

lemma TriggerSnapshot_wf [keeps_wf]:
  assumes "raft_wf r"
  shows "raft_wf (snd (Raft_TriggerSnapshot env sm r))"
proof -
  let ?r1 = "r\<lparr>rf_last_snapshot_index := rf_last_applied r, rf_last_snapshot_term := le_term (Raft_GetLogEntry r (rf_last_applied r)),
      rf_snapshot_data := sm_TakeSnapshot sm (rf_sm r)\<rparr>"
  obtain s r2 where s: "Raft_SaveSnapshotData env ?r1 = (s, r2)" by fastforce
  have w: "raft_wf r2" using assms SaveSnapshotData_simps [of env ?r1] by (simp add: s raft_wf_def log_wf_def)
  have "raft_wf (r2\<lparr>rf_last_snapshot_index := rf_last_snapshot_index r,
      rf_last_snapshot_term := rf_last_snapshot_term r, rf_snapshot_data := rf_snapshot_data r\<rparr>)"
    using w by (simp add: raft_wf_def log_wf_def)
  then show ?thesis using assms w s by (simp add: Raft_TriggerSnapshot_def Let_def keeps_wf)
qed

lemma CheckAndCompactLog_wf [keeps_wf]: "raft_wf r \<Longrightarrow> raft_wf (Raft_CheckAndCompactLog env sm r)"
  by (simp add: Raft_CheckAndCompactLog_def keeps_wf)

lemma conf_change_wf [keeps_wf]: "raft_wf r \<Longrightarrow> raft_wf (snd (conf_change env r op p))"
  by (cases "rf_role r = kLeader") (auto simp: conf_change_def Let_def intro!: save_wf elim!: raft_wf_snoc)

lemma Stop_wf [keeps_wf]: "raft_wf r \<Longrightarrow> raft_wf (Raft_Stop env r)"
  by (simp add: Raft_Stop_def keeps_wf)

subsection \<open>Reachable nodes\<close>

text \<open>What can happen to a node: its handlers run, its timers fire, clients propose. While a call to
  another node is under way the mutex is free, so the node that the caller finds afterwards is one
  that is reachable from the one it left.\<close>

inductive raft_reach :: "Env \<Rightarrow> 'sm RaftStateMachine \<Rightarrow> 'sm Raft \<Rightarrow> 'sm Raft \<Rightarrow> bool" for env sm where
  start: "raft_reach env sm r r"
| propose: "raft_reach env sm r s \<Longrightarrow> raft_reach env sm r (snd (Raft_Propose env s data))"
| propose_sync: "raft_reach env sm r s \<Longrightarrow> (\<And>x. raft_reach env sm x (w0 x)) \<Longrightarrow> (\<And>x. raft_reach env sm x (w1 x)) \<Longrightarrow> (\<And>x. raft_reach env sm x (w2 x))
    \<Longrightarrow> (\<And>x. raft_reach env sm x (w3 x)) \<Longrightarrow> raft_reach env sm r (snd (Raft_ProposeSync env w0 w1 w2 w3 s data))"
| add_peer: "raft_reach env sm r s \<Longrightarrow> raft_reach env sm r (snd (Raft_AddPeer env s p))"
| remove_peer: "raft_reach env sm r s \<Longrightarrow> raft_reach env sm r (snd (Raft_RemovePeer env s p))"
| append_entries: "raft_reach env sm r s \<Longrightarrow> raft_reach env sm r (snd (Raft_HandleAppendEntries env sm s aq))"
| request_vote: "raft_reach env sm r s \<Longrightarrow> raft_reach env sm r (snd (Raft_HandleRequestVote env s vq))"
| install_snapshot: "raft_reach env sm r s \<Longrightarrow> raft_reach env sm r (snd (Raft_HandleInstallSnapshot env sm s iq))"
| install_chunk: "raft_reach env sm r s \<Longrightarrow> raft_reach env sm r (snd (Raft_HandleInstallSnapshotChunk env sm s cq))"
| election: "raft_reach env sm r s \<Longrightarrow> (\<And>p q x. raft_reach env sm x (snd (vote p q x)))
    \<Longrightarrow> raft_reach env sm r (Raft_HandleElectionTimeout env vote s)"
| replicate: "raft_reach env sm r s \<Longrightarrow> (\<And>p q x. raft_reach env sm x (snd (rpc p q x)))
    \<Longrightarrow> (\<And>p q x. raft_reach env sm x (snd (srpc p q x))) \<Longrightarrow> (\<And>p q x. raft_reach env sm x (snd (crpc p q x)))
    \<Longrightarrow> Raft_ReplicateLog env sm rpc srpc crpc hb s = Some s' \<Longrightarrow> raft_reach env sm r s'"
| snapshot: "raft_reach env sm r s \<Longrightarrow> raft_reach env sm r (snd (Raft_TriggerSnapshot env sm s))"
| compact: "raft_reach env sm r s \<Longrightarrow> raft_reach env sm r (Raft_CheckAndCompactLog env sm s)"
| stop: "raft_reach env sm r s \<Longrightarrow> raft_reach env sm r (Raft_Stop env s)"

lemma election_loop_wf:
  assumes "\<And>p q x. raft_wf x \<Longrightarrow> raft_wf (snd (rpc p q x))"
  shows "raft_wf r \<Longrightarrow> raft_wf (election_loop env rpc req m ps v r)"
proof (induction ps arbitrary: v r)
  case (Cons p ps)
  obtain resp s where rp: "rpc (pr_id p) req r = (resp, s)" by fastforce
  have "raft_wf s" using assms [OF Cons.prems, of "pr_id p" req] rp by simp
  then show ?case using Cons rp by (simp add: keeps_wf)
qed (simp add: keeps_wf)

lemma snapshot_installed_wf [keeps_wf]: "raft_wf r \<Longrightarrow> raft_wf (snapshot_installed r f n)"
  by (auto simp: snapshot_installed_def Let_def raft_wf_def log_wf_def split: option.splits)

lemma send_chunks_wf:
  "send_chunks env rpc f tm si st data b r = Some r' \<Longrightarrow> (\<forall>p q x. raft_wf x \<longrightarrow> raft_wf (snd (rpc p q x))) \<longrightarrow> raft_wf r \<longrightarrow> raft_wf r'"
proof (induction rule: send_chunks.raw_induct [rotated, consumes 1, case_names 1])
  case (1 rec env rpc f tm si st data b r r')
  show ?case
  proof (intro impI)
    assume rpc: "\<forall>p q x. raft_wf x \<longrightarrow> raft_wf (snd (rpc p q x))" and wf: "raft_wf r"
    have IH: "rec env rpc f tm si st data b x = Some y \<Longrightarrow> raft_wf x \<Longrightarrow> raft_wf y" for b x y
      using "1.IH" rpc by blast
    let ?n = "word_of_nat (length data) :: u64"
    define ss where "ss = send_state r f si st ?n"
    define r1 where "r1 = r\<lparr>rf_snapshot_sends := (rf_snapshot_sends r)(f \<mapsto> ss)\<rparr>"
    define len where "len = min (ro_snapshot_chunk_size (rf_opts r1)) (unat (?n - ss_sent ss))"
    define req where "req = \<lparr>ic_term = tm, ic_leader_id = ro_node_id (rf_opts r1), ic_last_included_index = si,
      ic_last_included_term = st, ic_chunk_offset = ss_sent ss, ic_total_size = ?n,
      ic_is_last = (?n \<le> ss_sent ss + word_of_nat len), ic_data = take len (drop (unat (ss_sent ss)) data)\<rparr>"
    obtain resp s where s: "rpc f req r1 = (resp, s)" by fastforce
    have w: "raft_wf r1" using wf by (simp add: r1_def)
    then have "raft_wf s" using rpc s by (metis snd_conv)
    then show "raft_wf r'"
      using "1"(2) wf w IH unfolding Let_def ss_def [symmetric] r1_def [symmetric] len_def [symmetric] req_def [symmetric] s
      by (auto simp: keeps_wf split: if_splits)
  qed
qed

lemma SendSnapshotToFollower_wf:
  assumes srpc: "\<And>p q x. raft_wf x \<Longrightarrow> raft_wf (snd (srpc p q x))" and crpc: "\<And>p q x. raft_wf x \<Longrightarrow> raft_wf (snd (crpc p q x))"
    and "raft_wf r" and "Raft_SendSnapshotToFollower env srpc crpc f r = Some r'"
  shows "raft_wf r'"
proof -
  show ?thesis
    using assms(3,4) srpc [OF assms(3)] send_chunks_wf [of env crpc f _ _ _ _ _ r r'] crpc
    by (fastforce simp: Raft_SendSnapshotToFollower_def Let_def split_def keeps_wf split: if_splits)
qed

lemma replicate_loop_wf:
  assumes rpc: "\<And>p q x. raft_wf x \<Longrightarrow> raft_wf (snd (rpc p q x))" and srpc: "\<And>p q x. raft_wf x \<Longrightarrow> raft_wf (snd (srpc p q x))"
    and crpc: "\<And>p q x. raft_wf x \<Longrightarrow> raft_wf (snd (crpc p q x))"
  shows "replicate_loop env rpc srpc crpc hb lc ct is r = Some r' \<Longrightarrow> raft_wf r \<Longrightarrow> raft_wf r'"
proof (induction "is" arbitrary: r)
  case (Cons i "is")
  let ?p = "pr_id (ro_peers (rf_opts r) ! i)" and ?req = "append_request r hb lc ct (rf_next_index r ! i)"
  obtain resp s where rp: "rpc ?p ?req r = (resp, s)" by fastforce
  have w: "raft_wf s" using rpc [OF Cons.prems(2), of ?p ?req] rp by simp
  have u: "raft_wf (s\<lparr>rf_next_index := (rf_next_index s)[i := a], rf_match_index := (rf_match_index s)[i := b]\<rparr>)"
    "raft_wf (s\<lparr>rf_next_index := (rf_next_index s)[i := a]\<rparr>)" for a b
    using w by (simp_all add: raft_wf_def log_wf_def)
  have ss: "Raft_SendSnapshotToFollower env srpc crpc f r = Some x \<Longrightarrow> raft_wf x" for f x
    using SendSnapshotToFollower_wf [of srpc crpc r env f x] srpc crpc Cons.prems(2) by blast
  show ?case
  proof (cases "?p = ro_node_id (rf_opts r) \<or> \<not> pr_is_voter (ro_peers (rf_opts r) ! i)")
    case True
    then show ?thesis using Cons by simp
  next
    case remote: False
    show ?thesis
    proof (cases "rf_next_index r ! i \<le> rf_last_snapshot_index r")
      case True
      then obtain s2 where s2: "Raft_SendSnapshotToFollower env srpc crpc ?p r = Some s2"
          "(if rf_role s2 \<noteq> kLeader \<or> rf_current_term s2 \<noteq> ct then Some s2
            else replicate_loop env rpc srpc crpc hb lc ct is s2) = Some r'"
        using Cons.prems(1) remote by (simp split: Option.bind_splits)
      have "raft_wf s2" by (rule ss [OF s2(1)])
      then show ?thesis using s2(2) Cons.IH by (simp split: if_splits)
    next
      case False
      show ?thesis using Cons.prems(1) remote False rp w u Cons.IH [OF _ u(1)] Cons.IH [OF _ u(2)] Cons.IH [OF _ w]
        by (auto simp: Let_def keeps_wf split: if_splits)
    qed
  qed
qed simp

lemma ReplicateLog_wf:
  assumes "\<And>p q x. raft_wf x \<Longrightarrow> raft_wf (snd (rpc p q x))" and "\<And>p q x. raft_wf x \<Longrightarrow> raft_wf (snd (srpc p q x))"
    and "\<And>p q x. raft_wf x \<Longrightarrow> raft_wf (snd (crpc p q x))"
    and "Raft_ReplicateLog env sm rpc srpc crpc hb r = Some r'" and "raft_wf r"
  shows "raft_wf r'"
proof (cases "rf_role r = kLeader")
  case True
  then obtain s where "replicate_loop env rpc srpc crpc hb (rf_commit_index r) (rf_current_term r) [0..<length (ro_peers (rf_opts r))] r = Some s"
      "r' = Raft_AdvanceCommitIndex sm s"
    using assms(4) by (auto simp: Raft_ReplicateLog_def split: Option.bind_splits)
  moreover have "raft_wf s" by (rule replicate_loop_wf [OF assms(1-3) calculation(1) assms(5)])
  ultimately show ?thesis by (simp add: keeps_wf)
qed (use assms(4,5) in \<open>simp add: Raft_ReplicateLog_def\<close>)

lemma ProposeSync_wf:
  fixes r :: "'sm Raft"
  assumes w: "\<And>x. raft_wf x \<Longrightarrow> raft_wf (w0 x)" "\<And>x. raft_wf x \<Longrightarrow> raft_wf (w1 x)" "\<And>x. raft_wf x \<Longrightarrow> raft_wf (w2 x)"
      "\<And>x. raft_wf x \<Longrightarrow> raft_wf (w3 x)"
    and "raft_wf r"
  shows "raft_wf (snd (Raft_ProposeSync env w0 w1 w2 w3 r data))"
proof -
  let ?n = "Raft_GetLastLogIndex r + 1"
  let ?r1 = "(w0 r)\<lparr>rf_slots := rf_slots (w0 r) @ [None], rf_pending_results := (rf_pending_results (w0 r))(?n \<mapsto> length (rf_slots (w0 r)))\<rparr>"
  have "raft_wf ?r1" using w(1) [OF assms(5)] by (auto simp: raft_wf_def log_wf_def less_Suc_eq)
  then have p: "raft_wf (snd (Raft_Propose env (w1 ?r1) data))" using w(2) by (simp add: keeps_wf)
  have u: "raft_wf x \<Longrightarrow> raft_wf (x\<lparr>rf_pending_results := (rf_pending_results x)(?n := None)\<rparr>)" for x :: "'sm Raft"
    by (auto simp: raft_wf_def log_wf_def)
  obtain k s where s: "Raft_Propose env (w1 ?r1) data = (k, s)" by fastforce
  have "raft_wf s" using p by (simp add: s)
  then have "raft_wf (w2 s)" "raft_wf (w3 (w2 s))" using w(3,4) by simp_all
  then show ?thesis using u \<open>raft_wf s\<close> by (simp add: Raft_ProposeSync_def Let_def s)
qed

text \<open>C12: every node that can be reached from a new one is well formed, whatever the other nodes
  answer and whatever happens while a call is under way: the indices of its log are consecutive
  from \<open>log_base_\<close>, so that the entry at \<open>LogPos(n)\<close> is the one with index \<open>n\<close>; every peer has its
  \<open>next_index_\<close> and \<open>match_index_\<close>; and every slot that \<open>pending_results_\<close> names exists.\<close>

theorem raft_node_well_formed:
  fixes sm :: "'sm RaftStateMachine"
  assumes "raft_reach env sm (Raft_new opts st fs) r"
  shows "raft_wf r \<and> (\<forall>n pos. Raft_LogPos r n = Some pos \<longrightarrow> pos < length (rf_log r) \<and> le_index (rf_log r ! pos) = n)"
proof -
  have keep: "raft_wf r0 \<longrightarrow> raft_wf r1" if "raft_reach env sm r0 r1" for r0 r1 :: "'sm Raft"
    using that
  proof (induction rule: raft_reach.induct)
    case (propose_sync r s w0 w1 w2 w3 data)
    then show ?case by (intro impI ProposeSync_wf) simp_all
  next
    case (election r s vote)
    then show ?case unfolding Raft_HandleElectionTimeout_def Raft_StartElection_def Let_def
      by (intro impI election_loop_wf BecomeCandidate_wf) simp_all
  next
    case (replicate r s rpc srpc crpc hb s')
    show ?case
    proof
      assume "raft_wf r"
      show "raft_wf s'"
        by (rule ReplicateLog_wf [of rpc srpc crpc env sm hb s]) (simp_all add: replicate \<open>raft_wf r\<close>)
    qed
  qed (simp_all add: keeps_wf Raft_AddPeer_def Raft_RemovePeer_def)
  have "raft_wf r" by (rule keep [OF assms, THEN mp, OF raft_wf_new])
  then show ?thesis using log_wf_pos [of r] LogPos_Some(3) [of r] by (auto simp: raft_wf_def)
qed

subsection \<open>Log matching\<close>

text \<open>The entry with a given index, and logs whose indices do not wrap around.\<close>

definition entry_at :: "'sm Raft \<Rightarrow> nat \<Rightarrow> RaftLogEntry option" where
  "entry_at r n = (if unat (rf_log_base r) \<le> n \<and> n < unat (rf_log_base r) + length (rf_log r)
     then Some (rf_log r ! (n - unat (rf_log_base r))) else None)"

definition log_small :: "'sm Raft \<Rightarrow> bool" where
  "log_small r \<longleftrightarrow> unat (rf_log_base r) + length (rf_log r) < 2 ^ 64"

text \<open>Entries with the same index and term have the same logs up to them.\<close>

definition log_matching :: "'sm Raft \<Rightarrow> 'sm Raft \<Rightarrow> bool" where
  "log_matching f l \<longleftrightarrow> (\<forall>n e e'. entry_at f n = Some e \<longrightarrow> entry_at l n = Some e' \<longrightarrow> le_term e = le_term e'
     \<longrightarrow> (\<forall>m d d'. m \<le> n \<longrightarrow> entry_at f m = Some d \<longrightarrow> entry_at l m = Some d' \<longrightarrow> d = d'))"

lemma entry_at_cong: "rf_log r' = rf_log r \<Longrightarrow> rf_log_base r' = rf_log_base r \<Longrightarrow> entry_at r' = entry_at r"
  by (simp add: entry_at_def fun_eq_iff)

lemma LogPos_nat:
  assumes "unat (rf_log_base r) + length (rf_log r) < 2 ^ 64" and "n < 2 ^ 64"
  shows "Raft_LogPos r (word_of_nat n) = (if unat (rf_log_base r) \<le> n \<and> n < unat (rf_log_base r) + length (rf_log r)
     then Some (n - unat (rf_log_base r)) else None)"
proof -
  let ?b = "rf_log_base r" and ?n = "word_of_nat n :: u64" and ?l = "length (rf_log r)"
  have n: "unat ?n = n" and l: "unat (word_of_nat ?l :: u64) = ?l"
    using assms by (simp_all add: unsigned_of_nat take_bit_nat_eq_self)
  have le: "?n < ?b \<longleftrightarrow> n < unat ?b" by (simp add: word_less_nat_alt n)
  have sub: "unat ?b \<le> n \<Longrightarrow> unat (?n - ?b) = n - unat ?b" by (simp add: unat_sub word_le_nat_alt n)
  have "unat ?b \<le> n \<Longrightarrow> word_of_nat ?l \<le> ?n - ?b \<longleftrightarrow> unat ?b + ?l \<le> n" by (auto simp: word_le_nat_alt sub l)
  then show ?thesis using le sub by (auto simp: Raft_LogPos_def Let_def)
qed

lemma LogPos_entry_at:
  "log_small r \<Longrightarrow> map_option ((!) (rf_log r)) (Raft_LogPos r n) = entry_at r (unat n)"
  using LogPos_nat [of r "unat n"] unsigned_less [of n, where ?'a = nat] by (simp add: log_small_def entry_at_def)

lemma append_loop_end:
  assumes "unat (rf_log_base r) + length (rf_log r) + length es < 2 ^ 64"
    and "\<And>k. k < length es \<Longrightarrow> le_index (es ! k) = word_of_nat (unat (rf_log_base r) + length (rf_log r) + k)"
  shows "append_loop es r = (True, r\<lparr>rf_log := rf_log r @ es\<rparr>)"
  using assms
proof (induction es arbitrary: r)
  case (Cons e es)
  let ?n = "unat (rf_log_base r) + length (rf_log r)"
  have e: "le_index e = word_of_nat ?n" using Cons.prems(2) [of 0] by simp
  have p: "Raft_LogPos r (word_of_nat ?n) = None" using LogPos_nat [of r ?n] Cons.prems(1) by simp
  have "append_loop es (r\<lparr>rf_log := rf_log r @ [e]\<rparr>) = (True, r\<lparr>rf_log := (rf_log r @ [e]) @ es\<rparr>)"
    using Cons.IH [of "r\<lparr>rf_log := rf_log r @ [e]\<rparr>"] Cons.prems(1) Cons.prems(2) [of "Suc _"] by simp
  then show ?case using e p by simp
qed simp

lemma append_loop_result:
  assumes "unat (rf_log_base r) + length (rf_log r) < 2 ^ 64" and "s + length es < 2 ^ 64"
    and "unat (rf_log_base r) \<le> s" and "s \<le> unat (rf_log_base r) + length (rf_log r)"
    and "\<And>k. k < length es \<Longrightarrow> le_index (es ! k) = word_of_nat (s + k)"
  shows "\<exists>k \<le> length es. append_loop es r = (True, r\<lparr>rf_log := if k = length es then rf_log r
      else take (s + k - unat (rf_log_base r)) (rf_log r) @ drop k es\<rparr>)
    \<and> (\<forall>j < k. \<exists>d. entry_at r (s + j) = Some d \<and> le_term d = le_term (es ! j))"
  using assms
proof (induction es arbitrary: s)
  case (Cons e es)
  let ?b = "unat (rf_log_base r)" and ?log = "rf_log r"
  have e: "le_index e = word_of_nat s" using Cons.prems(5) [of 0] by simp
  have es: "le_index (es ! k) = word_of_nat (Suc s + k)" if "k < length es" for k using Cons.prems(5) [of "Suc k"] that by simp
  show ?case
  proof (cases "s = ?b + length ?log")
    case True
    have "append_loop (e # es) r = (True, r\<lparr>rf_log := ?log @ (e # es)\<rparr>)"
      by (rule append_loop_end) (use Cons.prems True in simp_all)
    then show ?thesis using True by (intro exI [of _ 0]) simp
  next
    case False
    define pos where "pos = s - ?b"
    have pos: "pos < length ?log" "?b + pos = s" using False Cons.prems(3,4) by (auto simp: pos_def)
    have p: "Raft_LogPos r (word_of_nat s) = Some pos" using LogPos_nat [of r s] Cons.prems False by (simp add: pos_def)
    have at: "entry_at r s = Some (?log ! pos)" using pos by (auto simp: entry_at_def)
    show ?thesis
    proof (cases "le_term (?log ! pos) = le_term e")
      case True
      obtain k where k: "k \<le> length es" "append_loop es r = (True, r\<lparr>rf_log := if k = length es then ?log else take (Suc s + k - ?b) ?log @ drop k es\<rparr>)"
          "\<forall>j < k. \<exists>d. entry_at r (Suc s + j) = Some d \<and> le_term d = le_term (es ! j)"
        using Cons.IH [of "Suc s"] Cons.prems pos es by auto
      have "\<exists>d. entry_at r (s + j) = Some d \<and> le_term d = le_term ((e # es) ! j)" if "j < Suc k" for j
        using k(3) at True that by (cases j) auto
      then show ?thesis using k(1,2) e p True by (intro exI [of _ "Suc k"]) simp
    next
      case False
      let ?r1 = "r\<lparr>rf_log := take pos ?log @ [e]\<rparr>"
      have "append_loop es ?r1 = (True, ?r1\<lparr>rf_log := rf_log ?r1 @ es\<rparr>)"
        by (rule append_loop_end) (use Cons.prems(2) pos es in \<open>simp_all add: add.assoc [symmetric]\<close>)
      moreover have "word_of_nat s = rf_log_base r + (word_of_nat pos :: u64)" by (simp flip: pos(2))
      ultimately show ?thesis using e p False pos by (intro exI [of _ 0]) (simp flip: pos_def add: Let_def min_def)
    qed
  qed
qed simp

lemma log_matchingD:
  "log_matching f l \<Longrightarrow> entry_at f n = Some e \<Longrightarrow> entry_at l n = Some e' \<Longrightarrow> le_term e = le_term e'
     \<Longrightarrow> m \<le> n \<Longrightarrow> entry_at f m = Some d \<Longrightarrow> entry_at l m = Some d' \<Longrightarrow> d = d'"
  unfolding log_matching_def by blast

lemma log_matching_after:
  fixes f l :: "'sm Raft"
  assumes match: "log_matching f l" and s: "0 < s" and s': "unat (rf_log_base f) < s" "s \<le> unat (rf_log_base f) + length (rf_log f)"
    and prev: "entry_at f (s - 1) = Some p" "entry_at l (s - 1) = Some p'" "le_term p = le_term p'"
    and es: "\<And>j. j < length es \<Longrightarrow> entry_at l (s + j) = Some (es ! j)"
    and k: "k \<le> length es" "\<And>j. j < k \<Longrightarrow> \<exists>d. entry_at f (s + j) = Some d \<and> le_term d = le_term (es ! j)"
    and f': "rf_log_base f' = rf_log_base f"
      "rf_log f' = (if k = length es then rf_log f else take (s + k - unat (rf_log_base f)) (rf_log f) @ drop k es)"
  shows "log_matching f' l" and "m < s + length es \<Longrightarrow> entry_at f' m = Some d \<Longrightarrow> entry_at l m = Some d' \<Longrightarrow> d = d'"
    and "j < length es \<Longrightarrow> entry_at f' (s + j) = Some (es ! j)"
proof -
  let ?b = "unat (rf_log_base f)"
  have old: "d = d'" if "m < s + k" "entry_at f m = Some d" "entry_at l m = Some d'" for m d d'
  proof (cases k)
    case 0
    show ?thesis by (rule log_matchingD [OF match prev _ that(2,3)]) (use 0 that(1) in simp)
  next
    case (Suc i)
    obtain c where c: "entry_at f (s + i) = Some c" "le_term c = le_term (es ! i)" using k(2) [of i] Suc by blast
    have l: "entry_at l (s + i) = Some (es ! i)" using es [of i] k(1) Suc by simp
    show ?thesis by (rule log_matchingD [OF match c(1) l c(2) _ that(2,3)]) (use Suc that(1) in simp)
  qed
  have len: "s + k - ?b \<le> length (rf_log f)"
  proof (cases k)
    case (Suc i)
    then show ?thesis using k(2) [of i] s' by (auto simp: entry_at_def split: if_splits)
  qed (use s' in simp)
  have below: "entry_at f' m = entry_at f m" if "m < s + k" for m
    using that len s' f' by (auto simp: entry_at_def nth_append)
  have above: "entry_at f' (s + j) = Some (es ! j)" if "k \<le> j" "j < length es" for j
    using that len s' f' by (auto simp: entry_at_def nth_append)
  have top: "entry_at f' m = None" if "k \<noteq> length es" "s + length es \<le> m" for m
    using that len s' f' k(1) by (auto simp: entry_at_def)
  have agree: "d = d'" if "m < s + length es" "entry_at f' m = Some d" "entry_at l m = Some d'" for m d d'
  proof (cases "m < s + k")
    case False
    then have "entry_at f' (s + (m - s)) = Some (es ! (m - s))" "entry_at l (s + (m - s)) = Some (es ! (m - s))"
      using that(1) above [of "m - s"] es [of "m - s"] by (simp_all add: not_less)
    then show ?thesis using that False by simp
  qed (use old below that in simp)
  then show "m < s + length es \<Longrightarrow> entry_at f' m = Some d \<Longrightarrow> entry_at l m = Some d' \<Longrightarrow> d = d'" .
  show "log_matching f' l"
  proof (cases "k = length es")
    case True
    then have eq: "entry_at f' = entry_at f" using f' by (intro entry_at_cong) simp_all
    show ?thesis using match unfolding log_matching_def eq .
  next
    case False
    then have "n < s + length es" if "entry_at f' n = Some e" for n e using top that by (metis not_less option.distinct(1))
    then show ?thesis unfolding log_matching_def using agree by (meson le_less_trans)
  qed
  show "entry_at f' (s + j) = Some (es ! j)" if "j < length es"
  proof (cases "k \<le> j")
    case False
    then obtain d where "entry_at f (s + j) = Some d" using k(2) [of j] by auto
    then show ?thesis using old [of "s + j" d "es ! j"] below [of "s + j"] es [OF that] False by simp
  qed (use above that in simp)
qed

lemma HandleAppendEntries_success:
  fixes f f' :: "'sm Raft"
  assumes "Raft_HandleAppendEntries env sm f req = (resp, f')" and "ar_success resp"
  shows "\<exists>(g :: 'sm Raft) h (h' :: 'sm Raft). append_loop (ae_entries req) g = (True, h) \<and> rf_log g = rf_log f \<and> rf_log_base g = rf_log_base f
     \<and> rf_log h' = rf_log h \<and> rf_log_base h' = rf_log_base h \<and> rf_sm h' = rf_sm f
     \<and> rf_last_applied h' = rf_last_applied f \<and> rf_commit_index h' = rf_commit_index f
     \<and> f' = (if rf_commit_index h' < ae_leader_commit req
             then Raft_ApplyCommitted sm (h'\<lparr>rf_commit_index := min (ae_leader_commit req) (Raft_GetLastLogIndex h')\<rparr>) else h')
     \<and> (0 < ae_prev_log_index req \<longrightarrow> (\<exists>pos. Raft_LogPos f (ae_prev_log_index req) = Some pos
          \<and> le_term (rf_log f ! pos) = ae_prev_log_term req))"
proof -
  let ?g = "(Raft_BecomeFollower env f (ae_term req))\<lparr>rf_leader_id := ae_leader_id req\<rparr>"
  obtain t h where h: "append_loop (ae_entries req) ?g = (t, h)" by fastforce
  have p: "Raft_LogPos ?g = Raft_LogPos f" by (rule LogPos_cong) simp_all
  note d = assms(1) [unfolded Raft_HandleAppendEntries_def Let_def p]
  have 1: "\<not> ae_term req < rf_current_term f" using d assms(2) by (rule_tac notI) auto
  have 2: "\<not> ae_prev_log_index req < rf_last_snapshot_index ?g" using d assms(2) 1 by (rule_tac notI) auto
  have 3: "\<not> (0 < ae_prev_log_index req \<and> Raft_LogPos f (ae_prev_log_index req) = None)"
    using d assms(2) 1 2 by (rule_tac notI) auto
  have 4: "\<not> (0 < ae_prev_log_index req \<and> le_term (rf_log ?g ! the (Raft_LogPos f (ae_prev_log_index req))) \<noteq> ae_prev_log_term req)"
    using d assms(2) 1 2 3 by (rule_tac notI) auto
  note e = d [unfolded if_not_P [OF 1] if_not_P [OF 2] if_not_P [OF 3] if_not_P [OF 4] h prod.case]
  have t: "t" using e assms(2) by (rule_tac ccontr) auto
  define h' where "h' = (if ae_entries req \<noteq> [] then save env h else h)"
  have f': "f' = (if rf_commit_index h' < ae_leader_commit req
       then Raft_ApplyCommitted sm (h'\<lparr>rf_commit_index := min (ae_leader_commit req) (Raft_GetLastLogIndex h')\<rparr>) else h')"
    using e t unfolding h'_def by simp
  obtain log where log: "h = ?g\<lparr>rf_log := log\<rparr>" using append_loop_frame [OF h] by blast
  have h': "rf_log h' = rf_log h" "rf_log_base h' = rf_log_base h" "rf_sm h' = rf_sm f"
      "rf_last_applied h' = rf_last_applied f" "rf_commit_index h' = rf_commit_index f"
    by (simp_all add: h'_def log)
  have ht: "append_loop (ae_entries req) ?g = (True, h)" using h t by simp
  have prev: "0 < ae_prev_log_index req \<longrightarrow> (\<exists>pos. Raft_LogPos f (ae_prev_log_index req) = Some pos
      \<and> le_term (rf_log f ! pos) = ae_prev_log_term req)" using 3 4 by auto
  show ?thesis
    by (rule exI [of _ ?g], rule exI [of _ h], rule exI [of _ h'], intro conjI) (rule ht h' f' prev | simp)+
qed

text \<open>The request that a leader builds for \<open>next_idx\<close> carries a piece of its log.\<close>

lemma append_request_slice:
  fixes hb c t
  assumes "log_wf l" and "log_small l" and "rf_log_base l < next" and "next \<le> Raft_GetLastLogIndex l + 1"
  defines "req \<equiv> append_request l hb c t next"
  shows "\<And>j. j < length (ae_entries req) \<Longrightarrow> entry_at l (unat next + j) = Some (ae_entries req ! j)
      \<and> le_index (ae_entries req ! j) = word_of_nat (unat next + j)"
    and "unat next + length (ae_entries req) < 2 ^ 64"
    and "\<exists>p. entry_at l (unat next - 1) = Some p \<and> le_term p = ae_prev_log_term req"
    and "unat (ae_prev_log_index req) = unat next - 1"
    and "unat next + length (ae_entries req) \<le> unat (rf_log_base l) + length (rf_log l)"
proof -
  let ?b = "unat (rf_log_base l)" and ?log = "rf_log l" and ?n = "unat next"
  have b: "?b < ?n" using assms(3) by (simp add: word_less_nat_alt)
  have n: "?n \<le> ?b + length ?log"
  proof -
    have "next \<le> word_of_nat (?b + length ?log)" using assms(4) next_index [OF assms(1)] by simp
    then show ?thesis using assms(2) by (simp add: word_le_nat_alt log_small_def unsigned_of_nat take_bit_nat_eq_self del: of_nat_add)
  qed
  have pos: "Raft_LogPos l next = (if ?n < ?b + length ?log then Some (?n - ?b) else None)"
    using LogPos_nat [of l ?n] b n assms(2) by (auto simp: log_small_def)
  have len: "ae_entries req = [] \<or> (\<exists>k. ae_entries req = take k (drop (?n - ?b) ?log))"
    by (auto simp: req_def append_request_def pos)
  then have le: "length (ae_entries req) \<le> ?b + length ?log - ?n" using b n by auto
  then show "?n + length (ae_entries req) \<le> ?b + length ?log" using n by simp
  then show "unat next + length (ae_entries req) < 2 ^ 64" using n assms(2) by (simp add: log_small_def)
  show "\<And>j. j < length (ae_entries req) \<Longrightarrow> entry_at l (?n + j) = Some (ae_entries req ! j)
      \<and> le_index (ae_entries req ! j) = word_of_nat (?n + j)"
  proof -
    fix j assume j: "j < length (ae_entries req)"
    then have e: "ae_entries req ! j = ?log ! (?n - ?b + j)" and l: "?n - ?b + j < length ?log" using len le b by auto
    have sum: "?b + (?n - ?b + j) = ?n + j" and dif: "?n + j - ?b = ?n - ?b + j" and up: "?b \<le> ?n + j" "?n + j < ?b + length ?log"
      using b l by auto
    have "le_index (?log ! (?n - ?b + j)) = word_of_nat (?b + (?n - ?b + j))" using assms(1) l by (simp add: log_wf_def)
    then have ix: "le_index (ae_entries req ! j) = word_of_nat (?n + j)" unfolding sum e .
    have "entry_at l (?n + j) = Some (ae_entries req ! j)" unfolding entry_at_def dif e using up by simp
    then show "entry_at l (?n + j) = Some (ae_entries req ! j) \<and> le_index (ae_entries req ! j) = word_of_nat (?n + j)"
      using ix by blast
  qed
  have u: "unat (next - 1) = ?n - 1" using b by (metis gr_implies_not0 unat_0 unat_minus_one unat_eq_zero)
  then show "unat (ae_prev_log_index req) = ?n - 1" by (simp add: req_def append_request_def)
  have "entry_at l (?n - 1) = Some (?log ! (?n - 1 - ?b))" using b n by (auto simp: entry_at_def)
  moreover have "Raft_LogPos l (next - 1) = Some (?n - 1 - ?b)"
    using LogPos_nat [of l "unat (next - 1)"] b n assms(2) unfolding u log_small_def by (auto simp flip: u)
  ultimately show "\<exists>p. entry_at l (?n - 1) = Some p \<and> le_term p = ae_prev_log_term req"
    by (simp add: req_def append_request_def Raft_GetTermForIndex_def)
qed

lemma append_matches:
  fixes f l :: "'sm Raft"
  assumes "log_wf l" and "log_small l" and "log_small f" and "log_matching f l"
    and "rf_log_base l < next" and "next \<le> Raft_GetLastLogIndex l + 1"
    and "next = 1 \<Longrightarrow> entry_at f 0 = Some dummy_entry \<and> entry_at l 0 = Some dummy_entry"
    and "Raft_HandleAppendEntries env sm f (append_request l hb commit tm next) = (resp, f')" and "ar_success resp"
  defines "es \<equiv> ae_entries (append_request l hb commit tm next)"
  shows "\<exists>h'. log_matching h' l \<and> (\<forall>j < length es. entry_at h' (unat next + j) = Some (es ! j))
     \<and> (\<forall>m d d'. m < unat next + length es \<longrightarrow> entry_at h' m = Some d \<longrightarrow> entry_at l m = Some d' \<longrightarrow> d = d')
     \<and> log_small h' \<and> unat next + length es \<le> unat (rf_log_base h') + length (rf_log h') \<and> rf_log_base h' = rf_log_base f
     \<and> rf_sm h' = rf_sm f \<and> rf_last_applied h' = rf_last_applied f \<and> rf_commit_index h' = rf_commit_index f
     \<and> f' = (if rf_commit_index h' < commit
             then Raft_ApplyCommitted sm (h'\<lparr>rf_commit_index := min commit (Raft_GetLastLogIndex h')\<rparr>) else h')"
proof -
  let ?req = "append_request l hb commit tm next" and ?s = "unat next"
  note sl = append_request_slice [OF assms(1,2,5,6), where hb = hb and c = commit and t = tm]
  obtain g h h' :: "'sm Raft" where g: "append_loop es g = (True, h)" "rf_log g = rf_log f" "rf_log_base g = rf_log_base f"
      "rf_log h' = rf_log h" "rf_log_base h' = rf_log_base h" and st: "rf_sm h' = rf_sm f"
      "rf_last_applied h' = rf_last_applied f" "rf_commit_index h' = rf_commit_index f"
      "f' = (if rf_commit_index h' < ae_leader_commit ?req
         then Raft_ApplyCommitted sm (h'\<lparr>rf_commit_index := min (ae_leader_commit ?req) (Raft_GetLastLogIndex h')\<rparr>) else h')"
      and g6: "0 < ae_prev_log_index ?req \<longrightarrow> (\<exists>pos. Raft_LogPos f (ae_prev_log_index ?req) = Some pos \<and> le_term (rf_log f ! pos) = ae_prev_log_term ?req)"
    using HandleAppendEntries_success [OF assms(8,9)] unfolding es_def by blast
  obtain p' where p': "entry_at l (?s - 1) = Some p'" "le_term p' = ae_prev_log_term ?req" using sl(3) by blast
  have s0: "0 < ?s" using assms(5) by (simp add: word_less_nat_alt)
  obtain p where p: "entry_at f (?s - 1) = Some p" "le_term p = le_term p'"
  proof (cases "next = 1")
    case True
    then show ?thesis using assms(7) p'(1) that by simp
  next
    case False
    have "0 < ae_prev_log_index ?req" using False by (simp add: append_request_def word_neq_0_conv [symmetric])
    then obtain pos where "Raft_LogPos f (ae_prev_log_index ?req) = Some pos" "le_term (rf_log f ! pos) = ae_prev_log_term ?req"
      using g6 by blast
    then show ?thesis using LogPos_entry_at [OF assms(3), of "ae_prev_log_index ?req"] p'(2) sl(4) that [of "rf_log f ! pos"] by simp
  qed
  have s: "unat (rf_log_base f) < ?s" "?s \<le> unat (rf_log_base f) + length (rf_log f)"
    using p(1) s0 by (auto simp: entry_at_def split: if_splits)
  have ga: "entry_at g = entry_at f" using g(2,3) by (rule entry_at_cong)
  obtain k where k: "k \<le> length es" "append_loop es g = (True, g\<lparr>rf_log := if k = length es then rf_log g
      else take (?s + k - unat (rf_log_base g)) (rf_log g) @ drop k es\<rparr>)"
      "\<forall>j < k. \<exists>d. entry_at g (?s + j) = Some d \<and> le_term d = le_term (es ! j)"
    using append_loop_result [of g ?s es] sl(1,2) s assms(3) g(2,3) unfolding es_def [symmetric] log_small_def by auto
  have h': "rf_log_base h' = rf_log_base f" "rf_log h' = (if k = length es then rf_log f
      else take (?s + k - unat (rf_log_base f)) (rf_log f) @ drop k es)"
    using k(2) g by auto
  have es: "\<And>j. j < length es \<Longrightarrow> entry_at l (?s + j) = Some (es ! j)" using sl(1) by (simp add: es_def)
  have kf: "\<And>j. j < k \<Longrightarrow> \<exists>d. entry_at f (?s + j) = Some d \<and> le_term d = le_term (es ! j)" using k(3) by (simp add: ga)
  note after = log_matching_after [OF assms(4) s0 s p(1) p'(1) p(2) es k(1) kf h']
  have lc: "ae_leader_commit ?req = commit" by (simp add: append_request_def)
  have last: "?s + length es \<le> unat (rf_log_base h') + length (rf_log h')"
  proof (cases "length es")
    case (Suc i)
    then show ?thesis using after(3) [of i] by (auto simp: entry_at_def split: if_splits)
  qed (use s h' k(1) in simp)
  have small: "log_small h'" using assms(3) sl(2) s h' k(1) unfolding es_def [symmetric] by (auto simp: log_small_def)
  show ?thesis by (rule exI [of _ h'], intro conjI allI impI; (rule after(1) small last h' st st(4) [unfolded lc])?) (use after(2,3) in blast)+
qed

text \<open>C10: log matching. A leader \<open>l\<close> sends a follower \<open>f\<close> the entries from \<open>next\<close> on, and the logs of
  the two satisfy log matching (entries with the same index and term have equal logs up to them). If
  \<open>HandleAppendEntries\<close> reports success, log matching still holds, the follower holds every entry of
  the request at its index, and up to the last of them its log is the leader's.\<close>

theorem raft_append_matches_leader:
  fixes f l :: "'sm Raft"
  assumes "log_wf l" and "log_small l" and "log_small f" and "log_matching f l"
    and "rf_log_base l < next" and "next \<le> Raft_GetLastLogIndex l + 1"
    and "next = 1 \<Longrightarrow> entry_at f 0 = Some dummy_entry \<and> entry_at l 0 = Some dummy_entry"
    and "Raft_HandleAppendEntries env sm f (append_request l is_heartbeat commit tm next) = (resp, f')" and "ar_success resp"
  defines "es \<equiv> ae_entries (append_request l is_heartbeat commit tm next)"
  shows "log_matching f' l \<and> (\<forall>j < length es. entry_at f' (unat next + j) = Some (es ! j))
     \<and> (\<forall>m d d'. m < unat next + length es \<longrightarrow> entry_at f' m = Some d \<longrightarrow> entry_at l m = Some d' \<longrightarrow> d = d')"
proof -
  obtain h' where "log_matching h' l \<and> (\<forall>j < length es. entry_at h' (unat next + j) = Some (es ! j))
     \<and> (\<forall>m d d'. m < unat next + length es \<longrightarrow> entry_at h' m = Some d \<longrightarrow> entry_at l m = Some d' \<longrightarrow> d = d')"
     "f' = (if rf_commit_index h' < commit
             then Raft_ApplyCommitted sm (h'\<lparr>rf_commit_index := min commit (Raft_GetLastLogIndex h')\<rparr>) else h')"
    using append_matches [OF assms(1-9)] unfolding es_def [symmetric] by blast
  moreover from this(2) have "entry_at f' = entry_at h'" by (auto intro: entry_at_cong)
  ultimately show ?thesis by (simp only: log_matching_def)
qed

subsection \<open>The state machine\<close>

text \<open>The commands among the entries with the given indices, and a state machine that is given them in
  order: the specification of \<open>ApplyCommitted\<close>.\<close>

definition commands_at :: "'sm Raft \<Rightarrow> nat list \<Rightarrow> bytes list" where
  "commands_at r ns = concat (map (\<lambda>n. case entry_at r n of
     Some e \<Rightarrow> if le_type e = kCommand then [le_data e] else [] | None \<Rightarrow> []) ns)"

definition apply_commands :: "'sm RaftStateMachine \<Rightarrow> bytes list \<Rightarrow> 'sm \<Rightarrow> 'sm" where
  "apply_commands sm cs st = foldl (\<lambda>st c. snd (sm_Apply sm c st)) st cs"

lemma apply_commands_simps [simp]:
  "apply_commands sm [] st = st" "apply_commands sm (c # cs) st = apply_commands sm cs (snd (sm_Apply sm c st))"
  by (simp_all add: apply_commands_def)

lemma commands_at_simps [simp]:
  "commands_at r [] = []"
  "commands_at r (n # ns) = (case entry_at r n of Some e \<Rightarrow> if le_type e = kCommand then [le_data e] else [] | None \<Rightarrow> [])
     @ commands_at r ns"
  by (simp_all add: commands_at_def)

lemma commands_at_cong: "(\<And>n. n \<in> set ns \<Longrightarrow> entry_at r n = entry_at r' n) \<Longrightarrow> commands_at r ns = commands_at r' ns"
  unfolding commands_at_def by (intro arg_cong [of _ _ concat] map_cong) simp_all

lemma ApplyCommitted_state:
  "log_small r \<Longrightarrow> rf_sm (Raft_ApplyCommitted sm r)
       = apply_commands sm (commands_at r [Suc (unat (rf_last_applied r))..<Suc (unat (rf_commit_index r))]) (rf_sm r)
     \<and> rf_last_applied (Raft_ApplyCommitted sm r) = max (rf_last_applied r) (rf_commit_index r)"
proof (induction sm r rule: Raft_ApplyCommitted.induct)
  case (1 sm r)
  let ?a = "unat (rf_last_applied r)" and ?c = "unat (rf_commit_index r)" and ?n = "rf_last_applied r + 1"
  show ?case
  proof (cases "rf_last_applied r < rf_commit_index r")
    case False
    then have "?c \<le> ?a" by (simp add: word_less_nat_alt)
    then show ?thesis using False by (subst (1 2) Raft_ApplyCommitted.simps) (simp add: max_def)
  next
    case True
    note IH = "1.IH" [OF True refl]
    have n: "unat ?n = Suc ?a" by (rule unat_Suc_less [OF True])
    have lt: "?a < ?c" using True by (simp add: word_less_nat_alt)
    have up: "[Suc ?a..<Suc ?c] = Suc ?a # [Suc (Suc ?a)..<Suc ?c]" using lt by (simp add: upt_conv_Cons)
    have mx: "max ?n (rf_commit_index r) = rf_commit_index r" "max (rf_last_applied r) (rf_commit_index r) = rf_commit_index r"
      using True n lt by (simp_all add: max_def word_le_nat_alt word_less_nat_alt)
    have small: "log_small (r\<lparr>rf_last_applied := x, rf_sm := y, rf_slots := z\<rparr>)" "log_small (r\<lparr>rf_last_applied := x\<rparr>)" for x y z
      using "1.prems" by (simp_all add: log_small_def)
    have cm: "commands_at (r\<lparr>rf_last_applied := x, rf_sm := y, rf_slots := z\<rparr>) ns = commands_at r ns"
        "commands_at (r\<lparr>rf_last_applied := x\<rparr>) ns = commands_at r ns" for x y z ns
      by (intro commands_at_cong, simp add: entry_at_def)+
    have at: "map_option ((!) (rf_log r)) (Raft_LogPos r ?n) = entry_at r (Suc ?a)"
      using LogPos_entry_at [OF "1.prems", of ?n] by (simp add: n)
    show ?thesis
    proof (cases "Raft_LogPos r ?n")
      case None
      then show ?thesis using True IH(1) [OF None small(2)] at up
        by (subst (1 2) Raft_ApplyCommitted.simps) (simp add: Let_def n cm mx)
    next
      case (Some pos)
      have e: "entry_at r (Suc ?a) = Some (rf_log r ! pos)" using at Some by simp
      show ?thesis
      proof (cases "le_type (rf_log r ! pos) = kCommand")
        case False
        then show ?thesis using True Some IH(3) [OF Some refl False small(2)] e up
          by (subst (1 2) Raft_ApplyCommitted.simps) (simp add: Let_def n cm mx)
      next
        case cmd: True
        obtain res st where ap: "sm_Apply sm (le_data (rf_log r ! pos)) (rf_sm r) = (res, st)" by fastforce
        show ?thesis using True Some cmd ap IH(2) [OF Some refl cmd ap [symmetric] refl refl small(1)] e up
          by (subst (1 2) Raft_ApplyCommitted.simps) (simp add: Let_def n cm mx)
      qed
    qed
  qed
qed

lemma LastLogIndex_nat:
  assumes "log_small r" and "0 < unat (rf_log_base r) + length (rf_log r)"
  shows "unat (Raft_GetLastLogIndex r) = unat (rf_log_base r) + length (rf_log r) - 1"
proof -
  let ?n = "unat (rf_log_base r) + length (rf_log r)"
  obtain m where m: "?n = Suc m" using assms(2) by (cases ?n) simp_all
  have "Raft_GetLastLogIndex r = word_of_nat ?n - 1" by (simp add: Raft_GetLastLogIndex_def Raft_LastLogIndex_def)
  then have "Raft_GetLastLogIndex r = word_of_nat (?n - 1)" unfolding m by simp
  then show ?thesis using assms(1) by (simp add: log_small_def unsigned_of_nat take_bit_nat_eq_self del: of_nat_diff)
qed

text \<open>C11: replicated state. In the exchange of the log matching property, let the commit index that the
  leader announces be covered by the request and not yet be the follower's. Then the follower applies
  exactly the leader's commands after its own last applied one up to that index, in the order of the
  leader's log.\<close>

theorem raft_replicated_state:
  fixes f l :: "'sm Raft"
  assumes "log_wf l" and "log_small l" and "log_small f" and "log_matching f l"
    and "rf_log_base l < next" and "next \<le> Raft_GetLastLogIndex l + 1"
    and "next = 1 \<Longrightarrow> entry_at f 0 = Some dummy_entry \<and> entry_at l 0 = Some dummy_entry"
    and "Raft_HandleAppendEntries env sm f (append_request l is_heartbeat commit tm next) = (resp, f')" and "ar_success resp"
    and "rf_commit_index f < commit"
    and "unat commit < unat next + length (ae_entries (append_request l is_heartbeat commit tm next))"
    and "rf_log_base f \<le> rf_last_applied f" and "rf_log_base l \<le> rf_last_applied f" and "rf_last_applied f \<le> commit"
  shows "rf_commit_index f' = commit \<and> rf_last_applied f' = commit
     \<and> rf_sm f' = apply_commands sm (commands_at l [Suc (unat (rf_last_applied f))..<Suc (unat commit)]) (rf_sm f)"
proof -
  define es where "es = ae_entries (append_request l is_heartbeat commit tm next)"
  obtain h' where h': "\<forall>m d d'. m < unat next + length es \<longrightarrow> entry_at h' m = Some d \<longrightarrow> entry_at l m = Some d' \<longrightarrow> d = d'"
      "log_small h'" "unat next + length es \<le> unat (rf_log_base h') + length (rf_log h')" "rf_log_base h' = rf_log_base f"
      "rf_sm h' = rf_sm f" "rf_last_applied h' = rf_last_applied f" "rf_commit_index h' = rf_commit_index f"
      "f' = (if rf_commit_index h' < commit
             then Raft_ApplyCommitted sm (h'\<lparr>rf_commit_index := min commit (Raft_GetLastLogIndex h')\<rparr>) else h')"
    using append_matches [OF assms(1-9)] unfolding es_def [symmetric] by blast
  have c: "unat commit < unat next + length es" using assms(11) by (simp add: es_def)
  have "unat (Raft_GetLastLogIndex h') = unat (rf_log_base h') + length (rf_log h') - 1"
    using h'(2,3) c by (intro LastLogIndex_nat) auto
  then have mn: "min commit (Raft_GetLastLogIndex h') = commit" using c h'(3) by (auto simp: min_def word_le_nat_alt)
  let ?h = "h'\<lparr>rf_commit_index := commit\<rparr>" and ?ns = "[Suc (unat (rf_last_applied f))..<Suc (unat commit)]"
  have f': "f' = Raft_ApplyCommitted sm ?h" using h'(7,8) mn assms(10) by simp
  have top: "unat next + length es \<le> unat (rf_log_base l) + length (rf_log l)"
    using append_request_slice(5) [OF assms(1,2,5,6)] by (simp add: es_def)
  have "entry_at ?h n = entry_at l n" if "n \<in> set ?ns" for n
  proof -
    have r: "unat (rf_log_base f) \<le> n" "unat (rf_log_base l) \<le> n" "n < unat next + length es"
      using that c assms(12,13) by (auto simp: word_le_nat_alt)
    have h: "entry_at ?h n = entry_at h' n" by (simp add: entry_at_def)
    obtain d d' where "entry_at h' n = Some d" "entry_at l n = Some d'" using r h'(3,4) top by (auto simp: entry_at_def)
    then show ?thesis using h h'(1) r(3) by auto
  qed
  then have cm: "commands_at ?h ?ns = commands_at l ?ns" by (rule commands_at_cong)
  have "log_small ?h" using h'(2) by (simp add: log_small_def)
  from ApplyCommitted_state [OF this, of sm] show ?thesis
    using assms(14) by (simp add: f' cm h'(5,6) max_def del: upt_Suc)
qed

subsection \<open>Quorums\<close>

text \<open>What elections and commitment rely on: two quorums have a member in common.\<close>

locale quorum_system =
  fixes quorum :: "'n set \<Rightarrow> bool"
  assumes meet: "quorum A \<Longrightarrow> quorum B \<Longrightarrow> A \<inter> B \<noteq> {}"
begin

lemma not_disjoint: "quorum A \<Longrightarrow> quorum B \<Longrightarrow> \<exists>n. n \<in> A \<and> n \<in> B"
  using meet by blast

lemma one_choice:
  assumes "quorum A" and "quorum B" and "\<And>n. n \<in> A \<Longrightarrow> choice n a" and "\<And>n. n \<in> B \<Longrightarrow> choice n b"
    and "\<And>n. choice n a \<Longrightarrow> choice n b \<Longrightarrow> a = b"
  shows "a = b"
  using assms not_disjoint by blast

end

text \<open>The majority of \<open>StartElection\<close> and of \<open>AdvanceCommitIndex\<close>.\<close>

definition voter_ids :: "RaftPeer list \<Rightarrow> u64 set" where
  "voter_ids ps = pr_id ` set (filter pr_is_voter ps)"

definition voter_quorum :: "RaftPeer list \<Rightarrow> u64 set \<Rightarrow> bool" where
  "voter_quorum ps A \<longleftrightarrow> A \<subseteq> voter_ids ps \<and> voter_count ps div 2 + 1 \<le> card A"

lemma voter_ids_card: "card (voter_ids ps) \<le> voter_count ps" "finite (voter_ids ps)"
  using card_image_le [of "set (filter pr_is_voter ps)" pr_id] card_length [of "filter pr_is_voter ps"]
  by (simp_all add: voter_ids_def voter_count_def)

interpretation voters: quorum_system "voter_quorum ps" for ps
proof
  fix A B assume q: "voter_quorum ps A" "voter_quorum ps B"
  show "A \<inter> B \<noteq> {}"
  proof
    assume d: "A \<inter> B = {}"
    have f: "finite A" "finite B" using q voter_ids_card(2) [of ps] by (auto simp: voter_quorum_def dest: finite_subset)
    have "card A + card B = card (A \<union> B)" using f d by (simp add: card_Un_disjoint)
    also have "\<dots> \<le> card (voter_ids ps)" using q by (intro card_mono) (auto simp: voter_quorum_def voter_ids_card)
    also have "\<dots> \<le> voter_count ps" by (rule voter_ids_card)
    finally show False using q by (auto simp: voter_quorum_def)
  qed
qed

subsection \<open>Commitment\<close>

text \<open>The voters that hold the leader's entry \<open>n\<close> as far as the leader knows.\<close>

definition holders :: "'sm Raft \<Rightarrow> u64 \<Rightarrow> u64 set" where
  "holders r n = insert (ro_node_id (rf_opts r)) {pr_id (ro_peers (rf_opts r) ! i) | i. i < length (ro_peers (rf_opts r))
     \<and> pr_is_voter (ro_peers (rf_opts r) ! i) \<and> pr_id (ro_peers (rf_opts r) ! i) \<noteq> ro_node_id (rf_opts r) \<and> n \<le> rf_match_index r ! i}"

lemma card_holders:
  assumes "distinct (map pr_id (ro_peers (rf_opts r)))"
  shows "card (holders r n) = replicated_count r n"
proof -
  let ?ps = "ro_peers (rf_opts r)" and ?self = "ro_node_id (rf_opts r)"
  let ?I = "filter (\<lambda>i. pr_id (?ps ! i) \<noteq> ?self \<and> pr_is_voter (?ps ! i) \<and> n \<le> rf_match_index r ! i) [0..<length ?ps]"
  have inj: "inj_on (\<lambda>i. pr_id (?ps ! i)) (set ?I)"
    using assms by (auto simp: inj_on_def distinct_conv_nth)
  have h: "holders r n = insert ?self ((\<lambda>i. pr_id (?ps ! i)) ` set ?I)" by (auto simp: holders_def)
  have "?self \<notin> (\<lambda>i. pr_id (?ps ! i)) ` set ?I" by auto
  moreover have "card ((\<lambda>i. pr_id (?ps ! i)) ` set ?I) = length ?I"
    using card_image [OF inj] distinct_card [of ?I] by simp
  ultimately show ?thesis unfolding h replicated_count_def by simp
qed

lemma commit_loop_result:
  "\<exists>c. commit_loop ns r = r\<lparr>rf_commit_index := c\<rparr> \<and> (c = rf_commit_index r \<or> c \<in> set ns
     \<and> (\<exists>pos. Raft_LogPos r c = Some pos \<and> le_term (rf_log r ! pos) = rf_current_term r) \<and> commit_majority r \<le> replicated_count r c)"
proof (induction ns arbitrary: r)
  case Nil
  then show ?case by (intro exI [of _ "rf_commit_index r"]) simp
next
  case (Cons n ns)
  let ?r = "r\<lparr>rf_commit_index := n\<rparr>"
  have same: "Raft_LogPos ?r = Raft_LogPos r" "commit_majority ?r = commit_majority r" "replicated_count ?r = replicated_count r"
    by (simp_all add: Raft_LogPos_def commit_majority_def replicated_count_def fun_eq_iff)
  have stop: ?case if "commit_loop (n # ns) r = r" using that by (intro exI [of _ "rf_commit_index r"]) simp
  have skip: ?case if "commit_loop (n # ns) r = commit_loop ns r" using Cons.IH [of r] that by auto
  show ?case
  proof (cases "\<exists>pos. Raft_LogPos r n = Some pos \<and> le_term (rf_log r ! pos) = rf_current_term r")
    case True
    then show ?thesis
      using Cons.IH [of ?r] same stop by (cases "commit_majority r \<le> replicated_count r n") auto
  next
    case False
    then show ?thesis by (intro skip) (auto split: option.splits)
  qed
qed


subsection \<open>Elections\<close>

text \<open>The voters that answer a request with their vote.\<close>

definition supporters :: "'sm vote_rpc \<Rightarrow> RequestVoteRequest \<Rightarrow> u64 \<Rightarrow> RaftPeer list \<Rightarrow> u64 set" where
  "supporters rpc req self ps = {pr_id p | p. p \<in> set ps \<and> pr_is_voter p \<and> pr_id p \<noteq> self
     \<and> (\<exists>x. vr_vote_granted (fst (rpc (pr_id p) req x)))}"

lemma supporters_Cons:
  "supporters rpc req self (p # ps) = (if pr_is_voter p \<and> pr_id p \<noteq> self \<and> (\<exists>x. vr_vote_granted (fst (rpc (pr_id p) req x)))
     then insert (pr_id p) (supporters rpc req self ps) else supporters rpc req self ps)"
  by (auto simp: supporters_def)

lemma finite_supporters [simp]: "finite (supporters rpc req self ps)"
  by (rule finite_subset [of _ "pr_id ` set ps"]) (auto simp: supporters_def)

lemma BecomeLeader_role [simp]: "rf_role (Raft_BecomeLeader env r) = kLeader"
  by (simp add: Raft_BecomeLeader_def Let_def)

lemma election_loop_supporters:
  assumes rpc: "\<And>p q x. rf_role x \<noteq> kLeader \<Longrightarrow> rf_role (snd (rpc p q x)) \<noteq> kLeader" "\<And>p q x. rf_opts (snd (rpc p q x)) = rf_opts x"
  shows "distinct (map pr_id ps) \<Longrightarrow> rf_role r \<noteq> kLeader \<Longrightarrow> rf_role (election_loop env rpc req m ps v r) = kLeader
     \<Longrightarrow> m \<le> v + card (supporters rpc req (ro_node_id (rf_opts r)) ps)"
proof (induction ps arbitrary: v r)
  case (Cons p ps)
  let ?self = "ro_node_id (rf_opts r)"
  obtain resp s where s: "rpc (pr_id p) req r = (resp, s)" by fastforce
  have o: "rf_opts s = rf_opts r" and nl: "rf_role s \<noteq> kLeader"
    using rpc(1) [OF Cons.prems(2), of "pr_id p" req] rpc(2) [of "pr_id p" req r] s by auto
  have mono: "card (supporters rpc req ?self ps) \<le> card (supporters rpc req ?self (p # ps))"
    by (rule card_mono) (auto simp: supporters_Cons)
  note IH = Cons.IH [of s "v + 1"] Cons.IH [of s v]
  show ?case
  proof (cases "pr_id p = ?self \<or> \<not> pr_is_voter p")
    case True
    then show ?thesis using Cons.prems Cons.IH [of r v] mono by simp
  next
    case remote: False
    show ?thesis
    proof (cases "vr_vote_granted resp")
      case True
      have new: "pr_id p \<notin> supporters rpc req ?self ps" using Cons.prems(1) by (auto simp: supporters_def)
      have "\<exists>x. vr_vote_granted (fst (rpc (pr_id p) req x))" using True s by (intro exI [of _ r]) simp
      then have "card (supporters rpc req ?self (p # ps)) = Suc (card (supporters rpc req ?self ps))"
        using remote new by (simp add: supporters_Cons)
      then show ?thesis using Cons.prems remote s True nl IH(1) o by (auto split: if_splits)
    next
      case False
      then show ?thesis using Cons.prems remote s nl IH(2) o mono by (auto split: if_splits)
    qed
  qed
qed (auto split: if_splits)

lemma StartElection_quorum:
  fixes r :: "'sm Raft"
  assumes rpc: "\<And>p q x. rf_role x \<noteq> kLeader \<Longrightarrow> rf_role (snd (rpc p q x)) \<noteq> kLeader" "\<And>p q x. rf_opts (snd (rpc p q x)) = rf_opts x"
    and "distinct (map pr_id (ro_peers (rf_opts r)))" and self: "ro_node_id (rf_opts r) \<in> voter_ids (ro_peers (rf_opts r))"
    and "rf_role r \<noteq> kLeader" and lead: "rf_role (Raft_StartElection env rpc r) = kLeader"
  shows "\<exists>req. rv_term req = rf_current_term r \<and> rv_candidate_id req = ro_node_id (rf_opts r)
     \<and> voter_quorum (ro_peers (rf_opts r)) (insert (ro_node_id (rf_opts r)) (supporters rpc req (ro_node_id (rf_opts r)) (ro_peers (rf_opts r))))"
proof -
  let ?ps = "ro_peers (rf_opts r)" and ?self = "ro_node_id (rf_opts r)"
  let ?req = "\<lparr>rv_term = rf_current_term r, rv_candidate_id = ?self,
     rv_last_log_index = Raft_GetLastLogIndex r, rv_last_log_term = Raft_GetLastLogTerm r\<rparr>"
  let ?S = "supporters rpc ?req ?self ?ps"
  have "voter_count ?ps div 2 + 1 \<le> 1 + card ?S"
    by (rule election_loop_supporters [of rpc, OF rpc assms(3,5)]) (use lead in \<open>simp_all add: Raft_StartElection_def Let_def\<close>)
  moreover have "?self \<notin> ?S" by (auto simp: supporters_def)
  moreover have "insert ?self ?S \<subseteq> voter_ids ?ps" using self by (auto simp: supporters_def voter_ids_def)
  ultimately have "voter_quorum ?ps (insert ?self ?S)" by (simp add: voter_quorum_def)
  then show ?thesis by (intro exI [of _ ?req]) simp
qed


text \<open>The answers of a node to a sequence of vote requests.\<close>

fun vote_run :: "Env \<Rightarrow> 'sm Raft \<Rightarrow> RequestVoteRequest list \<Rightarrow> RequestVoteResponse list" where
  "vote_run env r [] = []"
| "vote_run env r (q # qs) = (let (resp, r) = Raft_HandleRequestVote env r q in resp # vote_run env r qs)"

lemma HandleRequestVote_granted:
  assumes "Raft_HandleRequestVote env r q = (resp, r')"
  shows "vr_vote_granted resp \<Longrightarrow> rf_current_term r' = rv_term q \<and> rf_voted_for r' = rv_candidate_id q"
    and "rf_current_term r \<le> rf_current_term r'"
    and "rf_current_term r' = rf_current_term r \<Longrightarrow> rf_voted_for r \<noteq> 0 \<Longrightarrow> rf_voted_for r' = rf_voted_for r"
    and "vr_vote_granted resp \<Longrightarrow> rv_term q = rf_current_term r \<Longrightarrow> rf_voted_for r \<noteq> 0 \<Longrightarrow> rv_candidate_id q = rf_voted_for r"
  using assms by (auto simp: Raft_HandleRequestVote_def Let_def not_less split: if_splits)

lemma vote_run_term:
  "j < length qs \<Longrightarrow> vr_vote_granted (vote_run env r qs ! j) \<Longrightarrow> rf_current_term r \<le> rv_term (qs ! j)"
proof (induction qs arbitrary: r j)
  case (Cons q qs)
  obtain resp r' where h: "Raft_HandleRequestVote env r q = (resp, r')" by fastforce
  note g = HandleRequestVote_granted [OF h]
  show ?case
  proof (cases j)
    case 0
    then show ?thesis using Cons.prems g(1,2) h by simp
  next
    case (Suc i)
    then show ?thesis using Cons.prems Cons.IH [of i r'] g(2) h by (simp add: order_trans)
  qed
qed simp

lemma vote_run_bound:
  "j < length qs \<Longrightarrow> vr_vote_granted (vote_run env r qs ! j) \<Longrightarrow> rf_voted_for r \<noteq> 0
     \<Longrightarrow> rv_term (qs ! j) = rf_current_term r \<Longrightarrow> rv_candidate_id (qs ! j) = rf_voted_for r"
proof (induction qs arbitrary: r j)
  case (Cons q qs)
  obtain resp r' where h: "Raft_HandleRequestVote env r q = (resp, r')" by fastforce
  note g = HandleRequestVote_granted [OF h]
  show ?case
  proof (cases j)
    case 0
    then show ?thesis using Cons.prems g(4) h by simp
  next
    case (Suc i)
    have v: "vr_vote_granted (vote_run env r' qs ! i)" "i < length qs" "rv_term (qs ! i) = rf_current_term r"
      using Cons.prems Suc h by simp_all
    have "rf_current_term r' \<le> rv_term (qs ! i)" by (rule vote_run_term [OF v(2,1)])
    then have "rf_current_term r' = rf_current_term r" using v(3) g(2) by simp
    then show ?thesis using Cons.IH [OF v(2,1)] v(3) g(3) Cons.prems(3) Suc by simp
  qed
qed simp

text \<open>C23: one vote. As long as a node handles vote requests only, it grants at most one candidate its
  vote in a term.\<close>

theorem raft_vote_once:
  fixes r :: "'sm Raft"
  assumes "i < j" and "j < length qs" and "vr_vote_granted (vote_run env r qs ! i)" and "vr_vote_granted (vote_run env r qs ! j)"
    and "rv_term (qs ! i) = rv_term (qs ! j)" and "rv_candidate_id (qs ! i) \<noteq> 0"
  shows "rv_candidate_id (qs ! i) = rv_candidate_id (qs ! j)"
  using assms
proof (induction qs arbitrary: r i j)
  case (Cons q qs)
  obtain resp r' where h: "Raft_HandleRequestVote env r q = (resp, r')" by fastforce
  obtain k where k: "j = Suc k" "k < length qs" using Cons.prems(1,2) by (cases j) auto
  show ?case
  proof (cases i)
    case 0
    have "rf_current_term r' = rv_term q" "rf_voted_for r' = rv_candidate_id q"
      using HandleRequestVote_granted(1) [OF h] Cons.prems(3) 0 h by simp_all
    then show ?thesis using vote_run_bound [OF k(2), of env r'] Cons.prems 0 k h by simp
  next
    case (Suc m)
    then show ?thesis using Cons.IH [of m k r'] Cons.prems k h by simp
  qed
qed simp

subsection \<open>Snapshot transfer\<close>

text \<open>The requests of a transfer, and a node that handles them one after the other.\<close>

fun chunk_requests :: "u64 \<Rightarrow> u64 \<Rightarrow> u64 \<Rightarrow> u64 \<Rightarrow> nat \<Rightarrow> nat \<Rightarrow> bytes list \<Rightarrow> InstallSnapshotChunkRequest list" where
  "chunk_requests tm lid si st n off [] = []"
| "chunk_requests tm lid si st n off (c # cs) =
     \<lparr>ic_term = tm, ic_leader_id = lid, ic_last_included_index = si, ic_last_included_term = st, ic_chunk_offset = word_of_nat off,
      ic_total_size = word_of_nat n, ic_is_last = (n \<le> off + length c), ic_data = c\<rparr> # chunk_requests tm lid si st n (off + length c) cs"

fun chunk_run :: "Env \<Rightarrow> 'sm RaftStateMachine \<Rightarrow> 'sm Raft \<Rightarrow> InstallSnapshotChunkRequest list \<Rightarrow> InstallSnapshotChunkResponse list \<times> 'sm Raft" where
  "chunk_run env sm r [] = ([], r)"
| "chunk_run env sm r (q # qs) = (let (resp, r) = Raft_HandleInstallSnapshotChunk env sm r q;
     (resps, r) = chunk_run env sm r qs in (resp # resps, r))"

definition staged :: "u64 \<Rightarrow> u64 \<Rightarrow> u64 \<Rightarrow> nat \<Rightarrow> bytes \<Rightarrow> 'sm Raft \<Rightarrow> bool" where
  "staged tm si st n p r \<longleftrightarrow> rf_current_term r \<le> tm \<and> (p = [] \<or> (sg_active (rf_snapshot_staging r)
     \<and> sg_last_included_index (rf_snapshot_staging r) = si \<and> sg_last_included_term (rf_snapshot_staging r) = st
     \<and> sg_expected_size (rf_snapshot_staging r) = word_of_nat n \<and> sg_buffer (rf_snapshot_staging r) = p))"

lemma chunk_step:
  fixes r :: "'sm Raft" and lid :: u64 and l :: bool
  assumes st: "staged tm si st n p r" and c: "c \<noteq> []" "length p + length c \<le> n" "n < 2 ^ 64"
    and mx: "word_of_nat n \<le> ro_max_snapshot_size (rf_opts r)"
  defines "q \<equiv> \<lparr>ic_term = tm, ic_leader_id = lid, ic_last_included_index = si, ic_last_included_term = st,
     ic_chunk_offset = word_of_nat (length p), ic_total_size = word_of_nat n, ic_is_last = l, ic_data = c\<rparr>"
  shows "length p + length c < n \<Longrightarrow> \<exists>resp r'. Raft_HandleInstallSnapshotChunk env sm r q = (resp, r') \<and> \<not> cr_rejected resp
       \<and> \<not> cr_complete resp \<and> cr_accepted_len resp = word_of_nat (length p + length c)
       \<and> staged tm si st n (p @ c) r' \<and> rf_sm r' = rf_sm r \<and> rf_opts r' = rf_opts r"
    and "length p + length c = n \<Longrightarrow> sm_ApplySnapshot sm (p @ c) (rf_sm r) = (s, sm') \<Longrightarrow> ok s \<Longrightarrow>
       \<exists>resp r'. Raft_HandleInstallSnapshotChunk env sm r q = (resp, r') \<and> \<not> cr_rejected resp \<and> cr_complete resp
       \<and> rf_sm r' = sm' \<and> rf_commit_index r' = si \<and> rf_last_applied r' = si \<and> rf_snapshot_data r' = p @ c
       \<and> rf_log r' = [\<lparr>le_index = si, le_term = st, le_type = kNoOp, le_data = []\<rparr>] \<and> rf_log_base r' = si"
proof -
  define r1 where "r1 = (if rf_current_term r < tm then Raft_BecomeFollower env r tm else r)"
  define sg where "sg = rf_snapshot_staging r"
  define sg1 where "sg1 = (if sg_active sg \<and> (sg_last_included_index sg \<noteq> si \<or> sg_last_included_term sg \<noteq> st
      \<or> sg_expected_size sg \<noteq> word_of_nat n) then SnapshotStaging_new else sg)"
  define sg2 where "sg2 = sg1\<lparr>sg_buffer := take (length p) (sg_buffer sg1)\<rparr>"
  define sg3 where "sg3 = (if \<not> sg_active sg2 then sg2\<lparr>sg_active := True, sg_term := tm, sg_leader_id := lid,
     sg_last_included_index := si, sg_last_included_term := st, sg_expected_size := word_of_nat n\<rparr> else sg2)"
  define sg4 where "sg4 = sg3\<lparr>sg_buffer := sg_buffer sg3 @ c\<rparr>"
  have r1: "rf_opts r1 = rf_opts r" "rf_sm r1 = rf_sm r" "rf_snapshot_staging r1 = sg" "rf_current_term r1 = tm"
    using st by (auto simp: r1_def sg_def staged_def)
  have u: "unat (word_of_nat k :: u64) = k" if "k \<le> n" for k using that c(3) by (simp add: unsigned_of_nat take_bit_nat_eq_self)
  have lp: "length p \<le> n" "length p < n" using c by (cases c, auto)+
  have buf: "sg_buffer sg2 = p" "\<not> word_of_nat (length (sg_buffer sg1)) < (word_of_nat (length p) :: u64)"
    using st by (auto simp: sg2_def sg1_def sg_def staged_def SnapshotStaging_new_def)
  have id: "sg_active sg4" "sg_last_included_index sg4 = si" "sg_last_included_term sg4 = st" "sg_expected_size sg4 = word_of_nat n"
      "sg_buffer sg4 = p @ c"
    using buf by (auto simp: sg4_def sg3_def sg2_def sg1_def SnapshotStaging_new_def)
  have w: "\<not> tm < rf_current_term r" "\<not> ro_max_snapshot_size (rf_opts r) < word_of_nat n"
    using st mx by (auto simp: staged_def not_less)
  have wz: "(word_of_nat n :: u64) \<noteq> 0" using u [of n] lp(2) by auto
  have wl: "\<not> (word_of_nat n :: u64) < word_of_nat (length p) + word_of_nat (length c)"
    using c(2) u [of n] u [of "length p + length c"] by (simp add: word_less_nat_alt flip: of_nat_add)
  have tk: "unat (word_of_nat (length p) :: u64) = length p" by (rule u [OF lp(1)])
  have full: "(word_of_nat (length (p @ c)) < (word_of_nat n :: u64)) = (length p + length c < n)"
    using u [of n] u [of "length p + length c"] c(2) by (simp add: word_less_nat_alt)
  have qf: "ic_term q = tm" "ic_data q = c" "ic_total_size q = word_of_nat n" "ic_chunk_offset q = word_of_nat (length p)"
      "ic_last_included_index q = si" "ic_last_included_term q = st" "ic_leader_id q = lid" by (simp_all add: q_def)
  have mx0: "\<not> (word_of_nat n = (0 :: u64) \<or> ro_max_snapshot_size (rf_opts r) < word_of_nat n)" using w(2) wz by blast
  have h: "Raft_HandleInstallSnapshotChunk env sm r q =
     (let resp = \<lparr>cr_term = tm, cr_accepted_len = word_of_nat (length (p @ c)), cr_complete = False, cr_rejected = True\<rparr>
      in if length p + length c < n then (resp\<lparr>cr_rejected := False\<rparr>, r1\<lparr>rf_snapshot_staging := sg4\<rparr>)
         else let r = r1\<lparr>rf_snapshot_staging := SnapshotStaging_new, rf_leader_id := lid\<rparr>;
                  (s, st') = sm_ApplySnapshot sm (p @ c) (rf_sm r); r = r\<lparr>rf_sm := st'\<rparr>
              in if \<not> ok s then (resp, r)
                 else (resp\<lparr>cr_complete := True, cr_rejected := False\<rparr>, Raft_CommitInstalledSnapshot env r si st (p @ c)))"
    unfolding Raft_HandleInstallSnapshotChunk_def Let_def qf if_not_P [OF w(1)] r1_def [symmetric] r1 if_not_P [OF c(1)]
      if_not_P [OF mx0] if_not_P [OF wl] sg1_def [symmetric] if_not_P [OF buf(2)] tk sg2_def [symmetric] sg3_def [symmetric]
      sg4_def [symmetric] id(5) full
    by (simp split: prod.split)
  show "length p + length c < n \<Longrightarrow> \<exists>resp r'. Raft_HandleInstallSnapshotChunk env sm r q = (resp, r') \<and> \<not> cr_rejected resp
       \<and> \<not> cr_complete resp \<and> cr_accepted_len resp = word_of_nat (length p + length c)
       \<and> staged tm si st n (p @ c) r' \<and> rf_sm r' = rf_sm r \<and> rf_opts r' = rf_opts r"
    unfolding h using id r1 by (simp add: staged_def)
  show "length p + length c = n \<Longrightarrow> sm_ApplySnapshot sm (p @ c) (rf_sm r) = (s, sm') \<Longrightarrow> ok s \<Longrightarrow>
       \<exists>resp r'. Raft_HandleInstallSnapshotChunk env sm r q = (resp, r') \<and> \<not> cr_rejected resp \<and> cr_complete resp
       \<and> rf_sm r' = sm' \<and> rf_commit_index r' = si \<and> rf_last_applied r' = si \<and> rf_snapshot_data r' = p @ c
       \<and> rf_log r' = [\<lparr>le_index = si, le_term = st, le_type = kNoOp, le_data = []\<rparr>] \<and> rf_log_base r' = si"
    unfolding h using r1 by (simp add: Raft_CommitInstalledSnapshot_def)
qed

lemma chunk_run_install:
  fixes r :: "'sm Raft"
  assumes "staged tm si st n p r" and "\<And>c. c \<in> set cs \<Longrightarrow> c \<noteq> []" and "cs \<noteq> []" and "length p + length (concat cs) = n" and "n < 2 ^ 64"
    and "word_of_nat n \<le> ro_max_snapshot_size (rf_opts r)" and "sm_ApplySnapshot sm (p @ concat cs) (rf_sm r) = (s, sm')" and "ok s"
  shows "\<exists>resps r'. chunk_run env sm r (chunk_requests tm lid si st n (length p) cs) = (resps, r')
     \<and> (\<forall>resp \<in> set resps. \<not> cr_rejected resp) \<and> cr_complete (last resps) \<and> length resps = length cs
     \<and> rf_sm r' = sm' \<and> rf_commit_index r' = si \<and> rf_last_applied r' = si \<and> rf_snapshot_data r' = p @ concat cs
     \<and> rf_log r' = [\<lparr>le_index = si, le_term = st, le_type = kNoOp, le_data = []\<rparr>] \<and> rf_log_base r' = si"
  using assms
proof (induction cs arbitrary: p r)
  case (Cons c cs)
  have c: "c \<noteq> []" "length p + length c \<le> n" using Cons.prems(2,4) by auto
  note step = chunk_step [OF Cons.prems(1) c Cons.prems(5,6), where lid = lid and l = "n \<le> length p + length c" and env = env and sm = sm]
  show ?case
  proof (cases "cs = []")
    case True
    have eq: "length p + length c = n" and ap: "sm_ApplySnapshot sm (p @ c) (rf_sm r) = (s, sm')" using Cons.prems(4,7) True by simp_all
    obtain resp r' where "Raft_HandleInstallSnapshotChunk env sm r \<lparr>ic_term = tm, ic_leader_id = lid, ic_last_included_index = si,
        ic_last_included_term = st, ic_chunk_offset = word_of_nat (length p), ic_total_size = word_of_nat n,
        ic_is_last = (n \<le> length p + length c), ic_data = c\<rparr> = (resp, r')" "\<not> cr_rejected resp" "cr_complete resp"
        "rf_sm r' = sm'" "rf_commit_index r' = si" "rf_last_applied r' = si" "rf_snapshot_data r' = p @ c"
        "rf_log r' = [\<lparr>le_index = si, le_term = st, le_type = kNoOp, le_data = []\<rparr>]" "rf_log_base r' = si"
      using step(2) [OF eq ap Cons.prems(8)] by blast
    then show ?thesis using True by simp
  next
    case False
    then have ne: "concat cs \<noteq> []" using Cons.prems(2) by (cases cs) auto
    then have lt: "length p + length c < n" using Cons.prems(4) by (auto simp: length_greater_0_conv [symmetric] simp del: length_greater_0_conv)
    obtain resp r1 where r1: "Raft_HandleInstallSnapshotChunk env sm r \<lparr>ic_term = tm, ic_leader_id = lid, ic_last_included_index = si,
        ic_last_included_term = st, ic_chunk_offset = word_of_nat (length p), ic_total_size = word_of_nat n,
        ic_is_last = (n \<le> length p + length c), ic_data = c\<rparr> = (resp, r1)" "\<not> cr_rejected resp"
        "staged tm si st n (p @ c) r1" "rf_sm r1 = rf_sm r" "rf_opts r1 = rf_opts r"
      using step(1) [OF lt] by blast
    obtain resps r' where r': "chunk_run env sm r1 (chunk_requests tm lid si st n (length (p @ c)) cs) = (resps, r')
        \<and> (\<forall>resp \<in> set resps. \<not> cr_rejected resp) \<and> cr_complete (last resps) \<and> length resps = length cs
        \<and> rf_sm r' = sm' \<and> rf_commit_index r' = si \<and> rf_last_applied r' = si \<and> rf_snapshot_data r' = (p @ c) @ concat cs
        \<and> rf_log r' = [\<lparr>le_index = si, le_term = st, le_type = kNoOp, le_data = []\<rparr>] \<and> rf_log_base r' = si"
      using Cons.IH [OF r1(3)] Cons.prems False r1(4,5) by auto
    then show ?thesis using r1 False by auto
  qed
qed simp


subsection \<open>Replication returns\<close>

lemma snapshot_installed_opts [simp]: "rf_opts (snapshot_installed r f n) = rf_opts r"
  by (simp add: snapshot_installed_def Let_def split: option.split)

lemma send_chunks_returns:
  assumes rpc: "\<And>p q x. rf_opts (snd (rpc p q x)) = rf_opts x" and size: "0 < ro_snapshot_chunk_size (rf_opts r)"
  shows "\<exists>r'. send_chunks env rpc f tm si st data b r = Some r' \<and> rf_opts r' = rf_opts r"
  using size
proof (induction b arbitrary: r rule: less_induct)
  case (less b)
  let ?n = "word_of_nat (length data) :: u64"
  define ss where "ss = send_state r f si st ?n"
  define r1 where "r1 = r\<lparr>rf_snapshot_sends := (rf_snapshot_sends r)(f \<mapsto> ss)\<rparr>"
  define len where "len = min (ro_snapshot_chunk_size (rf_opts r1)) (unat (?n - ss_sent ss))"
  define req where "req = \<lparr>ic_term = tm, ic_leader_id = ro_node_id (rf_opts r1), ic_last_included_index = si,
    ic_last_included_term = st, ic_chunk_offset = ss_sent ss, ic_total_size = ?n,
    ic_is_last = (?n \<le> ss_sent ss + word_of_nat len), ic_data = take len (drop (unat (ss_sent ss)) data)\<rparr>"
  obtain resp s where s: "rpc f req r1 = (resp, s)" by fastforce
  have o: "rf_opts s = rf_opts r" using rpc [of f req r1] s by (simp add: r1_def)
  have len: "0 < len" if "\<not> ?n \<le> ss_sent ss" using that less.prems by (auto simp: len_def r1_def unat_gt_0)
  have r1: "rf_opts r1 = rf_opts r" by (simp add: r1_def)
  have IH: "\<exists>r'. send_chunks env rpc f tm si st data (b - len) (s\<lparr>rf_snapshot_sends := m\<rparr>) = Some r' \<and> rf_opts r' = rf_opts r"
    if "\<not> ?n \<le> ss_sent ss" "\<not> b \<le> len" for m
    using less.IH [of "b - len" "s\<lparr>rf_snapshot_sends := m\<rparr>"] less.prems len that o by simp
  show ?case
    unfolding send_chunks.simps [of env rpc f tm si st data b r] Let_def ss_def [symmetric] r1_def [symmetric] len_def [symmetric]
      req_def [symmetric] s
    using IH o r1 by simp
qed

lemma SendSnapshotToFollower_returns:
  assumes "\<And>p q x. rf_opts (snd (srpc p q x)) = rf_opts x" and "\<And>p q x. rf_opts (snd (crpc p q x)) = rf_opts x"
    and "0 < ro_snapshot_chunk_size (rf_opts r)"
  shows "\<exists>r'. Raft_SendSnapshotToFollower env srpc crpc f r = Some r' \<and> rf_opts r' = rf_opts r"
  using send_chunks_returns [of crpc r env f] assms by (simp add: Raft_SendSnapshotToFollower_def Let_def split_def)

lemma replicate_loop_returns:
  assumes rpc: "\<And>p q x. rf_opts (snd (rpc p q x)) = rf_opts x" "\<And>p q x. rf_opts (snd (srpc p q x)) = rf_opts x"
    "\<And>p q x. rf_opts (snd (crpc p q x)) = rf_opts x"
  shows "0 < ro_snapshot_chunk_size (rf_opts r) \<Longrightarrow> \<exists>r'. replicate_loop env rpc srpc crpc hb lc ct is r = Some r'"
proof (induction "is" arbitrary: r)
  case (Cons i "is")
  let ?p = "pr_id (ro_peers (rf_opts r) ! i)" and ?req = "append_request r hb lc ct (rf_next_index r ! i)"
  obtain resp s where s: "rpc ?p ?req r = (resp, s)" by fastforce
  have o: "rf_opts s = rf_opts r" using rpc(1) [of ?p ?req r] s by simp
  obtain s2 where s2: "Raft_SendSnapshotToFollower env srpc crpc ?p r = Some s2" "rf_opts s2 = rf_opts r"
    using SendSnapshotToFollower_returns [of srpc crpc r env ?p] rpc(2,3) Cons.prems by blast
  have IH: "\<exists>r'. replicate_loop env rpc srpc crpc hb lc ct is x = Some r'" if "rf_opts x = rf_opts r" for x
    using Cons.IH [of x] Cons.prems that by simp
  have up: "\<exists>r'. replicate_loop env rpc srpc crpc hb lc ct is (s\<lparr>rf_next_index := a, rf_match_index := b\<rparr>) = Some r'"
      "\<exists>r'. replicate_loop env rpc srpc crpc hb lc ct is (s\<lparr>rf_next_index := a\<rparr>) = Some r'"
      "\<exists>r'. replicate_loop env rpc srpc crpc hb lc ct is s = Some r'" for a b
    by (rule IH, simp add: o)+
  obtain Q where Q: "?req = Q" by blast
  show ?case using IH [of r] IH [of s2] s2 s up unfolding replicate_loop.simps Let_def Q by simp
qed simp

text \<open>C22: replication returns. If calls leave the options alone and the chunk size is not 0, then
  \<open>ReplicateLog\<close> ends, whatever the peers answer; with snapshot transfers to any number of followers.\<close>

theorem raft_replicate_returns:
  fixes r :: "'sm Raft"
  assumes "\<And>p q x. rf_opts (snd (rpc p q x)) = rf_opts x" and "\<And>p q x. rf_opts (snd (srpc p q x)) = rf_opts x"
    and "\<And>p q x. rf_opts (snd (crpc p q x)) = rf_opts x" and "0 < ro_snapshot_chunk_size (rf_opts r)"
  shows "\<exists>r'. Raft_ReplicateLog env sm rpc srpc crpc is_heartbeat r = Some r'"
  using replicate_loop_returns [of rpc srpc crpc r env is_heartbeat "rf_commit_index r" "rf_current_term r" "[0..<length (ro_peers (rf_opts r))]"] assms
  by (auto simp: Raft_ReplicateLog_def)

subsection \<open>A cluster of three\<close>

text \<open>A state machine that appends every command to its contents, and the nodes 1, 2 and 3.\<close>

definition tape_sm :: "bytes RaftStateMachine" where
  "tape_sm = \<lparr>sm_Apply = \<lambda>c st. (c, st @ c), sm_TakeSnapshot = \<lambda>st. st, sm_ApplySnapshot = \<lambda>d st. (Status_OK, d)\<rparr>"

definition three_peers :: "RaftPeer list" where
  "three_peers = [\<lparr>pr_id = 1, pr_host = ''a'', pr_port = 1, pr_is_voter = True\<rparr>,
     \<lparr>pr_id = 2, pr_host = ''b'', pr_port = 2, pr_is_voter = True\<rparr>, \<lparr>pr_id = 3, pr_host = ''c'', pr_port = 3, pr_is_voter = True\<rparr>]"

definition node :: "u64 \<Rightarrow> bytes Raft" where
  "node i = Raft_new \<lparr>ro_node_id = i, ro_peers = three_peers, ro_enable_raft = True, ro_max_log_entries_per_append = 100,
     ro_snapshot_chunk_size = 2, ro_snapshot_send_budget = 8, ro_max_snapshot_size = 1000\<rparr> [] Map.empty"

definition cmd :: "u64 \<Rightarrow> u64 \<Rightarrow> bytes \<Rightarrow> RaftLogEntry" where
  "cmd i t d = \<lparr>le_index = i, le_term = t, le_type = kCommand, le_data = d\<rparr>"

text \<open>A follower, and a leader of term 1 with two commands.\<close>

definition node1 :: "bytes Raft" where
  "node1 = (node 1)\<lparr>rf_current_term := 1, rf_role := kLeader, rf_log := [dummy_entry, cmd 1 1 [7], cmd 2 1 [8]],
     rf_commit_index := 1, rf_last_applied := 1, rf_sm := [7], rf_match_index := [2, 2, 0], rf_next_index := [3, 3, 1]\<rparr>"

lemma node_simps [simp]:
  "rf_log (node i) = [dummy_entry]" "rf_log_base (node i) = 0" "rf_current_term (node i) = 0" "rf_voted_for (node i) = 0"
  "rf_role (node i) = kFollower" "rf_last_snapshot_index (node i) = 0" "rf_commit_index (node i) = 0" "rf_last_applied (node i) = 0"
  "rf_sm (node i) = []" "ro_node_id (rf_opts (node i)) = i" "ro_peers (rf_opts (node i)) = three_peers" "ro_enable_raft (rf_opts (node i))"
  "ro_max_log_entries_per_append (rf_opts (node i)) = 100" "ro_max_snapshot_size (rf_opts (node i)) = 1000"
  "ro_snapshot_chunk_size (rf_opts (node i)) = 2"
  by (simp_all add: node_def Raft_new_def)

lemma node1_simps [simp]:
  "rf_log node1 = [dummy_entry, cmd 1 1 [7], cmd 2 1 [8]]" "rf_log_base node1 = 0" "rf_current_term node1 = 1" "rf_role node1 = kLeader"
  "rf_commit_index node1 = 1" "rf_last_applied node1 = 1" "rf_sm node1 = [7]" "rf_match_index node1 = [2, 2, 0]"
  "rf_next_index node1 = [3, 3, 1]" "rf_opts node1 = rf_opts (node 1)" "rf_last_snapshot_index node1 = 0"
  by (simp_all add: node1_def)

lemma cmd_simps [simp]:
  "le_index (cmd i t d) = i" "le_term (cmd i t d) = t" "le_type (cmd i t d) = kCommand" "le_data (cmd i t d) = d"
  "le_index dummy_entry = 0" "le_term dummy_entry = 0" "le_type dummy_entry = kNoOp" "le_data dummy_entry = []"
  by (simp_all add: cmd_def dummy_entry_def)

text \<open>Nodes 1 and 2 hold the entry that a leader of term 1 appended; node 3 is new. Node 1 and then node 2
  run for term 2. Only node 3 answers them, and between the two it gets a request of node 1. A lost
  call is answered by an empty response.\<close>

definition veteran :: "u64 \<Rightarrow> bytes Raft" where
  "veteran i = (node i)\<lparr>rf_current_term := 1, rf_log := [dummy_entry, \<lparr>le_index = 1, le_term = 1, le_type = kNoOp, le_data = []\<rparr>]\<rparr>"

definition lost_vote :: RequestVoteResponse where
  "lost_vote = \<lparr>vr_term = 0, vr_vote_granted = False\<rparr>"

definition ask_3 :: "Env \<Rightarrow> bytes Raft \<Rightarrow> bytes vote_rpc" where
  "ask_3 env n3 = (\<lambda>p q r. (if p = 3 then fst (Raft_HandleRequestVote env n3 q) else lost_vote, r))"

definition leader_1 :: "Env \<Rightarrow> bytes Raft" where
  "leader_1 env = Raft_HandleElectionTimeout env (ask_3 env (node 3)) (veteran 1)"

definition voter_3 :: "Env \<Rightarrow> bytes Raft" where
  "voter_3 env = snd (Raft_HandleRequestVote env (node 3)
     \<lparr>rv_term = 2, rv_candidate_id = 1, rv_last_log_index = 1, rv_last_log_term = 1\<rparr>)"

definition follower_3 :: "Env \<Rightarrow> bytes Raft" where
  "follower_3 env = snd (Raft_HandleAppendEntries env tape_sm (voter_3 env)
     (append_request (leader_1 env) False (rf_commit_index (leader_1 env)) (rf_current_term (leader_1 env)) (rf_next_index (leader_1 env) ! 2)))"

definition leader_2 :: "Env \<Rightarrow> bytes Raft" where
  "leader_2 env = Raft_HandleElectionTimeout env (ask_3 env (follower_3 env)) (veteran 2)"

lemmas election_defs = Raft_HandleElectionTimeout_def Raft_StartElection_def Raft_BecomeCandidate_def Raft_HandleRequestVote_def
  Raft_GetLastLogTerm_def Raft_GetLastLogIndex_def Raft_LastLogIndex_def Let_def voter_count_def three_peers_def ask_3_def lost_vote_def veteran_def
  word_le_nat_alt word_less_nat_alt

lemma voter_3_facts:
  "rf_current_term (voter_3 env) = 2" "rf_voted_for (voter_3 env) = 1" "rf_log (voter_3 env) = [dummy_entry]" "rf_log_base (voter_3 env) = 0"
  "rf_last_snapshot_index (voter_3 env) = 0" "rf_commit_index (voter_3 env) = 0"
  by (simp_all add: voter_3_def election_defs)

lemma leader_1_facts:
  "rf_role (leader_1 env) = kLeader" "rf_current_term (leader_1 env) = 2" "rf_commit_index (leader_1 env) = 0"
  "rf_next_index (leader_1 env) ! 2 = 2" "rf_log_base (leader_1 env) = 0"
  "rf_log (leader_1 env) = [dummy_entry, \<lparr>le_index = 1, le_term = 1, le_type = kNoOp, le_data = []\<rparr>,
     \<lparr>le_index = 2, le_term = 2, le_type = kNoOp, le_data = []\<rparr>]"
  by (simp_all add: leader_1_def election_defs Raft_BecomeLeader_def)

lemma follower_3_facts:
  "rf_current_term (follower_3 env) = 2" "rf_voted_for (follower_3 env) = 0" "rf_log (follower_3 env) = [dummy_entry]"
  "rf_log_base (follower_3 env) = 0"
  by (simp_all add: follower_3_def leader_1_facts voter_3_facts Raft_HandleAppendEntries_def append_request_def
      Raft_GetTermForIndex_def Raft_LogPos_def Raft_LastLogIndex_def Let_def word_le_nat_alt)

text \<open>C24: two leaders in one term. Node 1 is elected in term 2 with the vote of node 3 and sends node 3
  its log. \<open>HandleAppendEntries\<close> calls \<open>BecomeFollower\<close>, which clears \<open>voted_for_\<close> even when the term does
  not change, and then rejects the request because node 3 lacks entry 1; so node 3, which had voted for
  node 1, votes again in term 2, for node 2, and node 2 becomes the second leader of the term.\<close>

theorem raft_two_leaders_one_term:
  "rf_role (leader_1 env) = kLeader \<and> rf_role (leader_2 env) = kLeader
   \<and> rf_current_term (leader_1 env) = 2 \<and> rf_current_term (leader_2 env) = 2
   \<and> rf_voted_for (voter_3 env) = 1 \<and> rf_voted_for (follower_3 env) = 0"
  by (simp add: leader_1_facts voter_3_facts follower_3_facts leader_2_def election_defs Raft_BecomeLeader_def)

text \<open>A follower with the log of \<open>node1\<close>.\<close>

definition node2 :: "bytes Raft" where
  "node2 = (node 2)\<lparr>rf_current_term := 1, rf_log := [dummy_entry, cmd 1 1 [7], cmd 2 1 [8]],
     rf_commit_index := 1, rf_last_applied := 1, rf_sm := [7]\<rparr>"

lemma node2_simps [simp]:
  "rf_log node2 = [dummy_entry, cmd 1 1 [7], cmd 2 1 [8]]" "rf_log_base node2 = 0" "rf_current_term node2 = 1"
  "rf_commit_index node2 = 1" "rf_last_applied node2 = 1" "rf_sm node2 = [7]" "rf_opts node2 = rf_opts (node 2)" "rf_last_snapshot_index node2 = 0"
  by (simp_all add: node2_def)

lemma tape_apply [simp]: "sm_Apply tape_sm c st = (c, st @ c)" "sm_TakeSnapshot tape_sm st = st" "sm_ApplySnapshot tape_sm d st = (Status_OK, d)"
  by (simp_all add: tape_sm_def)

definition compacted :: "bytes Raft" where
  "compacted = snd (Raft_TriggerSnapshot Env_good tape_sm node1)"

definition reproposed :: "bytes Raft" where
  "reproposed = snd (Raft_Propose Env_good compacted [9])"

lemma log_matching_same: "entry_at f = entry_at l \<Longrightarrow> log_matching f l"
  by (simp add: log_matching_def)

lemma compacted_facts:
  "fst (Raft_TriggerSnapshot Env_good tape_sm node1)" "rf_log compacted = [cmd 1 1 [7]]" "rf_log_base compacted = 1"
  "rf_role compacted = kLeader" "rf_current_term compacted = 1" "rf_commit_index compacted = 1" "rf_last_applied compacted = 1"
  "rf_sm compacted = [7]" "rf_match_index compacted = [2, 2, 0]" "rf_opts compacted = rf_opts (node 1)" "rf_next_index compacted = [3, 3, 1]"
  by (simp_all add: compacted_def Raft_TriggerSnapshot_def Raft_SaveSnapshotData_def write_and_rename_def Env_good_def Let_def
      Raft_CompactLog_def Raft_LogPos_def ok_def Status_OK_def word_le_nat_alt)

lemma reproposed_facts:
  "fst (Raft_Propose Env_good compacted [9]) = 2" "rf_log reproposed = [cmd 1 1 [7], cmd 2 1 [9]]" "rf_log_base reproposed = 1"
  "rf_role reproposed = kLeader" "rf_current_term reproposed = 1" "rf_commit_index reproposed = 1" "rf_last_applied reproposed = 1"
  "rf_sm reproposed = [7]" "rf_match_index reproposed = [2, 2, 0]" "rf_opts reproposed = rf_opts (node 1)" "rf_next_index reproposed = [3, 3, 1]"
  by (simp_all add: reproposed_def Raft_Propose_def Let_def compacted_facts Raft_GetLastLogIndex_def Raft_LastLogIndex_def cmd_def)

lemma reproposed_commit:
  "commit_loop (map word_of_nat [Suc (unat (rf_commit_index reproposed))..<Suc (unat (Raft_GetLastLogIndex reproposed))]) reproposed
     = reproposed\<lparr>rf_commit_index := 2\<rparr>"
proof -
  have ns: "map word_of_nat [Suc (unat (rf_commit_index reproposed))..<Suc (unat (Raft_GetLastLogIndex reproposed))] = [2 :: u64]"
    by (simp add: reproposed_facts Raft_GetLastLogIndex_def Raft_LastLogIndex_def upt_rec)
  have "commit_majority reproposed = 2"
    by (simp add: commit_majority_def reproposed_facts three_peers_def)
  moreover have "replicated_count reproposed 2 = 2"
    by (simp add: replicated_count_def reproposed_facts three_peers_def upt_rec)
  moreover have "Raft_LogPos reproposed 2 = Some 1" by (simp add: Raft_LogPos_def reproposed_facts word_le_nat_alt word_less_nat_alt)
  ultimately show ?thesis unfolding ns by (simp add: reproposed_facts)
qed

lemma reproposed_leader:
  "rf_sm (Raft_AdvanceCommitIndex tape_sm reproposed) = [7, 9] \<and> rf_last_applied (Raft_AdvanceCommitIndex tape_sm reproposed) = 2"
proof -
  let ?l = "reproposed\<lparr>rf_commit_index := 2\<rparr>"
  have "Raft_AdvanceCommitIndex tape_sm reproposed = Raft_ApplyCommitted tape_sm ?l"
    using reproposed_commit by (simp add: Raft_AdvanceCommitIndex_def Let_def reproposed_facts(4))
  moreover have "log_small ?l" by (simp add: log_small_def reproposed_facts)
  ultimately show ?thesis using ApplyCommitted_state [of ?l tape_sm]
    by (simp add: reproposed_facts upt_rec commands_at_def entry_at_def)
qed

text \<open>Node 2 and a heartbeat that announces commit index 2: it applies what it holds there.\<close>

lemma node2_heartbeat:
  assumes "1 \<le> ae_term req" and "ae_prev_log_index req = 1 \<or> ae_prev_log_index req = 2" and "ae_prev_log_term req = 1"
    and "ae_entries req = []" and "ae_leader_commit req = 2"
  shows "\<exists>resp f. Raft_HandleAppendEntries Env_good tape_sm node2 req = (resp, f)
     \<and> ar_success resp \<and> rf_last_applied f = 2 \<and> rf_sm f = [7, 8]"
proof -
  let ?f = "(Raft_BecomeFollower Env_good node2 (ae_term req))\<lparr>rf_leader_id := ae_leader_id req\<rparr>"
  have p: "Raft_LogPos ?f (ae_prev_log_index req) = Some (unat (ae_prev_log_index req))"
    using assms(2) by (auto simp: Raft_LogPos_def word_le_nat_alt)
  have l: "Raft_GetLastLogIndex ?f = 2" by (simp add: Raft_GetLastLogIndex_def Raft_LastLogIndex_def)
  let ?g = "?f\<lparr>rf_commit_index := 2\<rparr>"
  have h: "Raft_HandleAppendEntries Env_good tape_sm node2 req
      = (\<lparr>ar_term = ae_term req, ar_success = True, ar_conflict_term = 0, ar_conflict_index = 0\<rparr>, Raft_ApplyCommitted tape_sm ?g)"
    using assms p l by (auto simp: Raft_HandleAppendEntries_def Let_def not_less)
  have "log_small ?g" by (simp add: log_small_def)
  from ApplyCommitted_state [OF this, of tape_sm] h show ?thesis
    by (simp add: upt_rec commands_at_def entry_at_def)
qed

text \<open>C25: compaction loses entries. \<open>CompactLog\<close> keeps only the entry at the snapshot index and drops the
  entries above it, which are not in the snapshot. The leader \<open>node1\<close> has applied entry 1 and replicated
  entry 2 to node 2. After a snapshot it hands out index 2 again, in the same term, for another command,
  and commits it at once, because \<open>match_index_\<close> still says that node 2 holds index 2. Node 2 accepts the
  next request, which is empty, and applies the old command: the two state machines differ at the same applied index.\<close>

theorem raft_compaction_diverges:
  "log_matching node2 node1 \<and> entry_at node1 2 = Some (cmd 2 1 [8])
   \<and> fst (Raft_TriggerSnapshot Env_good tape_sm node1) \<and> entry_at compacted 2 = None
   \<and> fst (Raft_Propose Env_good compacted [9]) = 2 \<and> entry_at reproposed 2 = Some (cmd 2 1 [9])
   \<and> (let l = Raft_AdvanceCommitIndex tape_sm reproposed;
          (resp, f) = Raft_HandleAppendEntries Env_good tape_sm node2
             (append_request l False (rf_commit_index l) (rf_current_term l) (rf_next_index l ! 1))
      in ar_success resp \<and> rf_last_applied l = 2 \<and> rf_last_applied f = 2 \<and> rf_sm l = [7, 9] \<and> rf_sm f = [7, 8])"
proof -
  let ?l = "Raft_AdvanceCommitIndex tape_sm reproposed"
  have m: "log_matching node2 node1" by (rule log_matching_same) (simp add: entry_at_def fun_eq_iff)
  have l: "?l = Raft_ApplyCommitted tape_sm (reproposed\<lparr>rf_commit_index := 2\<rparr>)"
    using reproposed_commit by (simp add: Raft_AdvanceCommitIndex_def Let_def reproposed_facts(4))
  have p: "Raft_LogPos ?l 3 = None" "Raft_LogPos ?l 2 = Some 1"
    by (simp_all add: l Raft_LogPos_def reproposed_facts word_le_nat_alt word_less_nat_alt)
  have "\<exists>resp f. Raft_HandleAppendEntries Env_good tape_sm node2
        (append_request ?l False (rf_commit_index ?l) (rf_current_term ?l) (rf_next_index ?l ! 1)) = (resp, f)
     \<and> ar_success resp \<and> rf_last_applied f = 2 \<and> rf_sm f = [7, 8]"
    by (rule node2_heartbeat) (simp_all add: append_request_def Raft_GetTermForIndex_def p, simp_all add: l reproposed_facts p [unfolded l])
  then show ?thesis using m reproposed_leader compacted_facts(1-3) reproposed_facts(1-3) by (auto simp: entry_at_def)
qed

text \<open>A leader of term 2 that replaced entry 2 and committed it; its \<open>next_index_\<close> for node 2 has gone back to 2.\<close>

definition later_leader :: "bytes Raft" where
  "later_leader = (node 3)\<lparr>rf_current_term := 2, rf_role := kLeader, rf_log := [dummy_entry, cmd 1 1 [7], cmd 2 2 [9]],
     rf_commit_index := 2, rf_last_applied := 2, rf_sm := [7, 9], rf_next_index := [3, 2, 3], rf_match_index := [2, 0, 2]\<rparr>"

text \<open>A heartbeat can commit a stale entry. \<open>HandleAppendEntries\<close> sets the commit index to the minimum of
  the leader's and the follower's own last index, not of the last entry that the request vouches for. Node 2
  has entry 2 of term 1; the leader of term 2 has committed another entry 2 and sends a heartbeat after
  entry 1. The logs satisfy log matching and the heartbeat succeeds, and node 2 applies its own stale entry.
  (Nothing calls \<open>SendHeartbeat\<close>; the requests of the replication thread carry the entries after \<open>next_index_\<close>.)\<close>

lemma raft_heartbeat_commits_stale:
  "log_matching node2 later_leader
   \<and> (let req = append_request later_leader True (rf_commit_index later_leader) (rf_current_term later_leader) (rf_next_index later_leader ! 1);
          (resp, f) = Raft_HandleAppendEntries Env_good tape_sm node2 req
      in ae_entries req = [] \<and> ar_success resp \<and> rf_last_applied f = 2 \<and> rf_sm f = [7, 8] \<and> rf_sm later_leader = [7, 9])"
proof -
  let ?l = later_leader
  have l: "rf_log ?l = [dummy_entry, cmd 1 1 [7], cmd 2 2 [9]]" "rf_log_base ?l = 0" "rf_commit_index ?l = 2" "rf_current_term ?l = 2"
      "rf_next_index ?l = [3, 2, 3]" "rf_sm ?l = [7, 9]" by (simp_all add: later_leader_def)
  have m: "log_matching node2 ?l"
    unfolding log_matching_def by (auto simp: entry_at_def l numeral_3_eq_3 less_Suc_eq split: if_splits)
  have "\<exists>resp f. Raft_HandleAppendEntries Env_good tape_sm node2
        (append_request ?l True (rf_commit_index ?l) (rf_current_term ?l) (rf_next_index ?l ! 1)) = (resp, f)
     \<and> ar_success resp \<and> rf_last_applied f = 2 \<and> rf_sm f = [7, 8]"
    by (rule node2_heartbeat) (simp_all add: append_request_def Raft_GetTermForIndex_def l Raft_LogPos_def word_le_nat_alt split: option.split)
  moreover have "ae_entries (append_request ?l True (rf_commit_index ?l) (rf_current_term ?l) (rf_next_index ?l ! 1)) = []"
    by (simp add: append_request_def split: option.split)
  ultimately show ?thesis using m l(6) by auto
qed


subsection \<open>Witnesses\<close>

theorem raft_node_well_formed_witness: "raft_wf (follower_3 Env_good)"
proof -
  have "raft_reach Env_good tape_sm (node 3) (follower_3 Env_good)"
    unfolding follower_3_def voter_3_def by (intro raft_reach.append_entries raft_reach.request_vote raft_reach.start)
  from raft_node_well_formed [OF this [unfolded node_def]] show ?thesis by (rule conjunct1)
qed

lemma node1_facts: "log_wf node1" "log_small node1" "log_small (node 3)" "log_matching (node 3) node1"
  by (auto simp: log_wf_def log_small_def log_matching_def entry_at_def numeral_3_eq_3 less_Suc_eq split: if_splits)

lemma node1_last: "Raft_GetLastLogIndex node1 = 2"
  by (simp add: Raft_GetLastLogIndex_def Raft_LastLogIndex_def)

text \<open>The exchange in which \<open>node1\<close> sends node 3 its log.\<close>

lemma node1_entries: "ae_entries (append_request node1 False 1 1 1) = [cmd 1 1 [7], cmd 2 1 [8]]"
  by (simp add: append_request_def Raft_LogPos_def word_le_nat_alt)

lemma node1_to_3: "\<exists>resp f. Raft_HandleAppendEntries Env_good tape_sm (node 3) (append_request node1 False 1 1 1) = (resp, f) \<and> ar_success resp"
proof -
  have q: "ae_term (append_request node1 False 1 1 1) = 1" "ae_prev_log_index (append_request node1 False 1 1 1) = 0"
    by (simp_all add: append_request_def)
  obtain Q where Q: "append_request node1 False 1 1 1 = Q" by blast
  show ?thesis using q node1_entries unfolding Q
    by (simp add: Raft_HandleAppendEntries_def Raft_LogPos_def word_le_nat_alt Let_def)
qed

theorem raft_append_matches_leader_witness:
  "\<exists>f. log_matching f node1 \<and> entry_at f 2 = Some (cmd 2 1 [8])
     \<and> snd (Raft_HandleAppendEntries Env_good tape_sm (node 3) (append_request node1 False 1 1 1)) = f"
proof -
  obtain resp f where f: "Raft_HandleAppendEntries Env_good tape_sm (node 3) (append_request node1 False 1 1 1) = (resp, f)" "ar_success resp"
    using node1_to_3 by blast
  have d: "entry_at (node 3) 0 = Some dummy_entry \<and> entry_at node1 0 = Some dummy_entry" by (simp add: entry_at_def)
  have n: "rf_log_base node1 < 1" "1 \<le> Raft_GetLastLogIndex node1 + 1" by (simp_all add: node1_last)
  show ?thesis
    using raft_append_matches_leader [OF node1_facts n d f] f(1) unfolding node1_entries
    by (intro exI [of _ f]) (force dest!: spec [of _ "Suc 0"] simp: numeral_2_eq_2)
qed

theorem raft_replicated_state_witness:
  "rf_sm (snd (Raft_HandleAppendEntries Env_good tape_sm (node 3) (append_request node1 False 1 1 1))) = [7]"
proof -
  obtain resp f where f: "Raft_HandleAppendEntries Env_good tape_sm (node 3) (append_request node1 False 1 1 1) = (resp, f)" "ar_success resp"
    using node1_to_3 by blast
  have d: "entry_at (node 3) 0 = Some dummy_entry \<and> entry_at node1 0 = Some dummy_entry" by (simp add: entry_at_def)
  have n: "rf_log_base node1 < 1" "1 \<le> Raft_GetLastLogIndex node1 + 1" by (simp_all add: node1_last)
  have "rf_sm f = apply_commands tape_sm (commands_at node1 [Suc (unat (rf_last_applied (node 3)))..<Suc (unat (1 :: u64))]) (rf_sm (node 3))"
    using raft_replicated_state [OF node1_facts n d f] by (simp add: node1_entries)
  then show ?thesis using f(1) by (simp add: commands_at_def entry_at_def)
qed

lemma node1_quorum: "distinct (map pr_id (ro_peers (rf_opts node1)))" "ro_node_id (rf_opts node1) \<in> voter_ids (ro_peers (rf_opts node1))"
  by (simp_all add: three_peers_def voter_ids_def)

lemma node1_advances: "rf_commit_index (Raft_AdvanceCommitIndex tape_sm node1) = 2"
proof -
  have ns: "map word_of_nat [Suc (unat (rf_commit_index node1))..<Suc (unat (Raft_GetLastLogIndex node1))] = [2 :: u64]"
    by (simp add: node1_last upt_rec)
  have "commit_majority node1 = 2" "replicated_count node1 2 = 2" "Raft_LogPos node1 2 = Some 2"
    by (simp_all add: commit_majority_def replicated_count_def three_peers_def upt_rec Raft_LogPos_def word_le_nat_alt)
  then have "commit_loop [2] node1 = node1\<lparr>rf_commit_index := 2\<rparr>" by simp
  then show ?thesis unfolding Raft_AdvanceCommitIndex_def Let_def ns by simp
qed



theorem raft_vote_once_witness:
  "(let q = \<lparr>rv_term = 1, rv_candidate_id = 1, rv_last_log_index = 0, rv_last_log_term = 0\<rparr>
    in vr_vote_granted (vote_run Env_good (node 3) [q, q] ! 0) \<and> vr_vote_granted (vote_run Env_good (node 3) [q, q] ! 1)
     \<and> rv_candidate_id ([q, q] ! 0) = rv_candidate_id ([q, q] ! 1))"
proof -
  let ?q = "\<lparr>rv_term = 1, rv_candidate_id = 1, rv_last_log_index = 0, rv_last_log_term = 0\<rparr>"
  have v: "vr_vote_granted (vote_run Env_good (node 3) [?q, ?q] ! 0)" "vr_vote_granted (vote_run Env_good (node 3) [?q, ?q] ! 1)"
    by (simp_all add: Raft_HandleRequestVote_def Raft_GetLastLogTerm_def Raft_GetLastLogIndex_def Raft_LastLogIndex_def Let_def)
  show ?thesis using raft_vote_once [OF _ _ v] v by (simp add: Let_def)
qed


theorem raft_replicate_returns_witness:
  "\<exists>r. Raft_ReplicateLog Env_good tape_sm (\<lambda>p q r. (\<lparr>ar_term = 1, ar_success = True, ar_conflict_term = 0, ar_conflict_index = 0\<rparr>, r))
     (\<lambda>p q r. (\<lparr>ir_term = 1, ir_success = True\<rparr>, r))
     (\<lambda>p q r. (\<lparr>cr_term = 1, cr_accepted_len = 0, cr_complete = False, cr_rejected = False\<rparr>, r)) False node1 = Some r"
  by (rule raft_replicate_returns) simp_all

theorem raft_persistence_roundtrip_witness:
  "\<exists>s r1 r2. Raft_SavePersistentState Env_good node1 = (s, r1) \<and> ok s
     \<and> Raft_LoadPersistentState Env_good ((node 1)\<lparr>rf_fs := rf_fs r1\<rparr>) (rf_db_path node1) = Some (Status_OK, r2)
     \<and> rf_log r2 = rf_log node1 \<and> rf_current_term r2 = 1"
proof -
  obtain s r1 where sv: "Raft_SavePersistentState Env_good node1 = (s, r1)" by fastforce
  have s: "ok s" using sv by (auto simp: Raft_SavePersistentState_def write_and_rename_def Env_good_def Let_def ok_def Status_OK_def)
  have l: "length (rf_log node1) < 2 ^ 32" "\<And>e. e \<in> set (rf_log node1) \<Longrightarrow> entry_fits e" by (auto simp: entry_fits_def)
  have "\<exists>r2. Raft_LoadPersistentState Env_good ((node 1)\<lparr>rf_fs := rf_fs r1\<rparr>) (rf_db_path node1) = Some (Status_OK, r2)
      \<and> rf_current_term r2 = rf_current_term node1 \<and> rf_log r2 = rf_log node1"
    using raft_persistence_roundtrip [of node1 Env_good s r1 "(node 1)\<lparr>rf_fs := rf_fs r1\<rparr>"] sv s l node1_facts(1)
    by (auto simp: Env_good_def)
  then show ?thesis using sv s by auto
qed

end
