(* ===== verification/Spec2Isabelle.thy ===== *)
theory Spec2Isabelle
  imports Lkv_Cache Lkv_SSTable Lkv_Wal Lkv_Manifest Lkv_MemTable Lkv_RaftSafety
begin

text \<open>
  LightKV.
\<close>

end
